(* ===== verification/Prelude.thy ===== *)
theory Prelude
  imports Main "HOL-Library.Word" "HOL-Library.Multiset"
begin

text \<open>
  Shared vocabulary of the development: machine integers, the faults a Rust function can
  end in, big-endian byte strings, the slice and vector operations of the standard library
  that the sources use, and the contract of a fixed-width byte codec.

  Rust's \<open>panic!\<close> (and what the debug build checks: shift amounts, arithmetic overflow,
  \<open>unwrap\<close> on \<open>None\<close>, slice lengths) is the left side of a sum; a function that cannot
  panic has a plain result type.
\<close>

unbundle bit_operations_syntax

named_theorems res_simps \<open>equations of the result monad\<close>
named_theorems be_simps \<open>big-endian byte strings\<close>

type_synonym u8 = "8 word"
type_synonym u16 = "16 word"
type_synonym u32 = "32 word"
type_synonym u64 = "64 word"
type_synonym u128 = "128 word"
type_synonym bytes = "u8 list"

subsection \<open>Faults and results\<close>

datatype fault =
    ShiftOverflow
  | ArithOverflow
  | UnwrapNone
  | UnwrapErr
  | SliceLength
  | AssertFailed
  | ExplicitPanic
  | OutOfFuel

type_synonym 'a res = "fault + 'a"

fun rbind :: "'e + 'a \<Rightarrow> ('a \<Rightarrow> 'e + 'b) \<Rightarrow> 'e + 'b" where
  "rbind (Inl e) f = Inl e"
| "rbind (Inr a) f = f a"

lemma rbind_assoc [res_simps]: "rbind (rbind m f) g = rbind m (\<lambda>a. rbind (f a) g)"
  by (cases m) simp_all

lemma rbind_Inr_right [res_simps]: "rbind m Inr = m"
  by (cases m) simp_all

lemma rbind_eq_Inr: "rbind m f = Inr b \<longleftrightarrow> (\<exists>a. m = Inr a \<and> f a = Inr b)"
  by (cases m) simp_all

lemma rbind_InrE [elim!]:
  assumes "rbind m f = Inr b"
  obtains a where "m = Inr a" "f a = Inr b"
  using assms by (cases m) auto

lemma isl_rbind_Inr [simp]: "isl (rbind m (\<lambda>a. Inr (f a))) \<longleftrightarrow> isl m"
  by (cases m) simp_all

fun map_res :: "('a \<Rightarrow> 'e + 'b) \<Rightarrow> 'a list \<Rightarrow> 'e + 'b list" where
  "map_res f [] = Inr []"
| "map_res f (x # xs) = rbind (f x) (\<lambda>y. rbind (map_res f xs) (\<lambda>ys. Inr (y # ys)))"

lemma map_res_Inr [res_simps]:
  "(\<And>x. x \<in> set xs \<Longrightarrow> f x = Inr (g x)) \<Longrightarrow> map_res f xs = Inr (map g xs)"
  by (induction xs) simp_all

lemma isl_map_res: "isl (map_res f xs) \<longleftrightarrow> (\<exists>x\<in>set xs. isl (f x))"
proof (induction xs)
  case (Cons x xs)
  then show ?case by (cases "f x"; cases "map_res f xs") auto
qed simp

lemma length_map_res: "map_res f xs = Inr ys \<Longrightarrow> length ys = length xs"
proof (induction xs arbitrary: ys)
  case (Cons x xs)
  then show ?case by (auto simp: rbind_eq_Inr)
qed simp

subsection \<open>Checked shifts of the debug build\<close>

definition checked_shl :: "'a::len word \<Rightarrow> nat \<Rightarrow> 'a word res" where
  "checked_shl w n = (if n < LENGTH('a) then Inr (push_bit n w) else Inl ShiftOverflow)"

definition checked_shr :: "'a::len word \<Rightarrow> nat \<Rightarrow> 'a word res" where
  "checked_shr w n = (if n < LENGTH('a) then Inr (drop_bit n w) else Inl ShiftOverflow)"

lemma checked_shl_ok [res_simps]: "n < LENGTH('a) \<Longrightarrow> checked_shl (w :: 'a::len word) n = Inr (push_bit n w)"
  by (simp add: checked_shl_def)

lemma checked_shr_ok [res_simps]: "n < LENGTH('a) \<Longrightarrow> checked_shr (w :: 'a::len word) n = Inr (drop_bit n w)"
  by (simp add: checked_shr_def)

subsection \<open>Big-endian byte strings\<close>

text \<open>\<open>to_be_bytes n w\<close> is \<open>w.to_be_bytes()\<close> of an integer of \<open>n\<close> bytes, and
  \<open>from_be_bytes\<close> its inverse.\<close>

definition to_be_bytes :: "nat \<Rightarrow> 'a::len word \<Rightarrow> bytes" where
  "to_be_bytes n w = map (\<lambda>i. ucast (drop_bit (8 * (n - 1 - i)) w)) [0..<n]"

definition from_be_bytes :: "bytes \<Rightarrow> 'a::len word" where
  "from_be_bytes bs = fold (\<lambda>b acc. push_bit 8 acc OR ucast b) bs 0"

lemma length_to_be_bytes [simp]: "length (to_be_bytes n w) = n"
  by (simp add: to_be_bytes_def)

lemma nth_to_be_bytes:
  "i < n \<Longrightarrow> to_be_bytes n w ! i = ucast (drop_bit (8 * (n - 1 - i)) w)"
  by (simp add: to_be_bytes_def)

lemma from_be_bytes_Nil [simp]: "from_be_bytes [] = 0"
  by (simp add: from_be_bytes_def)

lemma from_be_bytes_snoc [simp]:
  "from_be_bytes (bs @ [b]) = push_bit 8 (from_be_bytes bs) OR ucast b"
  by (simp add: from_be_bytes_def)

lemma bit_from_be_bytes:
  "bit (from_be_bytes bs :: 'a::len word) k \<longleftrightarrow>
     k < LENGTH('a) \<and> k < 8 * length bs \<and> bit (bs ! (length bs - 1 - k div 8)) (k mod 8)"
proof (induction bs arbitrary: k rule: rev_induct)
  case Nil
  then show ?case by simp
next
  case (snoc b bs)
  show ?case
  proof (cases "k < 8")
    case True
    then show ?thesis
      by (auto simp: bit_simps nth_append dest: bit_imp_le_length)
  next
    case False
    then obtain m where m: "k = m + 8" by (metis add.commute le_Suc_ex not_less)
    then have div: "k div 8 = Suc (m div 8)" "k mod 8 = m mod 8" by simp_all
    have nb: "\<not> bit b k" using False bit_imp_le_length [of b k] by auto
    have idx: "length bs - Suc (m div 8) < length bs" if "m < 8 * length bs"
      using that by (cases bs) auto
    show ?thesis
      using snoc.IH [of m] m div nb idx
      by (auto simp: bit_simps nth_append)
  qed
qed

lemma from_to_be_bytes [be_simps]:
  assumes "LENGTH('a::len) = 8 * n"
  shows "from_be_bytes (to_be_bytes n (w :: 'a word)) = w"
proof (rule bit_word_eqI)
  fix k assume k: "k < LENGTH('a)"
  then have d: "k div 8 < n" using assms by auto
  have "n - 1 - (n - 1 - k div 8) = k div 8" using d by arith
  then have "bit (to_be_bytes n w ! (n - 1 - k div 8)) (k mod 8)
      \<longleftrightarrow> bit w (8 * (k div 8) + k mod 8)"
    using d by (simp add: nth_to_be_bytes bit_simps)
  also have "8 * (k div 8) + k mod 8 = k" by simp
  finally show "bit (from_be_bytes (to_be_bytes n w) :: 'a word) k \<longleftrightarrow> bit w k"
    using k assms by (simp add: bit_from_be_bytes)
qed

lemma to_from_be_bytes [be_simps]:
  assumes "LENGTH('a::len) = 8 * n" and "length bs = n"
  shows "to_be_bytes n (from_be_bytes bs :: 'a word) = bs"
proof (rule nth_equalityI)
  show "length (to_be_bytes n (from_be_bytes bs :: 'a word)) = length bs"
    using assms by simp
next
  fix i assume "i < length (to_be_bytes n (from_be_bytes bs :: 'a word))"
  then have i: "i < n" by simp
  show "to_be_bytes n (from_be_bytes bs :: 'a word) ! i = bs ! i"
  proof (rule bit_word_eqI)
    fix k assume "k < LENGTH(8)"
    then have k: "k < 8" by simp
    let ?m = "8 * (n - 1 - i) + k"
    have m: "?m div 8 = n - 1 - i" "?m mod 8 = k" using k by simp_all
    have lt: "?m < 8 * n" using i k by auto
    have "n - 1 - (n - 1 - i) = i" using i by arith
    then show "bit (to_be_bytes n (from_be_bytes bs :: 'a word) ! i) k \<longleftrightarrow> bit (bs ! i) k"
      using assms lt m i k by (simp add: nth_to_be_bytes bit_simps bit_from_be_bytes)
  qed
qed

lemma to_be_bytes_inj:
  "LENGTH('a::len) = 8 * n \<Longrightarrow> to_be_bytes n (v :: 'a word) = to_be_bytes n w \<Longrightarrow> v = w"
  by (metis from_to_be_bytes)

subsection \<open>Slices\<close>

text \<open>\<open>chunks_exact\<close> drops a final incomplete chunk; its size is a positive constant at every
  use.\<close>

function chunks_exact :: "nat \<Rightarrow> 'a list \<Rightarrow> 'a list list" where
  "chunks_exact n xs = (if n = 0 \<or> length xs < n then [] else take n xs # chunks_exact n (drop n xs))"
  by pat_completeness auto
termination
  by (relation "measure (\<lambda>(n, xs). length xs)") auto

declare chunks_exact.simps [simp del]

lemma chunks_exact_short [simp]: "length xs < n \<Longrightarrow> chunks_exact n xs = []"
  by (subst chunks_exact.simps) simp

lemma chunks_exact_append [simp]:
  "0 < n \<Longrightarrow> length ys = n \<Longrightarrow> chunks_exact n (ys @ xs) = ys # chunks_exact n xs"
  by (subst chunks_exact.simps) simp

lemma length_chunks_exact: "0 < n \<Longrightarrow> length (chunks_exact n xs) = length xs div n"
proof (induction n xs rule: chunks_exact.induct)
  case (1 n xs)
  show ?case
  proof (cases "length xs < n")
    case False
    then have "length xs div n = Suc ((length xs - n) div n)"
      using "1.prems" by (simp add: le_div_geq)
    with False "1" show ?thesis by (simp add: chunks_exact.simps [of n xs])
  qed simp
qed

lemma chunks_exact_lengths: "ys \<in> set (chunks_exact n xs) \<Longrightarrow> length ys = n"
proof (induction n xs rule: chunks_exact.induct)
  case (1 n xs)
  then show ?case by (auto simp: chunks_exact.simps [of n xs] split: if_splits)
qed

subsection \<open>Vectors\<close>

text \<open>\<open>Iterator::position\<close> and \<open>Vec::remove\<close>.\<close>

fun position :: "('a \<Rightarrow> bool) \<Rightarrow> 'a list \<Rightarrow> nat option" where
  "position p [] = None"
| "position p (x # xs) = (if p x then Some 0 else map_option Suc (position p xs))"

definition vec_remove :: "'a list \<Rightarrow> nat \<Rightarrow> 'a list" where
  "vec_remove xs i = take i xs @ drop (Suc i) xs"

lemma position_None: "position p xs = None \<longleftrightarrow> (\<forall>x\<in>set xs. \<not> p x)"
  by (induction xs) auto

lemma position_Some:
  "position p xs = Some i \<Longrightarrow> i < length xs \<and> p (xs ! i) \<and> (\<forall>j<i. \<not> p (xs ! j))"
proof (induction xs arbitrary: i)
  case (Cons x xs)
  then show ?case by (auto split: if_splits simp: less_Suc_eq_0_disj)
qed simp

lemma mset_vec_remove: "i < length xs \<Longrightarrow> mset xs = add_mset (xs ! i) (mset (vec_remove xs i))"
  by (subst id_take_nth_drop [of i xs]) (simp_all add: vec_remove_def)

lemma set_vec_remove_subset: "set (vec_remove xs i) \<subseteq> set xs"
  using set_take_subset [of i xs] set_drop_subset [of "Suc i" xs] by (auto simp: vec_remove_def)

subsection \<open>Task sets\<close>

text \<open>\<open>UnboundedConcurrentTaskSet\<close> of \<open>utils.rs\<close>: \<open>get_next_result\<close> waits until some task is ready,
  at an index \<open>i\<close> that \<open>select_all\<close> chooses, and keeps the others.  A step relation that takes any
  task out of a list is this choice.\<close>

definition add_task :: "'t list \<Rightarrow> 't \<Rightarrow> 't list" where
  [simp]: "add_task ts t = ts @ [t]"

definition get_next_result :: "nat \<Rightarrow> 't list \<Rightarrow> ('t \<times> 't list) option" where
  "get_next_result i ts = (if i < length ts then Some (ts ! i, vec_remove ts i) else None)"

lemma get_next_result_split:
  assumes "get_next_result i ts = Some (t, rest)"
  shows "\<exists>pre post. ts = pre @ t # post \<and> rest = pre @ post"
proof (intro exI conjI)
  from assms have i: "i < length ts" "t = ts ! i" "rest = vec_remove ts i"
    by (simp_all add: get_next_result_def split: if_split_asm)
  show "ts = take i ts @ t # drop (Suc i) ts" using i(1) unfolding i(2) by (rule id_take_nth_drop)
  show "rest = take i ts @ drop (Suc i) ts" unfolding i(3) by (simp add: vec_remove_def)
qed

lemma get_next_result_append: "get_next_result (length pre) (pre @ t # post) = Some (t, pre @ post)"
  by (simp add: get_next_result_def vec_remove_def)

lemma get_next_result_props:
  assumes "get_next_result i ts = Some (t, rest)"
  shows "t \<in> set ts" "set rest \<subseteq> set ts" "length ts = Suc (length rest)"
proof -
  obtain pre post where "ts = pre @ t # post" "rest = pre @ post"
    using get_next_result_split [OF assms] by blast
  then show "t \<in> set ts" "set rest \<subseteq> set ts" "length ts = Suc (length rest)" by auto
qed

lemma get_next_result_0 [simp]: "get_next_result 0 (t # ts) = Some (t, ts)"
  by (simp add: get_next_result_def vec_remove_def)

subsection \<open>Three-way comparison\<close>

text \<open>\<open>std::cmp::Ordering\<close>, and the \<open>cmp\<close> of a type of the standard library.\<close>

datatype ordering = Less | Equal | Greater

definition cmp :: "'a::linorder \<Rightarrow> 'a \<Rightarrow> ordering" where
  "cmp a b = (if a < b then Less else if a = b then Equal else Greater)"

lemma cmp_iff [simp]:
  "cmp a b = Less \<longleftrightarrow> a < b" "cmp a b = Equal \<longleftrightarrow> a = b" "cmp a b = Greater \<longleftrightarrow> b < a"
  by (auto simp: cmp_def)

lemma cmp_unique:
  assumes "c = Less \<longleftrightarrow> a < b" "c = Equal \<longleftrightarrow> a = b"
  shows "c = cmp a b"
  using assms by (cases c) (auto simp: cmp_def)

subsection \<open>Ordered sets\<close>

text \<open>A \<open>BTreeSet\<close> is the sorted list of its elements; \<open>insert\<close> also says whether the element was
  new.\<close>

definition btree_insert :: "'a::linorder \<Rightarrow> 'a list \<Rightarrow> bool \<times> 'a list" where
  "btree_insert x xs = (if x \<in> set xs then (False, xs) else (True, insort x xs))"

lemma btree_insert_ok:
  assumes "sorted xs" "distinct xs"
  shows "sorted (snd (btree_insert x xs))" "distinct (snd (btree_insert x xs))"
    "set (snd (btree_insert x xs)) = insert x (set xs)" "fst (btree_insert x xs) \<longleftrightarrow> x \<notin> set xs"
  using assms by (auto simp: btree_insert_def sorted_insort distinct_insort set_insort_key)

lemma length_btree_insert: "length (snd (btree_insert x xs)) \<le> Suc (length xs)"
  by (simp add: btree_insert_def)

subsection \<open>Contract of a fixed-width byte codec\<close>

text \<open>
  The compact encodings of BEP 5 and BEP 51 concatenate records of one width.  The encoder
  may panic, exactly on the values that have no record; the client lemmas are about whole
  lists.
\<close>

locale fixed_codec =
  fixes enc :: "'a \<Rightarrow> bytes res"
    and dec :: "bytes \<Rightarrow> 'a"
    and width :: nat
    and encodable :: "'a \<Rightarrow> bool"
  assumes width_pos: "0 < width"
    and enc_ok: "encodable a \<Longrightarrow> \<exists>bs. enc a = Inr bs \<and> length bs = width \<and> dec bs = a"
    and enc_panic: "\<not> encodable a \<Longrightarrow> isl (enc a)"
begin

lemma pack_ok:
  assumes "\<forall>a\<in>set as. encodable a"
  shows "\<exists>bss. map_res enc as = Inr bss \<and> length (concat bss) = width * length as \<and>
           map dec (chunks_exact width (concat bss)) = as"
  using assms
proof (induction as)
  case Nil
  then show ?case using width_pos by simp
next
  case (Cons a as)
  from Cons.prems obtain bs where bs: "enc a = Inr bs" "length bs = width" "dec bs = a"
    using enc_ok [of a] by auto
  from Cons obtain bss where "map_res enc as = Inr bss" "length (concat bss) = width * length as"
    "map dec (chunks_exact width (concat bss)) = as" by auto
  with bs width_pos show ?case by simp
qed

lemma pack_panics: "isl (map_res enc as) \<longleftrightarrow> (\<exists>a\<in>set as. \<not> encodable a)"
proof -
  have "isl (enc a) \<longleftrightarrow> \<not> encodable a" for a
    using enc_ok [of a] enc_panic [of a] by (cases "encodable a") auto
  then show ?thesis by (simp add: isl_map_res)
qed

lemma unpack_length: "length (map dec (chunks_exact width bs)) = length bs div width"
  using width_pos by (simp add: length_chunks_exact)

end

subsection \<open>Contract of an identifier space\<close>

text \<open>
  What the routing table relies on: a distance whose bits (index 0 is the most significant)
  compose by exclusive or, and an order decided by the first differing bit.  From it follow
  the two comparisons a Kademlia table needs: an identifier that leaves the owner's path at
  bit \<open>i\<close> is nearer to a target than those that stay on it exactly when the target leaves
  the path at \<open>i\<close> too.
\<close>

locale id_space =
  fixes dist :: "'a::linorder \<Rightarrow> 'a \<Rightarrow> 'a"
    and bit_at :: "'a \<Rightarrow> u8 \<Rightarrow> bool"
  assumes dist_comm: "dist a b = dist b a"
    and dist_bit: "bit_at (dist a c) i \<longleftrightarrow> bit_at (dist a b) i \<noteq> bit_at (dist b c) i"
    and bits_less: "(\<And>j. j < i \<Longrightarrow> bit_at a j = bit_at b j) \<Longrightarrow> \<not> bit_at a i \<Longrightarrow> bit_at b i \<Longrightarrow> a < b"
    and dist_cancel: "dist a b = dist a c \<Longrightarrow> b = c"
    and bits_eq: "(\<And>i. bit_at a i = bit_at b i) \<Longrightarrow> a = b"
begin

lemma dist_self_bit: "\<not> bit_at (dist a a) i"
  using dist_bit [of a a i a] by simp

lemma dist_self_iff: "dist a b = dist c c \<longleftrightarrow> a = b"
proof
  assume "dist a b = dist c c"
  then have "dist a b = dist a a"
    by (intro bits_eq) (simp add: dist_self_bit)
  then show "a = b" by (rule dist_cancel [symmetric])
next
  assume "a = b"
  then show "dist a b = dist c c" by (intro bits_eq) (simp add: dist_self_bit)
qed

lemma target_bit: "bit_at (dist t x) i \<longleftrightarrow> bit_at (dist own t) i \<noteq> bit_at (dist own x) i"
  using dist_bit [of t x i own] by (simp add: dist_comm)

lemma nearer_off_path:
  assumes "\<And>j. j < i \<Longrightarrow> \<not> bit_at (dist own x) j" and "\<And>j. j < i \<Longrightarrow> \<not> bit_at (dist own y) j"
    and "bit_at (dist own x) i" and "\<not> bit_at (dist own y) i" and "bit_at (dist own t) i"
  shows "dist t x < dist t y"
  by (rule bits_less [of i]) (use assms in \<open>simp_all add: target_bit [of t _ _ own]\<close>)

lemma nearer_on_path:
  assumes "\<And>j. j < i \<Longrightarrow> \<not> bit_at (dist own x) j" and "\<And>j. j < i \<Longrightarrow> \<not> bit_at (dist own y) j"
    and "bit_at (dist own x) i" and "\<not> bit_at (dist own y) i" and "\<not> bit_at (dist own t) i"
  shows "dist t y < dist t x"
  by (rule bits_less [of i]) (use assms in \<open>simp_all add: target_bit [of t _ _ own]\<close>)

end

subsection \<open>Contract of a routing table\<close>

text \<open>
  What the router relies on.  The client lemmas are about a set of identifiers kept out of
  the table: it stays out as long as nodes are added only from outside the set, and grows
  by an identifier that is removed.
\<close>

locale routing_table =
  fixes table_ok :: "'t \<Rightarrow> bool"
    and known :: "'t \<Rightarrow> 'i set"
    and capacity :: "'t \<Rightarrow> nat"
    and key :: "'n \<Rightarrow> 'i"
    and add :: "'t \<Rightarrow> 'n \<Rightarrow> 't res"
    and remove :: "'t \<Rightarrow> 'i \<Rightarrow> bool \<times> 't"
    and lookup :: "'t \<Rightarrow> 'i \<Rightarrow> 'n list res"
  assumes add_ok: "table_ok t \<Longrightarrow> \<exists>t'. add t n = Inr t' \<and> table_ok t' \<and>
      known t \<subseteq> known t' \<and> known t' \<subseteq> insert (key n) (known t) \<and> capacity t' = capacity t"
    and remove_ok: "table_ok t \<Longrightarrow> table_ok (snd (remove t i)) \<and> known (snd (remove t i)) = known t - {i} \<and>
      (fst (remove t i) \<longleftrightarrow> i \<in> known t) \<and> capacity (snd (remove t i)) = capacity t"
    and lookup_ok: "table_ok t \<Longrightarrow> \<exists>ns. lookup t i = Inr ns \<and> length ns \<le> capacity t \<and> key ` set ns \<subseteq> known t"
begin

lemma add_disjoint:
  assumes "table_ok t" "B \<inter> known t = {}" "key n \<notin> B" "add t n = Inr t'"
  shows "table_ok t' \<and> B \<inter> known t' = {} \<and> capacity t' = capacity t"
  using add_ok [OF assms(1), of n] assms(2-) by fastforce

lemma remove_disjoint:
  assumes "table_ok t" "B \<inter> known t = {}"
  shows "insert i B \<inter> known (snd (remove t i)) = {}"
  using remove_ok [OF assms(1), of i] assms(2) by auto

lemma lookup_avoids:
  assumes "table_ok t" "B \<inter> known t = {}" "lookup t i = Inr ns" "n \<in> set ns"
  shows "key n \<notin> B"
  using lookup_ok [OF assms(1), of i] assms(2-) by auto

end

subsection \<open>Contract of a system that comes to rest\<close>

text \<open>
  A step relation with an invariant and a potential that every step lowers: runs are bounded by the
  potential they start with, and from every state a state of rest is reached.
\<close>

locale bounded_system =
  fixes step :: "'s \<Rightarrow> 's \<Rightarrow> bool"
    and good :: "'s \<Rightarrow> bool"
    and energy :: "'s \<Rightarrow> nat"
  assumes good_step: "step s s' \<Longrightarrow> good s \<Longrightarrow> good s'"
    and less_step: "step s s' \<Longrightarrow> good s \<Longrightarrow> energy s' < energy s"
begin

lemma run_bound: "(step ^^ n) s s' \<Longrightarrow> good s \<Longrightarrow> good s' \<and> n + energy s' \<le> energy s"
proof (induction n arbitrary: s')
  case (Suc n)
  then obtain t where t: "(step ^^ n) s t" "step t s'" by auto
  with Suc good_step [OF t(2)] less_step [OF t(2)] show ?case by fastforce
qed auto

lemma comes_to_rest: "good s \<Longrightarrow> \<exists>s'. step\<^sup>*\<^sup>* s s' \<and> good s' \<and> (\<nexists>x. step s' x)"
proof (induction "energy s" arbitrary: s rule: less_induct)
  case less
  show ?case
  proof (cases "\<exists>x. step s x")
    case True
    then obtain x where x: "step s x" by blast
    with less.hyps [OF less_step [OF x less.prems] good_step [OF x less.prems]] show ?thesis
      by (meson converse_rtranclp_into_rtranclp)
  qed (use less.prems in blast)
qed

lemma no_endless_run: "good (f 0) \<Longrightarrow> \<not> (\<forall>i. step (f i) (f (Suc i)))"
proof
  assume f: "good (f 0)" "\<forall>i. step (f i) (f (Suc i))"
  have "(step ^^ n) (f 0) (f n)" for n using f(2) by (induction n) auto
  from run_bound [OF this f(1), of "Suc (energy (f 0))"] show False by simp
qed

end

end
