(* ===== verification/U160.thy ===== *)
theory U160
  imports Prelude
begin

text \<open>
  The 160-bit identifiers of \<open>src/u160.rs\<close> and the address types of \<open>std::net\<close> they are
  validated against.  \<open>U160\<close> keeps its value in a \<open>u128\<close> and a \<open>u32\<close>; the abstraction is
  the single 160-bit word \<open>u160_word\<close>, and every operator is shown to refine the
  corresponding word operation, on every shift amount for which it does.  The CRC of the
  crate \<open>crc32c\<close> and the random draws of the crate \<open>rand\<close> are parameters.
\<close>

named_theorems u160_defs \<open>definitions of the operations of U160\<close>

subsection \<open>Addresses of the standard library\<close>

datatype ip_addr = V4 u32 | V6 u128

datatype socket_addr =
    SockV4 u32 u16
  | SockV6 u128 u16 u32 u32

fun octets :: "ip_addr \<Rightarrow> bytes" where
  "octets (V4 ip) = to_be_bytes 4 ip"
| "octets (V6 ip) = to_be_bytes 16 ip"

fun sock_ip :: "socket_addr \<Rightarrow> ip_addr" where
  "sock_ip (SockV4 ip p) = V4 ip"
| "sock_ip (SockV6 ip p fl sc) = V6 ip"

fun sock_port :: "socket_addr \<Rightarrow> u16" where
  "sock_port (SockV4 ip p) = p"
| "sock_port (SockV6 ip p fl sc) = p"

text \<open>\<open>SocketAddr::new\<close>: flow information and scope of an IPv6 address are zero.\<close>

fun sock_new :: "ip_addr \<Rightarrow> u16 \<Rightarrow> socket_addr" where
  "sock_new (V4 ip) p = SockV4 ip p"
| "sock_new (V6 ip) p = SockV6 ip p 0 0"

fun plain_addr :: "socket_addr \<Rightarrow> bool" where
  "plain_addr (SockV4 ip p) = True"
| "plain_addr (SockV6 ip p fl sc) = (fl = 0 \<and> sc = 0)"

lemma sock_new_ip_port [simp]: "plain_addr a \<Longrightarrow> sock_new (sock_ip a) (sock_port a) = a"
  by (cases a) simp_all

lemma sock_ip_new [simp]: "sock_ip (sock_new ip p) = ip"
  by (cases ip) simp_all

lemma sock_port_new [simp]: "sock_port (sock_new ip p) = p"
  by (cases ip) simp_all

lemma plain_sock_new [simp]: "plain_addr (sock_new ip p)"
  by (cases ip) simp_all

definition to_u32 :: "u32 \<Rightarrow> u32" where
  "to_u32 ip = from_be_bytes (octets (V4 ip))"

definition ms_u64_ip :: "u128 \<Rightarrow> u64" where
  "ms_u64_ip ip = from_be_bytes (take 8 (octets (V6 ip)))"

subsection \<open>The identifier and its operations\<close>

record u160 =
  msbytes :: u128
  lsbytes :: u32

definition u160_new :: "u128 \<Rightarrow> u32 \<Rightarrow> u160" where
  [u160_defs]: "u160_new ms ls = \<lparr>msbytes = ms, lsbytes = ls\<rparr>"

definition u160_rand :: "u128 \<Rightarrow> u32 \<Rightarrow> u160" where
  "u160_rand rnd_ms rnd_ls = \<lparr>msbytes = rnd_ms, lsbytes = rnd_ls\<rparr>"

definition u160_min :: u160 where
  [u160_defs]: "u160_min = \<lparr>msbytes = 0, lsbytes = 0\<rparr>"

definition u160_max :: u160 where
  [u160_defs]: "u160_max = \<lparr>msbytes = - 1, lsbytes = - 1\<rparr>"

definition bitxor :: "u160 \<Rightarrow> u160 \<Rightarrow> u160" where
  [u160_defs]: "bitxor a b = u160_new (msbytes a XOR msbytes b) (lsbytes a XOR lsbytes b)"

definition bitand :: "u160 \<Rightarrow> u160 \<Rightarrow> u160" where
  [u160_defs]: "bitand a b = u160_new (msbytes a AND msbytes b) (lsbytes a AND lsbytes b)"

definition bitor :: "u160 \<Rightarrow> u160 \<Rightarrow> u160" where
  [u160_defs]: "bitor a b = u160_new (msbytes a OR msbytes b) (lsbytes a OR lsbytes b)"

definition u160_not :: "u160 \<Rightarrow> u160" where
  [u160_defs]: "u160_not a = u160_new (NOT (msbytes a)) (NOT (lsbytes a))"

definition distance :: "u160 \<Rightarrow> u160 \<Rightarrow> u160" where
  "distance a b = bitxor a b"

definition ms_u128 :: "u160 \<Rightarrow> u128" where
  "ms_u128 a = msbytes a"

definition ms_u64 :: "u160 \<Rightarrow> u64" where
  "ms_u64 a = ucast (drop_bit 64 (msbytes a))"

definition u160_from_be_bytes :: "bytes \<Rightarrow> u160" where
  "u160_from_be_bytes bs = u160_new (from_be_bytes (take 16 bs)) (from_be_bytes (drop 16 bs))"

definition u160_to_be_bytes :: "u160 \<Rightarrow> bytes" where
  "u160_to_be_bytes a = to_be_bytes 16 (msbytes a) @ to_be_bytes 4 (lsbytes a)"

definition get_bit :: "u160 \<Rightarrow> u8 \<Rightarrow> bool" where
  "get_bit a be_index =
     (if be_index \<ge> 160 then False
      else if be_index \<ge> 128
      then push_bit (31 - (unat be_index - 128)) (1 :: u32) AND lsbytes a \<noteq> 0
      else push_bit (127 - unat be_index) (1 :: u128) AND msbytes a \<noteq> 0)"

definition u160_shr :: "u160 \<Rightarrow> u8 \<Rightarrow> u160 res" where
  "u160_shr a rhs =
     (let r = unat rhs;
          msshift = min r 127;
          msremain = r - msshift
      in rbind (if msremain > 0 then Inr 0 else checked_shr (msbytes a) msshift) (\<lambda>ms.
         rbind (checked_shl (msbytes a) (127 - msshift)) (\<lambda>o1.
         rbind (checked_shr o1 msremain) (\<lambda>o2.
         rbind (checked_shr o2 (127 - 32)) (\<lambda>o3.
         let overflow = (ucast o3 :: u32);
             lsshift = min r 31;
             lsremain = r - lsshift
         in rbind (if lsremain > 0 then Inr 0 else checked_shr (lsbytes a) lsshift) (\<lambda>ls.
            Inr (u160_new ms (ls OR overflow))))))))"

definition u160_shl :: "u160 \<Rightarrow> u8 \<Rightarrow> u160 res" where
  "u160_shl a rhs =
     (let r = unat rhs;
          lsshift = min r 31;
          lsremain = r - lsshift
      in rbind (if lsremain > 0 then Inr 0 else checked_shl (lsbytes a) lsshift) (\<lambda>ls.
         rbind (if lsshift = 0 \<or> lsremain > 127 then Inr 0
                else rbind (checked_shr (lsbytes a) (32 - lsshift)) (\<lambda>v.
                     checked_shl (ucast v :: u128) lsremain)) (\<lambda>overflow.
         let msshift = min r 127;
             msremain = r - msshift
         in rbind (if msremain > 0 then Inr 0 else checked_shl (msbytes a) msshift) (\<lambda>ms.
            Inr (u160_new (ms OR overflow) ls)))))"

text \<open>The derived order compares the fields in their order.\<close>

definition u160_cmp :: "u160 \<Rightarrow> u160 \<Rightarrow> ordering" where
  "u160_cmp a b =
     (case cmp (msbytes a) (msbytes b) of Equal \<Rightarrow> cmp (lsbytes a) (lsbytes b) | ord \<Rightarrow> ord)"

text \<open>
  The same order on the extension type of the record, so that the identifiers are an instance of
  the library's linear orders.
\<close>

instantiation u160_ext :: (linorder) linorder
begin

definition less_eq_u160_ext :: "'a u160_ext \<Rightarrow> 'a u160_ext \<Rightarrow> bool" where
  "less_eq_u160_ext a b \<longleftrightarrow>
     msbytes a < msbytes b \<or> msbytes a = msbytes b \<and>
       (lsbytes a < lsbytes b \<or> lsbytes a = lsbytes b \<and> u160.more a \<le> u160.more b)"

definition less_u160_ext :: "'a u160_ext \<Rightarrow> 'a u160_ext \<Rightarrow> bool" where
  "less_u160_ext a b \<longleftrightarrow>
     msbytes a < msbytes b \<or> msbytes a = msbytes b \<and>
       (lsbytes a < lsbytes b \<or> lsbytes a = lsbytes b \<and> u160.more a < u160.more b)"

instance
  by standard (auto simp: less_eq_u160_ext_def less_u160_ext_def)

end

lemma u160_cmp_eq: "u160_cmp a b = cmp a b"
  by (rule cmp_unique) (auto simp: u160_cmp_def less_u160_ext_def split: ordering.split)

subsection \<open>Identifiers as 160-bit words\<close>

definition u160_word :: "u160 \<Rightarrow> 160 word" where
  "u160_word a = push_bit 32 (ucast (msbytes a)) OR ucast (lsbytes a)"

lemma bit_u160_word:
  "bit (u160_word a) n \<longleftrightarrow> (if n < 32 then bit (lsbytes a) n else bit (msbytes a) (n - 32))"
  by (auto simp: u160_word_def bit_simps dest: bit_imp_le_length)

lemma u160_word_inject [simp]: "u160_word a = u160_word b \<longleftrightarrow> a = b"
proof
  assume eq: "u160_word a = u160_word b"
  have "lsbytes a = lsbytes b"
  proof (rule bit_word_eqI)
    fix n assume "n < LENGTH(32)"
    with eq show "bit (lsbytes a) n \<longleftrightarrow> bit (lsbytes b) n"
      using bit_u160_word [of a n] bit_u160_word [of b n] by simp
  qed
  moreover have "msbytes a = msbytes b"
  proof (rule bit_word_eqI)
    fix n assume "n < LENGTH(128)"
    with eq show "bit (msbytes a) n \<longleftrightarrow> bit (msbytes b) n"
      using bit_u160_word [of a "n + 32"] bit_u160_word [of b "n + 32"] by simp
  qed
  ultimately show "a = b" by simp
qed simp

lemma u160_word_ops:
  "u160_word (bitxor a b) = u160_word a XOR u160_word b"
  "u160_word (bitand a b) = u160_word a AND u160_word b"
  "u160_word (bitor a b) = u160_word a OR u160_word b"
  "u160_word (u160_not a) = NOT (u160_word a)"
  "u160_word u160_min = 0"
  "u160_word u160_max = - 1"
  by (rule bit_word_eqI, auto simp: bit_u160_word u160_defs bit_simps)+

lemma uint_u160_word: "uint (u160_word a) = uint (msbytes a) * 2 ^ 32 + uint (lsbytes a)"
proof -
  have "uint (u160_word a) = uint (push_bit 32 (ucast (msbytes a) :: 160 word)) OR uint (ucast (lsbytes a) :: 160 word)"
    by (simp add: u160_word_def uint_or)
  also have "\<dots> = push_bit 32 (uint (msbytes a)) OR uint (lsbytes a)"
    by (rule bit_eqI) (auto simp: bit_simps bit_uint_iff dest: bit_imp_le_length)
  also have "\<dots> = push_bit 32 (uint (msbytes a)) + uint (lsbytes a)"
    by (rule disjunctive_add [symmetric]) (auto simp: bit_simps bit_uint_iff dest: bit_imp_le_length)
  finally show ?thesis by (simp add: push_bit_eq_mult)
qed

lemma lex_int_less:
  fixes l l' m m' :: int
  assumes "0 \<le> l" "l < 2 ^ 32" "0 \<le> l'" "l' < 2 ^ 32"
  shows "m * 2 ^ 32 + l < m' * 2 ^ 32 + l' \<longleftrightarrow> m < m' \<or> m = m' \<and> l < l'"
  using assms by auto

lemma u160_less_iff: "(a :: u160) < b \<longleftrightarrow> u160_word a < u160_word b"
  unfolding word_less_def less_u160_ext_def uint_u160_word
  using uint_lt2p [of "lsbytes a"] uint_lt2p [of "lsbytes b"]
  by (subst lex_int_less) (auto simp: word_uint_eq_iff)

lemma u160_le_iff: "(a :: u160) \<le> b \<longleftrightarrow> u160_word a \<le> u160_word b"
  by (metis u160_less_iff linorder_not_less)

lemma u160_cmp_word: "u160_cmp a b = cmp (u160_word a) (u160_word b)"
  by (rule cmp_unique) (simp_all add: u160_cmp_eq u160_less_iff)

lemma exp_and_nonzero: "push_bit k (1 :: 'a::len word) AND w \<noteq> 0 \<longleftrightarrow> bit w k"
proof -
  have "push_bit k (1 :: 'a word) AND w = w AND 2 ^ k"
    by (simp add: push_bit_eq_mult and.commute)
  then show ?thesis by (simp add: and_exp_eq_0_iff_not_bit)
qed

lemma get_bit_code [code]:
  "get_bit a i \<longleftrightarrow>
     (if unat i < 128 then bit (msbytes a) (127 - unat i) else unat i < 160 \<and> bit (lsbytes a) (31 - (unat i - 128)))"
  by (simp only: get_bit_def exp_and_nonzero word_le_nat_alt) auto

lemma get_bit_word: "get_bit a i \<longleftrightarrow> unat i < 160 \<and> bit (u160_word a) (159 - unat i)"
  by (simp only: get_bit_def exp_and_nonzero bit_u160_word word_le_nat_alt) auto

subsection \<open>Shifts\<close>

lemma shr_overflow_bit:
  fixes ms :: u128
  assumes "r < 255"
  shows "bit (ucast (drop_bit 95 (drop_bit (r - min r 127) (push_bit (127 - min r 127) ms))) :: u32) n
     \<longleftrightarrow> n < 32 \<and> 32 \<le> n + r \<and> bit ms (n + r - 32)"
proof (cases "r \<le> 127")
  case True
  then have "127 - min r 127 \<le> n + 95 \<longleftrightarrow> 32 \<le> n + r" "n + 95 - (127 - r) = n + r - 32" if "32 \<le> n + r"
    using that by auto
  with True show ?thesis by (auto simp: bit_simps ac_simps)
next
  case False
  then have "n + 95 + (r - 127) = n + r - 32" by simp
  with False show ?thesis
    by (auto simp: bit_simps ac_simps)
qed

lemma u160_word_eqI:
  assumes "\<And>n. n < 32 \<Longrightarrow> bit (lsbytes c) n \<longleftrightarrow> bit w n"
    and "\<And>n. n < 128 \<Longrightarrow> bit (msbytes c) n \<longleftrightarrow> bit w (n + 32)"
  shows "u160_word c = w"
proof (rule bit_word_eqI)
  fix n assume "n < LENGTH(160)"
  then have "32 \<le> n \<Longrightarrow> n - 32 < 128" by simp
  then show "bit (u160_word c) n \<longleftrightarrow> bit w n"
    using assms(1) [of n] assms(2) [of "n - 32"] by (simp add: bit_u160_word)
qed

lemma u160_shr_word:
  assumes "rhs \<noteq> 255"
  shows "\<exists>c. u160_shr a rhs = Inr c \<and> u160_word c = drop_bit (unat rhs) (u160_word a)"
proof -
  have r: "unat rhs < 255" using assms unsigned_less [of rhs, where ?'a = nat] 
    by (auto simp: word_unat_eq_iff)
  let ?r = "unat rhs"
  let ?o = "ucast (drop_bit 95 (drop_bit (?r - min ?r 127) (push_bit (127 - min ?r 127) (msbytes a)))) :: u32"
  let ?c = "u160_new (if 127 < ?r then 0 else drop_bit ?r (msbytes a))
     ((if 31 < ?r then 0 else drop_bit ?r (lsbytes a)) OR ?o)"
  have "u160_shr a rhs = Inr ?c"
    using r by (auto simp: u160_shr_def Let_def res_simps min_def)
  moreover have "u160_word ?c = drop_bit ?r (u160_word a)"
  proof (rule u160_word_eqI)
    fix n :: nat assume n: "n < 32"
    have "bit ?o n \<longleftrightarrow> 32 \<le> n + ?r \<and> bit (msbytes a) (n + ?r - 32)"
      using n by (simp only: shr_overflow_bit [OF r]) simp
    then show "bit (lsbytes ?c) n = bit (drop_bit ?r (u160_word a)) n"
      by (auto simp: u160_new_def bit_or_iff bit_drop_bit_eq bit_u160_word add.commute dest: bit_imp_le_length)
  next
    fix n :: nat assume n: "n < 128"
    show "bit (msbytes ?c) n = bit (drop_bit ?r (u160_word a)) (n + 32)"
      by (auto simp: u160_new_def bit_drop_bit_eq bit_u160_word add.commute add.left_commute dest: bit_imp_le_length)
  qed
  ultimately show ?thesis by blast
qed

lemma shl_overflow_bit:
  fixes ls :: u32
  assumes "n < 128"
  shows "bit (if r = 0 \<or> 158 < r then 0
         else push_bit (r - min r 31) (ucast (drop_bit (32 - min r 31) ls) :: u128)) n
     \<longleftrightarrow> r \<le> n + 32 \<and> n < r \<and> (r < 32 \<or> n + 32 \<noteq> r) \<and> bit ls (n + 32 - r)"
proof (cases "r < 32")
  case True
  then have "32 - r + n = n + 32 - r" by simp
  with True show ?thesis using assms
    by (auto simp: bit_simps dest: bit_imp_le_length)
next
  case False
  have e: "Suc (n - (r - 31)) = n + 32 - r" if "r - 31 \<le> n"
    using that False by simp
  with False show ?thesis using assms
    by (auto simp: bit_simps dest: bit_imp_le_length)
qed

lemma u160_shl_word:
  "\<exists>c. u160_shl a rhs = Inr c \<and>
     u160_word c = push_bit (unat rhs) (if rhs < 32 then u160_word a else u160_word a AND NOT 1)"
proof -
  let ?r = "unat rhs"
  let ?w = "if ?r < 32 then u160_word a else u160_word a AND NOT 1"
  let ?o = "if ?r = 0 \<or> 158 < ?r then 0
     else push_bit (?r - min ?r 31) (ucast (drop_bit (32 - min ?r 31) (lsbytes a)) :: u128)"
  let ?c = "u160_new ((if 127 < ?r then 0 else push_bit ?r (msbytes a)) OR ?o)
     (if 31 < ?r then 0 else push_bit ?r (lsbytes a))"
  have "u160_shl a rhs = Inr ?c"
    by (auto simp: u160_shl_def Let_def res_simps min_def)
  moreover have "u160_word ?c = push_bit ?r ?w"
  proof (rule u160_word_eqI)
    fix n :: nat assume n: "n < 32"
    then show "bit (lsbytes ?c) n = bit (push_bit ?r ?w) n"
      by (auto simp: u160_new_def bit_push_bit_iff bit_u160_word)
  next
    fix n :: nat assume n: "n < 128"
    have o: "bit ?o n \<longleftrightarrow> ?r \<le> n + 32 \<and> n < ?r \<and> (?r < 32 \<or> n + 32 \<noteq> ?r) \<and> bit (lsbytes a) (n + 32 - ?r)"
      by (rule shl_overflow_bit [OF n])
    have w: "bit (push_bit ?r ?w) (n + 32) \<longleftrightarrow> ?r \<le> n + 32 \<and> bit ?w (n + 32 - ?r)"
      using n by (auto simp: bit_push_bit_iff)
    have s: "n + 32 - ?r - 32 = n - ?r" by simp
    have "bit (msbytes ?c) n \<longleftrightarrow> ?r \<le> n \<and> bit (msbytes a) (n - ?r) \<or> bit ?o n"
      using n by (auto simp: u160_new_def bit_or_iff bit_push_bit_iff)
    then show "bit (msbytes ?c) n = bit (push_bit ?r ?w) (n + 32)"
      using n unfolding w o by (auto simp: bit_u160_word bit_and_iff bit_not_iff bit_1_iff s)
  qed
  ultimately show ?thesis by (simp add: word_less_nat_alt)
qed
subsection \<open>Byte strings and hexadecimal text\<close>

text \<open>
  The crate \<open>hex\<close> is a pair of parameters: \<open>hex_encode\<close>, and \<open>hex_decode_to_slice\<close>, which is
  given the length of the output slice and fails on malformed text or another length.
\<close>

definition to_hex :: "(bytes \<Rightarrow> string) \<Rightarrow> u160 \<Rightarrow> string" where
  "to_hex hex_encode a = hex_encode (u160_to_be_bytes a)"

definition from_hex :: "(string \<Rightarrow> nat \<Rightarrow> 'e + bytes) \<Rightarrow> string \<Rightarrow> u160 res" where
  "from_hex hex_decode_to_slice s =
     (case hex_decode_to_slice s 20 of
        Inl e \<Rightarrow> Inl UnwrapErr
      | Inr bs \<Rightarrow> Inr (u160_from_be_bytes bs))"

lemma length_u160_to_be_bytes [simp]: "length (u160_to_be_bytes a) = 20"
  by (simp add: u160_to_be_bytes_def)

lemma u160_from_to_be_bytes [simp]: "u160_from_be_bytes (u160_to_be_bytes a) = a"
  by (simp add: u160_to_be_bytes_def u160_from_be_bytes_def u160_new_def be_simps)

lemma u160_to_from_be_bytes: "length bs = 20 \<Longrightarrow> u160_to_be_bytes (u160_from_be_bytes bs) = bs"
  by (simp add: u160_to_be_bytes_def u160_from_be_bytes_def u160_new_def be_simps)

lemma u160_to_be_bytes_inj: "u160_to_be_bytes a = u160_to_be_bytes b \<longleftrightarrow> a = b"
  by (metis u160_from_to_be_bytes)

lemma u160_hex_roundtrip:
  assumes "\<And>bs. hex_decode (hex_encode bs) (length bs) = Inr bs"
  shows "from_hex hex_decode (to_hex hex_encode a) = Inr a"
  using assms [of "u160_to_be_bytes a"] by (simp add: from_hex_def to_hex_def)

subsection \<open>BEP 42: identifiers bound to an address\<close>

definition bep42_prefix :: "(bytes \<Rightarrow> u32) \<Rightarrow> ip_addr \<Rightarrow> u8 \<Rightarrow> u32" where
  "bep42_prefix crc32c addr r =
     (case addr of
        V4 ip \<Rightarrow> crc32c (to_be_bytes 4 ((to_u32 ip AND 0x030f3fff) OR push_bit 29 (ucast r :: u32)))
      | V6 ip \<Rightarrow> crc32c (to_be_bytes 8 ((ms_u64_ip ip AND 0x0103070f1f3f7fff) OR push_bit 61 (ucast r :: u64))))"

definition from_ip_with_r :: "(bytes \<Rightarrow> u32) \<Rightarrow> u128 \<Rightarrow> u32 \<Rightarrow> ip_addr \<Rightarrow> u8 \<Rightarrow> u160" where
  "from_ip_with_r crc32c rnd_ms rnd_ls addr r =
     (let pfx = bep42_prefix crc32c addr r;
          msbytes = (rnd_ms AND 0x000007ffffffffffffffffffffffffff)
                    OR push_bit 96 (ucast (pfx AND 0xfffff800));
          lsbytes = (rnd_ls AND 0xfffffff8) OR ucast (r AND 0x07)
      in u160_new msbytes lsbytes)"

definition from_ip :: "(bytes \<Rightarrow> u32) \<Rightarrow> u8 \<Rightarrow> u128 \<Rightarrow> u32 \<Rightarrow> ip_addr \<Rightarrow> u160" where
  "from_ip crc32c rnd_r rnd_ms rnd_ls addr =
     (let r = rnd_r AND 0x07 in from_ip_with_r crc32c rnd_ms rnd_ls addr r)"

definition u160_validate :: "(bytes \<Rightarrow> u32) \<Rightarrow> u128 \<Rightarrow> u32 \<Rightarrow> u160 \<Rightarrow> ip_addr \<Rightarrow> bool" where
  "u160_validate crc32c rnd_ms rnd_ls self addr =
     (let r = to_be_bytes 4 (lsbytes self) ! 3 AND 0x07;
          test = from_ip_with_r crc32c rnd_ms rnd_ls addr r;
          filter = u160_new 0xfffff800000000000000000000000000 0x00000007
      in bitand self filter = bitand test filter)"

lemma and_not_mask_eq_iff:
  "x AND NOT (mask k) = y AND NOT (mask k) \<longleftrightarrow> drop_bit k x = drop_bit k (y :: 'a::len word)"
proof
  assume eq: "x AND NOT (mask k) = y AND NOT (mask k)"
  show "drop_bit k x = drop_bit k y"
  proof (rule bit_word_eqI)
    fix n
    have "bit (x AND NOT (mask k)) (k + n) = bit (y AND NOT (mask k)) (k + n)" using eq by simp
    then show "bit (drop_bit k x) n = bit (drop_bit k y) n"
      by (auto simp: bit_simps dest: bit_imp_le_length)
  qed
next
  assume eq: "drop_bit k x = drop_bit k y"
  show "x AND NOT (mask k) = y AND NOT (mask k)"
  proof (rule bit_word_eqI)
    fix n
    have "bit (drop_bit k x) (n - k) = bit (drop_bit k y) (n - k)" using eq by simp
    then show "bit (x AND NOT (mask k)) n = bit (y AND NOT (mask k)) n"
      by (auto simp: bit_simps)
  qed
qed

lemma bep42_masks:
  "(0xfffff800 :: u32) = NOT (mask 11)"
  "(0x000007ffffffffffffffffffffffffff :: u128) = mask 107"
  "(0xfffff800000000000000000000000000 :: u128) = NOT (mask 107)"
  "(0xfffffff8 :: u32) = NOT (mask 3)"
  "(7 :: 'a::len word) = mask 3"
  by (simp_all add: mask_eq_exp_minus_1)

lemma from_ip_with_r_top:
  "drop_bit 107 (msbytes (from_ip_with_r crc32c rnd_ms rnd_ls addr r)) =
     ucast (drop_bit 11 (bep42_prefix crc32c addr r))"
  unfolding from_ip_with_r_def Let_def bep42_masks u160_new_def
  by (rule bit_word_eqI) (auto simp: bit_simps dest: bit_imp_le_length)

lemma from_ip_with_r_low:
  "lsbytes (from_ip_with_r crc32c rnd_ms rnd_ls addr r) AND 7 = ucast (r AND 7)"
  unfolding from_ip_with_r_def Let_def bep42_masks u160_new_def
  by (rule bit_word_eqI) (auto simp: bit_simps)

lemma low_byte: "to_be_bytes 4 (w :: u32) ! 3 = ucast w"
  by (simp add: nth_to_be_bytes)

lemma ucast_and_7: "(ucast ((ucast (w :: u32) :: u8) AND 7) :: u32) = w AND 7"
  unfolding bep42_masks by (rule bit_word_eqI) (auto simp: bit_simps)

lemma u160_validate_iff:
  "u160_validate crc32c rnd_ms rnd_ls a addr \<longleftrightarrow>
     drop_bit 107 (msbytes a) = ucast (drop_bit 11 (bep42_prefix crc32c addr (ucast (lsbytes a) AND 7)))"
  by (simp add: u160_validate_def Let_def low_byte bitand_def u160_new_def from_ip_with_r_low
      ucast_and_7 bep42_masks(3) and_not_mask_eq_iff from_ip_with_r_top)

lemma bep42_prefix_and_7: "bep42_prefix crc32c addr (r AND 7) = bep42_prefix crc32c addr r"
proof -
  have "push_bit 29 (ucast (r AND 7) :: u32) = push_bit 29 (ucast r)"
    unfolding bep42_masks by (rule bit_word_eqI) (auto simp: bit_simps)
  moreover have "push_bit 61 (ucast (r AND 7) :: u64) = push_bit 61 (ucast r)"
    unfolding bep42_masks by (rule bit_word_eqI) (auto simp: bit_simps)
  ultimately show ?thesis by (cases addr) (simp_all add: bep42_prefix_def)
qed

lemma from_ip_with_r_validates:
  "u160_validate crc32c rnd_ms' rnd_ls' (from_ip_with_r crc32c rnd_ms rnd_ls addr r) addr"
proof -
  let ?x = "from_ip_with_r crc32c rnd_ms rnd_ls addr r"
  have "(ucast (lsbytes ?x) :: u8) AND 7 = ucast (lsbytes ?x AND 7)"
    unfolding bep42_masks by (rule bit_word_eqI) (auto simp: bit_simps)
  also have "\<dots> = r AND 7"
    unfolding from_ip_with_r_low unfolding bep42_masks by (rule bit_word_eqI) (auto simp: bit_simps)
  finally show ?thesis
    by (simp add: u160_validate_iff from_ip_with_r_top bep42_prefix_and_7)
qed
subsection \<open>The exclusive-or metric\<close>

lemma u160_word_distance: "u160_word (distance a b) = u160_word a XOR u160_word b"
  by (simp add: distance_def u160_word_ops)

lemma xor_le_add:
  fixes x y :: int
  assumes "0 \<le> x" and "0 \<le> y"
  shows "x XOR y \<le> x + y"
proof -
  have "x OR y = (x XOR y) OR (x AND y)"
    by (rule bit_eqI) (auto simp: bit_simps)
  also have "\<dots> = (x XOR y) + (x AND y)"
    by (rule disjunctive_add [symmetric]) (auto simp: bit_simps)
  finally have "x XOR y \<le> x OR y" using assms by simp
  also have "x OR y \<le> x + y"
    using plus_and_or [of x y] assms by (metis AND_lower add_increasing order_refl)
  finally show ?thesis .
qed

lemma word_bits_less:
  fixes a b :: "'a::len word"
  assumes "n < LENGTH('a)" and "\<And>m. n < m \<Longrightarrow> m < LENGTH('a) \<Longrightarrow> bit a m = bit b m"
    and "\<not> bit a n" and "bit b n"
  shows "a < b"
proof -
  have "drop_bit (Suc n) a = drop_bit (Suc n) b"
  proof (rule bit_word_eqI)
    fix k
    show "bit (drop_bit (Suc n) a) k = bit (drop_bit (Suc n) b) k"
      using assms(2) [of "Suc n + k"] by (auto simp: bit_drop_bit_eq dest: bit_imp_le_length)
  qed
  then have "uint (drop_bit (Suc n) a) = uint (drop_bit (Suc n) b)" by simp
  then have d: "uint a div 2 ^ Suc n = uint b div 2 ^ Suc n"
    by (simp only: unsigned_drop_bit_eq take_bit_int_eq_self unsigned_greater_eq unsigned_less
        flip: drop_bit_eq_div)
  have "take_bit (Suc n) (uint a) < 2 ^ n"
    using assms(3) take_bit_Suc_from_most [of n "uint a"] by (simp add: bit_uint_iff)
  moreover have "2 ^ n \<le> take_bit (Suc n) (uint b)"
    using assms(1,4) take_bit_Suc_from_most [of n "uint b"] by (simp add: bit_uint_iff)
  ultimately have "uint a mod 2 ^ Suc n < uint b mod 2 ^ Suc n"
    by (simp only: take_bit_eq_mod)
  then have "uint a < uint b"
    using d by (metis add_less_cancel_left div_mult_mod_eq)
  then show ?thesis by (simp add: word_less_def)
qed

lemma u160_bit_at: "m < 160 \<Longrightarrow> bit (u160_word a) m = get_bit a (of_nat (159 - m))"
proof -
  assume "m < 160"
  moreover from this have "unat (of_nat (159 - m) :: u8) = 159 - m"
    by (simp only: unat_of_nat) simp
  ultimately show ?thesis by (simp only: get_bit_word) auto
qed

lemma u160_bits_eq: "(\<And>i. get_bit a i = get_bit b i) \<Longrightarrow> a = b"
  using bit_word_eqI [of "u160_word a" "u160_word b"] by (simp add: u160_bit_at)

lemma u160_bits_less:
  assumes "\<And>j. j < i \<Longrightarrow> get_bit a j = get_bit b j" and "\<not> get_bit a i" and "get_bit b i"
  shows "a < b"
proof -
  from assms(3) have i: "unat i < 160" and b: "bit (u160_word b) (159 - unat i)"
    by (simp_all add: get_bit_word)
  from assms(2) i have a: "\<not> bit (u160_word a) (159 - unat i)" by (simp add: get_bit_word)
  have "bit (u160_word a) m = bit (u160_word b) m" if "159 - unat i < m" "m < 160" for m
  proof -
    have "unat (of_nat (159 - m) :: u8) = 159 - m" by (simp only: unat_of_nat) simp
    then have "of_nat (159 - m) < i" using that i by (simp only: word_less_nat_alt)
    then show ?thesis using assms(1) that by (simp add: u160_bit_at)
  qed
  then have "u160_word a < u160_word b"
    using a b by (intro word_bits_less [of "159 - unat i"]) simp_all
  then show ?thesis by (simp add: u160_less_iff)
qed

interpretation u160: id_space distance get_bit
proof unfold_locales
  fix a b c :: u160 and i :: u8
  show "distance a b = distance b a"
    by (simp add: u160_word_distance xor.commute flip: u160_word_inject)
  show "get_bit (distance a c) i \<longleftrightarrow> get_bit (distance a b) i \<noteq> get_bit (distance b c) i"
    by (auto simp: get_bit_word u160_word_distance bit_simps)
  show "b = c" if "distance a b = distance a c"
  proof -
    from that have "u160_word a XOR (u160_word a XOR u160_word b) = u160_word a XOR (u160_word a XOR u160_word c)"
      by (simp flip: u160_word_distance)
    then show ?thesis by (simp flip: xor.assoc)
  qed
qed (blast intro: u160_bits_less u160_bits_eq)+

subsection \<open>Properties\<close>

text \<open>\<open>U160::distance\<close> is Kademlia's metric: it is zero exactly on equal identifiers,
  symmetric, satisfies the triangle inequality as a number, and every distance from an
  identifier is taken by exactly one other identifier.\<close>

theorem distance_metric:
  "(distance a b = u160_min \<longleftrightarrow> a = b) \<and> distance a b = distance b a \<and>
   uint (u160_word (distance a c)) \<le> uint (u160_word (distance a b)) + uint (u160_word (distance b c)) \<and>
   (\<exists>!x. distance a x = d)"
proof (intro conjI)
  have "u160_min = distance b b" by (simp add: u160_word_distance u160_word_ops flip: u160_word_inject)
  then show "distance a b = u160_min \<longleftrightarrow> a = b" by (metis u160.dist_self_iff)
  show "distance a b = distance b a" by (rule u160.dist_comm)
  have "u160_word (distance a c) = u160_word (distance a b) XOR u160_word (distance b c)"
    by (simp add: u160_word_distance xor.assoc)
  then show "uint (u160_word (distance a c)) \<le> uint (u160_word (distance a b)) + uint (u160_word (distance b c))"
    using xor_le_add [of "uint (u160_word (distance a b))" "uint (u160_word (distance b c))"]
    by (simp add: uint_xor)
  have "distance a (distance a d) = d"
    by (simp add: u160_word_distance flip: u160_word_inject xor.assoc)
  then show "\<exists>!x. distance a x = d" by (metis u160.dist_cancel)
qed

text \<open>C29: the bitwise operators, the derived order and \<open>get_bit\<close> of \<open>U160\<close> are those of one
  160-bit unsigned integer; \<open>get_bit\<close> counts from the most significant bit and is false past
  the last one.\<close>

theorem u160_refines_word:
  "u160_word (bitxor a b) = u160_word a XOR u160_word b \<and>
   u160_word (bitand a b) = u160_word a AND u160_word b \<and>
   u160_word (bitor a b) = u160_word a OR u160_word b \<and>
   u160_word (u160_not a) = NOT (u160_word a) \<and>
   u160_cmp a b = cmp (u160_word a) (u160_word b) \<and>
   (a < b \<longleftrightarrow> u160_word a < u160_word b) \<and>
   (get_bit a i \<longleftrightarrow> unat i < 160 \<and> bit (u160_word a) (159 - unat i))"
  by (simp add: u160_word_ops u160_cmp_word u160_less_iff get_bit_word)

text \<open>C30: The right shift of \<open>U160\<close> is the 160-bit logical shift for every amount but 255, where an inner
  shift by 128 overflows and the debug build panics.  The left shift never panics; it is the 160-bit shift
  for amounts below 32, and for larger amounts the shift of the identifier with its least significant bit
  cleared: the code splits a shift by 32 or more into a shift of the low word by 31, which drops that bit.\<close>

theorem u160_shifts_correct:
  "(if rhs = 255 then u160_shr a rhs = Inl ShiftOverflow
    else \<exists>c. u160_shr a rhs = Inr c \<and> u160_word c = drop_bit (unat rhs) (u160_word a)) \<and>
   (\<exists>c. u160_shl a rhs = Inr c \<and>
      u160_word c = push_bit (unat rhs) (if rhs < 32 then u160_word a else u160_word a AND NOT 1))"
proof
  show "if rhs = 255 then u160_shr a rhs = Inl ShiftOverflow
    else \<exists>c. u160_shr a rhs = Inr c \<and> u160_word c = drop_bit (unat rhs) (u160_word a)"
    using u160_shr_word [of rhs a] by (simp add: u160_shr_def Let_def res_simps checked_shr_def)
qed (rule u160_shl_word)

text \<open>The smallest instance of the lost bit: \<open>1 << 32\<close> is zero.\<close>

lemma u160_shl_loses_bit: "u160_shl (u160_new 0 1) 32 = Inr u160_min"
  by (simp add: u160_shl_def Let_def res_simps u160_defs)

text \<open>The byte form of an identifier is lossless in both directions.\<close>

theorem u160_bytes_roundtrip:
  "u160_from_be_bytes (u160_to_be_bytes a) = a \<and> length (u160_to_be_bytes a) = 20 \<and>
   (length bs = 20 \<longrightarrow> u160_to_be_bytes (u160_from_be_bytes bs) = bs)"
  by (simp add: u160_to_from_be_bytes)

theorem u160_bytes_roundtrip_witness:
  "u160_to_be_bytes (u160_from_be_bytes (replicate 20 7)) = replicate 20 7"
  using u160_bytes_roundtrip [of u160_min "replicate 20 7"] by simp

text \<open>C31: an identifier made for an address by BEP 42 validates against that address, for every
  checksum function and whatever the random draws of either call.\<close>

theorem from_ip_validates:
  "u160_validate crc32c rnd_ms' rnd_ls' (from_ip crc32c rnd_r rnd_ms rnd_ls addr) addr"
  by (simp add: from_ip_def from_ip_with_r_validates)

text \<open>Validation does not depend on its random draws: it accepts exactly the identifiers
  whose top 21 bits are those of the checksum of the masked address and the identifier's
  low three bits.\<close>

theorem u160_validate_correct:
  "u160_validate crc32c rnd_ms rnd_ls a addr \<longleftrightarrow>
     drop_bit 107 (msbytes a) = ucast (drop_bit 11 (bep42_prefix crc32c addr (ucast (lsbytes a) AND 7)))"
  by (rule u160_validate_iff)

end
