(* ===== verification/NodeInfo.thy ===== *)
theory NodeInfo
  imports U160
begin

text \<open>
  \<open>src/node_info.rs\<close>: a node is an identifier and a socket address.  The theory holds its two
  binary forms (the 26-byte compact form, which exists for IPv4 only and panics otherwise,
  and the serde form of 26 or 38 bytes) and its order, which makes nodes a linear order of
  the library.
\<close>

subsection \<open>Data and operations\<close>

record node_info =
  node_id :: u160
  node_addr :: socket_addr

datatype de_error =
    InvalidLength nat
  | InvalidValue int
  | InvalidType
  | MissingField string
  | SyntaxError

definition IPV4_DHT_NODE_BYTES_LEN :: nat where
  "IPV4_DHT_NODE_BYTES_LEN = 26"

definition node_from_addr :: "(bytes \<Rightarrow> u32) \<Rightarrow> u8 \<Rightarrow> u128 \<Rightarrow> u32 \<Rightarrow> socket_addr \<Rightarrow> node_info" where
  "node_from_addr crc32c rnd_r rnd_ms rnd_ls addr =
     \<lparr>node_id = from_ip crc32c rnd_r rnd_ms rnd_ls (sock_ip addr), node_addr = addr\<rparr>"

definition node_validate :: "(bytes \<Rightarrow> u32) \<Rightarrow> u128 \<Rightarrow> u32 \<Rightarrow> node_info \<Rightarrow> bool" where
  "node_validate crc32c rnd_ms rnd_ls n =
     u160_validate crc32c rnd_ms rnd_ls (node_id n) (sock_ip (node_addr n))"

definition node_distance :: "node_info \<Rightarrow> node_info \<Rightarrow> u160" where
  "node_distance a b = distance (node_id a) (node_id b)"

definition ip4_to_bytes :: "node_info \<Rightarrow> bytes res" where
  "ip4_to_bytes n =
     (case sock_ip (node_addr n) of
        V4 ip \<Rightarrow> Inr (u160_to_be_bytes (node_id n) @ octets (V4 ip) @ to_be_bytes 2 (sock_port (node_addr n)))
      | V6 ip \<Rightarrow> Inl ExplicitPanic)"

definition ip4_from_bytes :: "bytes \<Rightarrow> node_info" where
  "ip4_from_bytes bs =
     \<lparr>node_id = u160_from_be_bytes (take 20 bs),
      node_addr = sock_new (V4 (from_be_bytes [bs ! 20, bs ! 21, bs ! 22, bs ! 23]))
                    (from_be_bytes (drop 24 bs))\<rparr>"

text \<open>The bytes that \<open>Serialize\<close> hands to \<open>serialize_bytes\<close>, and the visitor of \<open>Deserialize\<close>.\<close>

definition node_serialize :: "node_info \<Rightarrow> bytes" where
  "node_serialize n =
     u160_to_be_bytes (node_id n) @ octets (sock_ip (node_addr n)) @ to_be_bytes 2 (sock_port (node_addr n))"

definition node_visit_bytes :: "bytes \<Rightarrow> de_error + node_info" where
  "node_visit_bytes v =
     rbind (if length v = 26 then Inr (V4 (from_be_bytes [v ! 20, v ! 21, v ! 22, v ! 23]))
            else if length v = 38 then Inr (V6 (from_be_bytes (take 16 (drop 20 v))))
            else Inl (InvalidLength (length v))) (\<lambda>ip.
     Inr \<lparr>node_id = u160_from_be_bytes (take 20 v),
          node_addr = sock_new ip (from_be_bytes (drop (length v - 2) v))\<rparr>)"

subsection \<open>Order\<close>

text \<open>\<open>SocketAddr\<close> orders V4 before V6 and then field by field; \<open>NodeInfo\<close> compares the
  identifier first and the address on a tie.\<close>

instantiation socket_addr :: linorder
begin

fun less_eq_socket_addr :: "socket_addr \<Rightarrow> socket_addr \<Rightarrow> bool" where
  "less_eq_socket_addr (SockV4 a p) (SockV4 b q) = (a < b \<or> a = b \<and> p \<le> q)"
| "less_eq_socket_addr (SockV4 a p) (SockV6 b q g s) = True"
| "less_eq_socket_addr (SockV6 a p f r) (SockV4 b q) = False"
| "less_eq_socket_addr (SockV6 a p f r) (SockV6 b q g s) =
     (a < b \<or> a = b \<and> (p < q \<or> p = q \<and> (f < g \<or> f = g \<and> r \<le> s)))"

definition less_socket_addr :: "socket_addr \<Rightarrow> socket_addr \<Rightarrow> bool" where
  "less_socket_addr a b \<longleftrightarrow> a \<le> b \<and> \<not> b \<le> a"

instance
proof
  fix x y z :: socket_addr
  show "x < y \<longleftrightarrow> x \<le> y \<and> \<not> y \<le> x" by (rule less_socket_addr_def)
  show "x \<le> x" by (cases x) simp_all
  show "x \<le> z" if "x \<le> y" "y \<le> z"
    using that by (cases x; cases y; cases z) auto
  show "x = y" if "x \<le> y" "y \<le> x"
    using that by (cases x; cases y) auto
  show "x \<le> y \<or> y \<le> x"
    by (cases x; cases y) auto
qed

end

definition node_info_cmp :: "node_info \<Rightarrow> node_info \<Rightarrow> ordering" where
  "node_info_cmp a b =
     (case u160_cmp (node_id a) (node_id b) of Equal \<Rightarrow> cmp (node_addr a) (node_addr b) | ord \<Rightarrow> ord)"

definition node_info_partial_cmp :: "node_info \<Rightarrow> node_info \<Rightarrow> ordering option" where
  "node_info_partial_cmp a b =
     (case Some (u160_cmp (node_id a) (node_id b)) of
        Some Equal \<Rightarrow> Some (cmp (node_addr a) (node_addr b)) | ord \<Rightarrow> ord)"

instantiation node_info_ext :: (linorder) linorder
begin

definition less_eq_node_info_ext :: "'a node_info_ext \<Rightarrow> 'a node_info_ext \<Rightarrow> bool" where
  "less_eq_node_info_ext a b \<longleftrightarrow>
     node_id a < node_id b \<or> node_id a = node_id b \<and>
       (node_addr a < node_addr b \<or>
        node_addr a = node_addr b \<and> node_info.more a \<le> node_info.more b)"

definition less_node_info_ext :: "'a node_info_ext \<Rightarrow> 'a node_info_ext \<Rightarrow> bool" where
  "less_node_info_ext a b \<longleftrightarrow>
     node_id a < node_id b \<or> node_id a = node_id b \<and>
       (node_addr a < node_addr b \<or>
        node_addr a = node_addr b \<and> node_info.more a < node_info.more b)"

instance
  by standard (auto simp: less_eq_node_info_ext_def less_node_info_ext_def)

end

lemma node_info_cmp_eq:
  "node_info_cmp a b = cmp a b" "node_info_partial_cmp a b = Some (cmp a b)"
proof -
  show "node_info_cmp a b = cmp a b"
    by (rule cmp_unique) (auto simp: node_info_cmp_def u160_cmp_eq less_node_info_ext_def split: ordering.split)
  then show "node_info_partial_cmp a b = Some (cmp a b)"
    by (auto simp: node_info_cmp_def node_info_partial_cmp_def split: ordering.split_asm)
qed

subsection \<open>Round trips\<close>

definition is_ip4 :: "node_info \<Rightarrow> bool" where
  "is_ip4 n = (case sock_ip (node_addr n) of V4 ip \<Rightarrow> True | V6 ip \<Rightarrow> False)"

lemma is_ip4_iff: "is_ip4 n \<longleftrightarrow> (\<exists>ip p. node_addr n = SockV4 ip p)"
  by (cases "node_addr n") (simp_all add: is_ip4_def)

lemma four_at:
  "length xs = k + 4 + m \<Longrightarrow> [xs ! k, xs ! (k + 1), xs ! (k + 2), xs ! (k + 3)] = take 4 (drop k xs)"
  by (rule nth_equalityI) (auto simp: nth_Cons' numeral_2_eq_2 numeral_3_eq_3 less_Suc_eq)

lemma three_parts: "take a xs @ take b (drop a xs) @ drop (a + b) xs = xs"
  by (metis append_take_drop_id drop_drop add.commute)

lemma four_at_20: "length v = 26 \<Longrightarrow> [v ! 20, v ! 21, v ! 22, v ! 23] = take 4 (drop 20 v)"
  using four_at [of v 20 2] by simp

lemma four_at_0: "length v = 6 \<Longrightarrow> [v ! 0, v ! 1, v ! 2, v ! 3] = take 4 v"
  using four_at [of v 0 2] by (simp add: numeral_2_eq_2)

lemma ip4_codec:
  assumes "is_ip4 n"
  shows "\<exists>bs. ip4_to_bytes n = Inr bs \<and> length bs = 26 \<and> ip4_from_bytes bs = n"
proof -
  from assms obtain ip p where n: "node_addr n = SockV4 ip p" by (auto simp: is_ip4_iff)
  let ?bs = "u160_to_be_bytes (node_id n) @ to_be_bytes 4 ip @ to_be_bytes 2 p"
  have len: "length ?bs = 26" by simp
  have "ip4_from_bytes ?bs = n"
    unfolding ip4_from_bytes_def four_at_20 [OF len] using n by (simp add: be_simps)
  with len n show ?thesis by (simp add: ip4_to_bytes_def)
qed

lemma ip4_to_from_bytes:
  assumes "length bs = 26"
  shows "ip4_to_bytes (ip4_from_bytes bs) = Inr bs"
proof -
  have "take 20 bs @ take 4 (drop 20 bs) @ drop 24 bs = bs"
    using three_parts [of 20 bs 4] by simp
  then show ?thesis
    unfolding ip4_from_bytes_def ip4_to_bytes_def four_at_20 [OF assms]
    using assms by (simp add: be_simps u160_to_from_be_bytes)
qed

interpretation ip4: fixed_codec ip4_to_bytes ip4_from_bytes IPV4_DHT_NODE_BYTES_LEN is_ip4
proof unfold_locales
  fix n
  show "\<exists>bs. ip4_to_bytes n = Inr bs \<and> length bs = IPV4_DHT_NODE_BYTES_LEN \<and> ip4_from_bytes bs = n"
    if "is_ip4 n" using ip4_codec [OF that] by (simp add: IPV4_DHT_NODE_BYTES_LEN_def)
  show "isl (ip4_to_bytes n)" if "\<not> is_ip4 n"
    using that by (simp add: is_ip4_def ip4_to_bytes_def split: ip_addr.splits)
qed (simp add: IPV4_DHT_NODE_BYTES_LEN_def)

lemma node_visit_serialize:
  assumes "plain_addr (node_addr n)"
  shows "node_visit_bytes (node_serialize n) = Inr n"
proof (cases "node_addr n")
  case (SockV4 ip p)
  then have len: "length (node_serialize n) = 26" by (simp add: node_serialize_def)
  show ?thesis
    unfolding node_visit_bytes_def four_at_20 [OF len]
    using SockV4 by (simp add: node_serialize_def be_simps)
next
  case (SockV6 ip p fl sc)
  with assms show ?thesis
    by (simp add: node_visit_bytes_def node_serialize_def be_simps)
qed

lemma node_visit_bytes_error:
  "length v \<noteq> 26 \<Longrightarrow> length v \<noteq> 38 \<Longrightarrow> node_visit_bytes v = Inl (InvalidLength (length v))"
  by (simp add: node_visit_bytes_def)

lemma node_serialize_visit:
  assumes "node_visit_bytes v = Inr n"
  shows "node_serialize n = v \<and> plain_addr (node_addr n)"
proof -
  from assms consider "length v = 26" | "length v = 38"
    by (auto simp: node_visit_bytes_def split: if_splits)
  then show ?thesis
  proof cases
    case 1
    have "take 20 v @ take 4 (drop 20 v) @ drop 24 v = v"
      using three_parts [of 20 v 4] by simp
    with 1 show ?thesis
      using assms unfolding node_visit_bytes_def four_at_20 [OF 1]
      by (auto simp: node_serialize_def be_simps u160_to_from_be_bytes)
  next
    case 2
    have "take 20 v @ take 16 (drop 20 v) @ drop 36 v = v"
      using three_parts [of 20 v 16] by simp
    with 2 show ?thesis
      using assms by (auto simp: node_visit_bytes_def node_serialize_def be_simps u160_to_from_be_bytes)
  qed
qed

subsection \<open>Properties\<close>

text \<open>Reading back the serialized form of a node gives the node (an IPv6 flow label or scope
  is the only thing lost, so exactly the plain addresses survive); reading fails exactly on
  lengths other than 26 and 38, and whatever is read serializes to the bytes it came from.\<close>

theorem node_serde_roundtrip:
  "(node_visit_bytes (node_serialize n) = Inr n \<longleftrightarrow> plain_addr (node_addr n)) \<and>
   (isl (node_visit_bytes v) \<longleftrightarrow> length v \<noteq> 26 \<and> length v \<noteq> 38) \<and>
   (\<forall>m. node_visit_bytes v = Inr m \<longrightarrow> node_serialize m = v)"
proof (intro conjI)
  show "node_visit_bytes (node_serialize n) = Inr n \<longleftrightarrow> plain_addr (node_addr n)"
    using node_visit_serialize [of n] node_serialize_visit [of "node_serialize n" n] by blast
  show "isl (node_visit_bytes v) \<longleftrightarrow> length v \<noteq> 26 \<and> length v \<noteq> 38"
    by (simp add: node_visit_bytes_def)
  show "\<forall>m. node_visit_bytes v = Inr m \<longrightarrow> node_serialize m = v"
    using node_serialize_visit [of v] by blast
qed

theorem node_serde_roundtrip_witness:
  "node_visit_bytes (replicate 26 0) = Inr \<lparr>node_id = u160_min, node_addr = SockV4 0 0\<rparr> \<and>
   node_serialize \<lparr>node_id = u160_min, node_addr = SockV4 0 0\<rparr> = replicate 26 0"
proof -
  have "node_visit_bytes (replicate 26 0) = Inr \<lparr>node_id = u160_min, node_addr = SockV4 0 0\<rparr>"
    by code_simp
  with node_serde_roundtrip [of _ "replicate 26 0"] show ?thesis by blast
qed

end
