(* ===== verification/Wire.thy ===== *)
theory Wire
  imports NodeInfo
begin

text \<open>
  The hand-written serde implementations of \<open>kmsg/wrappers.rs\<close>, \<open>kmsg/serde_extra.rs\<close> and
  \<open>kmsg/error.rs\<close>.  A \<open>Serialize\<close> is the value it hands to the serializer (a byte string, an
  integer or a sequence), a \<open>Deserialize\<close> is its visitor.  \<open>bval\<close> is the tree of values that
  the format (bencode) can carry; how the crate \<open>bt_bencode\<close> writes such a tree as bytes is
  not part of these files.  A Rust \<open>String\<close> is the \<open>string\<close> of its UTF-8 bytes.
\<close>

subsection \<open>Values of the format\<close>

datatype bval =
    BInt int
  | BStr bytes
  | BList "bval list"
  | BDict "(string \<times> bval) list"

definition str_bytes :: "string \<Rightarrow> bytes" where
  "str_bytes s = map (\<lambda>c. of_nat (of_char c)) s"

definition bytes_str :: "bytes \<Rightarrow> string" where
  "bytes_str bs = map (\<lambda>b. char_of (unat b)) bs"

lemma bytes_str_bytes [simp]: "bytes_str (str_bytes s) = s"
proof -
  have "char_of (unat (of_nat (of_char c) :: u8)) = c" for c
    by (simp add: unat_of_nat)
  then show ?thesis by (simp add: bytes_str_def str_bytes_def map_idI)
qed

lemma str_bytes_str [simp]: "str_bytes (bytes_str bs) = bs"
proof -
  have "of_nat (of_char (char_of (unat b))) = b" for b :: u8
    using unsigned_less [of b, where ?'a = nat] by simp
  then show ?thesis by (simp add: bytes_str_def str_bytes_def map_idI)
qed

text \<open>\<open>std::str::from_utf8\<close>: which byte strings are a \<open>String\<close>.\<close>

definition utf8_cont :: "u8 \<Rightarrow> bool" where
  "utf8_cont b \<longleftrightarrow> 0x80 \<le> b \<and> b \<le> 0xBF"

fun utf8_valid :: "bytes \<Rightarrow> bool" where
  "utf8_valid [] = True"
| "utf8_valid (b # bs) =
     (if b < 0x80 then utf8_valid bs
      else if 0xC2 \<le> b \<and> b \<le> 0xDF
      then (case bs of c1 # r \<Rightarrow> utf8_cont c1 \<and> utf8_valid r | _ \<Rightarrow> False)
      else if 0xE0 \<le> b \<and> b \<le> 0xEF
      then (case bs of c1 # c2 # r \<Rightarrow>
              utf8_cont c1 \<and> utf8_cont c2 \<and> (b = 0xE0 \<longrightarrow> 0xA0 \<le> c1) \<and>
              (b = 0xED \<longrightarrow> c1 \<le> 0x9F) \<and> utf8_valid r | _ \<Rightarrow> False)
      else if 0xF0 \<le> b \<and> b \<le> 0xF4
      then (case bs of c1 # c2 # c3 # r \<Rightarrow>
              utf8_cont c1 \<and> utf8_cont c2 \<and> utf8_cont c3 \<and> (b = 0xF0 \<longrightarrow> 0x90 \<le> c1) \<and>
              (b = 0xF4 \<longrightarrow> c1 \<le> 0x8F) \<and> utf8_valid r | _ \<Rightarrow> False)
      else False)"

definition is_utf8 :: "string \<Rightarrow> bool" where
  "is_utf8 s = utf8_valid (str_bytes s)"

text \<open>Serde's own deserializers for unsigned integers, byte strings and strings.\<close>

definition de_uint :: "bval \<Rightarrow> de_error + 'a::len word" where
  "de_uint v =
     (case v of
        BInt i \<Rightarrow> if 0 \<le> i \<and> i < 2 ^ LENGTH('a) then Inr (word_of_int i) else Inl (InvalidValue i)
      | _ \<Rightarrow> Inl InvalidType)"

definition de_bytes :: "bval \<Rightarrow> de_error + bytes" where
  "de_bytes v = (case v of BStr bs \<Rightarrow> Inr bs | _ \<Rightarrow> Inl InvalidType)"

definition de_string :: "bval \<Rightarrow> de_error + string" where
  "de_string v =
     (case v of
        BStr bs \<Rightarrow> if utf8_valid bs then Inr (bytes_str bs) else Inl SyntaxError
      | _ \<Rightarrow> Inl InvalidType)"

lemma de_uint_ser [simp]: "de_uint (BInt (uint (w :: 'a::len word))) = Inr w"
  by (simp add: de_uint_def)

lemma de_string_ser [simp]: "is_utf8 s \<Longrightarrow> de_string (BStr (str_bytes s)) = Inr s"
  by (simp add: de_string_def is_utf8_def)

subsection \<open>Identifiers, booleans and errors\<close>

definition u160_serialize :: "u160 \<Rightarrow> bytes" where
  "u160_serialize a = u160_to_be_bytes a"

definition u160_visit_bytes :: "bytes \<Rightarrow> de_error + u160" where
  "u160_visit_bytes v =
     (if length v > 20 then Inl (InvalidLength (length v))
      else if length v < 20 then Inr (u160_from_be_bytes (replicate (20 - length v) 0 @ v))
      else Inr (u160_from_be_bytes v))"

definition int_from_bool :: "bool option \<Rightarrow> bval" where
  "int_from_bool value = (if value \<noteq> None \<and> the value then BInt 1 else BInt 0)"

definition bool_from_int :: "bval \<Rightarrow> de_error + bool option" where
  "bool_from_int v =
     rbind (de_uint v :: de_error + u8) (\<lambda>n.
     if n = 0 then Inr (Some False)
     else if n = 1 then Inr (Some True)
     else Inl (InvalidValue (uint n)))"

datatype kerror = KError (err_code: u16) (err_desc: string)

definition kerror_serialize :: "kerror \<Rightarrow> bval" where
  "kerror_serialize e = BList [BInt (uint (err_code e)), BStr (str_bytes (err_desc e))]"

definition kerror_visit_seq :: "bval list \<Rightarrow> de_error + kerror" where
  "kerror_visit_seq xs =
     rbind (case xs of [] \<Rightarrow> Inr 0 | x # _ \<Rightarrow> de_uint x) (\<lambda>zero.
     rbind (case xs of _ # y # _ \<Rightarrow> de_string y | _ \<Rightarrow> Inr '''') (\<lambda>one.
     Inr (KError zero one)))"

definition kerror_deserialize :: "bval \<Rightarrow> de_error + kerror" where
  "kerror_deserialize v = (case v of BList xs \<Rightarrow> kerror_visit_seq xs | _ \<Rightarrow> Inl InvalidType)"

subsection \<open>Compact lists and optional addresses\<close>

record compact_ipv4_node_info =
  dht_nodes :: "node_info list"

record compact_info_hashes =
  info_hashes :: "u160 list"

record socket_addr_wrapper =
  socket_addr :: "socket_addr option"

definition compact_nodes_serialize :: "compact_ipv4_node_info \<Rightarrow> bytes res" where
  "compact_nodes_serialize c = rbind (map_res ip4_to_bytes (dht_nodes c)) (\<lambda>bss. Inr (concat bss))"

definition compact_nodes_visit :: "bytes \<Rightarrow> compact_ipv4_node_info" where
  "compact_nodes_visit v =
     \<lparr>dht_nodes = map ip4_from_bytes (chunks_exact IPV4_DHT_NODE_BYTES_LEN v)\<rparr>"

definition compact_hashes_serialize :: "compact_info_hashes \<Rightarrow> bytes" where
  "compact_hashes_serialize c = concat (map u160_to_be_bytes (info_hashes c))"

definition compact_hashes_visit :: "bytes \<Rightarrow> compact_info_hashes" where
  "compact_hashes_visit v = \<lparr>info_hashes = map u160_from_be_bytes (chunks_exact 20 v)\<rparr>"

definition addr_serialize :: "socket_addr_wrapper \<Rightarrow> bytes" where
  "addr_serialize w =
     (case socket_addr w of
        Some addr \<Rightarrow> octets (sock_ip addr) @ to_be_bytes 2 (sock_port addr)
      | None \<Rightarrow> [])"

definition addr_visit :: "bytes \<Rightarrow> socket_addr_wrapper" where
  "addr_visit v =
     (let ip = (if length v = 6 then Some (V4 (from_be_bytes [v ! 0, v ! 1, v ! 2, v ! 3]))
                else if length v = 18 then Some (V6 (from_be_bytes (take 16 v)))
                else None)
      in case ip of
           Some ip \<Rightarrow> \<lparr>socket_addr = Some (sock_new ip (from_be_bytes (drop (length v - 2) v)))\<rparr>
         | None \<Rightarrow> \<lparr>socket_addr = None\<rparr>)"

subsection \<open>Round trips\<close>

interpretation info_hash: fixed_codec "\<lambda>a. Inr (u160_to_be_bytes a)" u160_from_be_bytes 20 "\<lambda>a. True"
  by unfold_locales simp_all

lemma u160_visit_serialize [simp]: "u160_visit_bytes (u160_serialize a) = Inr a"
  by (simp add: u160_visit_bytes_def u160_serialize_def)

lemma bool_from_int_from_bool: "bool_from_int (int_from_bool (Some b)) = Inr (Some b)"
  by (cases b) (simp_all add: bool_from_int_def int_from_bool_def de_uint_def)

lemma kerror_roundtrip: "is_utf8 (err_desc e) \<Longrightarrow> kerror_deserialize (kerror_serialize e) = Inr e"
  by (simp add: kerror_deserialize_def kerror_serialize_def kerror_visit_seq_def)

lemma compact_nodes_roundtrip:
  assumes "\<forall>n\<in>set (dht_nodes c). is_ip4 n"
  shows "\<exists>bs. compact_nodes_serialize c = Inr bs \<and> length bs = 26 * length (dht_nodes c) \<and>
           compact_nodes_visit bs = c"
  using ip4.pack_ok [OF assms]
  by (auto simp: compact_nodes_serialize_def compact_nodes_visit_def IPV4_DHT_NODE_BYTES_LEN_def)

lemma compact_nodes_panic:
  "isl (compact_nodes_serialize c) \<longleftrightarrow> (\<exists>n\<in>set (dht_nodes c). \<not> is_ip4 n)"
  using ip4.pack_panics [of "dht_nodes c"]
  by (cases "map_res ip4_to_bytes (dht_nodes c)") (auto simp: compact_nodes_serialize_def)

lemma compact_hashes_roundtrip: "compact_hashes_visit (compact_hashes_serialize c) = c"
proof -
  have "map_res (\<lambda>a. Inr (u160_to_be_bytes a) :: bytes res) (info_hashes c) =
      Inr (map u160_to_be_bytes (info_hashes c))"
    by (rule map_res_Inr) simp
  with info_hash.pack_ok [of "info_hashes c"] show ?thesis
    by (simp add: compact_hashes_visit_def compact_hashes_serialize_def)
qed

lemma addr_roundtrip:
  assumes "\<forall>a. socket_addr w = Some a \<longrightarrow> plain_addr a"
  shows "addr_visit (addr_serialize w) = w"
proof (cases "socket_addr w")
  case None
  then show ?thesis by (simp add: addr_serialize_def addr_visit_def)
next
  case (Some a)
  then show ?thesis
  proof (cases a)
    case (SockV4 ip p)
    let ?v = "to_be_bytes 4 ip @ to_be_bytes 2 p"
    have len: "length ?v = 6" by simp
    have "from_be_bytes [?v ! 0, ?v ! 1, ?v ! 2, ?v ! 3] = ip"
      unfolding four_at_0 [OF len] by (simp add: be_simps)
    with Some SockV4 show ?thesis
      by (simp add: addr_serialize_def addr_visit_def be_simps)
  next
    case (SockV6 ip p fl sc)
    with Some assms show ?thesis
      by (simp add: addr_serialize_def addr_visit_def be_simps)
  qed
qed

subsection \<open>Properties\<close>

text \<open>C34: the compact node list of BEP 5 is written exactly when every node has an IPv4 address
  (otherwise the writer panics), takes 26 bytes a node, and reads back as the same list; a
  list read from any bytes has one node for each complete group of 26.\<close>

theorem compact_nodes_wire:
  "(case compact_nodes_serialize c of
      Inl _ \<Rightarrow> \<exists>n\<in>set (dht_nodes c). \<not> is_ip4 n
    | Inr bs \<Rightarrow> (\<forall>n\<in>set (dht_nodes c). is_ip4 n) \<and> length bs = 26 * length (dht_nodes c) \<and>
               compact_nodes_visit bs = c) \<and>
   length (dht_nodes (compact_nodes_visit v)) = length v div 26"
proof -
  have "length (dht_nodes (compact_nodes_visit v)) = length v div 26"
    using ip4.unpack_length [of v] by (simp add: compact_nodes_visit_def IPV4_DHT_NODE_BYTES_LEN_def)
  then show ?thesis
    using compact_nodes_panic [of c] compact_nodes_roundtrip [of c]
    by (cases "compact_nodes_serialize c") auto
qed

theorem compact_nodes_wire_witness:
  "compact_nodes_serialize \<lparr>dht_nodes = [\<lparr>node_id = u160_min, node_addr = SockV4 0 0\<rparr>]\<rparr> = Inr (replicate 26 0) \<and>
   compact_nodes_visit (replicate 26 0) = \<lparr>dht_nodes = [\<lparr>node_id = u160_min, node_addr = SockV4 0 0\<rparr>]\<rparr>"
proof -
  have "compact_nodes_serialize \<lparr>dht_nodes = [\<lparr>node_id = u160_min, node_addr = SockV4 0 0\<rparr>]\<rparr> = Inr (replicate 26 0)"
    by code_simp
  with compact_nodes_wire [of "\<lparr>dht_nodes = [\<lparr>node_id = u160_min, node_addr = SockV4 0 0\<rparr>]\<rparr>"]
  show ?thesis by simp
qed

text \<open>An identifier is read from any byte string of at most 20 bytes, short ones padded with
  leading zeros, and from no longer one; 20-byte strings read back to themselves.\<close>

theorem u160_serde:
  "(case u160_visit_bytes v of
      Inl e \<Rightarrow> length v > 20
    | Inr a \<Rightarrow> length v \<le> 20 \<and> u160_serialize a = replicate (20 - length v) 0 @ v) \<and>
   u160_visit_bytes (u160_serialize b) = Inr b"
proof -
  have "u160_to_be_bytes (u160_from_be_bytes (replicate (20 - length v) 0 @ v)) = replicate (20 - length v) 0 @ v"
    if "length v \<le> 20" using that by (intro u160_to_from_be_bytes) simp
  then show ?thesis
    by (cases "length v > 20"; cases "length v < 20") (simp_all add: u160_visit_bytes_def u160_serialize_def)
qed

text \<open>The address of a peer, and its absence, survive the 6- or 18-byte form (an IPv6 flow
  label or scope does not); any other length reads as no address.  Lists of info hashes and
  KRPC errors with a valid description survive too.\<close>

theorem small_codecs_roundtrip:
  "(addr_visit (addr_serialize w) = w \<longleftrightarrow> pred_option plain_addr (socket_addr w)) \<and>
   (socket_addr (addr_visit v) = None \<longleftrightarrow> length v \<noteq> 6 \<and> length v \<noteq> 18) \<and>
   compact_hashes_visit (compact_hashes_serialize c) = c \<and>
   (is_utf8 (err_desc e) \<longrightarrow> kerror_deserialize (kerror_serialize e) = Inr e)"
proof -
  have opt: "pred_option P x \<longleftrightarrow> (\<forall>a. x = Some a \<longrightarrow> P a)" for P and x :: "socket_addr option"
    by (cases x) simp_all
  have plain: "\<forall>a. socket_addr (addr_visit v) = Some a \<longrightarrow> plain_addr a" for v
    unfolding addr_visit_def Let_def
    by (cases "length v = 6"; cases "length v = 18") (simp_all del: sock_new.simps)
  have "addr_visit (addr_serialize w) = w \<longleftrightarrow> pred_option plain_addr (socket_addr w)"
    unfolding opt using addr_roundtrip [of w] plain [of "addr_serialize w"] by metis
  moreover have "socket_addr (addr_visit v) = None \<longleftrightarrow> length v \<noteq> 6 \<and> length v \<noteq> 18"
    by (simp add: addr_visit_def Let_def)
  ultimately show ?thesis using compact_hashes_roundtrip [of c] kerror_roundtrip [of e] by blast
qed

theorem small_codecs_roundtrip_witness:
  "kerror_deserialize (kerror_serialize (KError 201 ''no'')) = Inr (KError 201 ''no'')"
proof -
  have "is_utf8 (err_desc (KError 201 ''no''))" by code_simp
  with small_codecs_roundtrip show ?thesis by blast
qed

end
