(* ===== verification/Bucket.thy ===== *)
theory Bucket
  imports Wire
begin

text \<open>
  The routing table of \<open>src/router/bucket.rs\<close>: a chain of k-buckets, the one of index \<open>i\<close>
  holding the nodes that share exactly \<open>i\<close> leading bits with the owner and the last one all
  nodes that share at least so many.  Each operation is the body of the Rust method run
  without interruption (the locks of one call are not interleaved with another call).

  \<open>add\<close> and \<open>make_next_bucket\<close> call each other, and the call goes to a bucket that the loop
  of \<open>make_next_bucket\<close> is still filling.  The recursion is therefore bounded by fuel, one
  unit per bucket on the path; 256 units are enough for every table whose indices are
  consecutive, as there are only 256 values of an index.
\<close>

subsection \<open>Vectors\<close>

definition vec_swap :: "'a list \<Rightarrow> nat \<Rightarrow> nat \<Rightarrow> 'a list" where
  "vec_swap xs i j = xs[i := xs ! j, j := xs ! i]"

definition swap_remove :: "'a list \<Rightarrow> nat \<Rightarrow> 'a \<times> 'a list" where
  "swap_remove xs i = (xs ! i, butlast (xs[i := last xs]))"

lemma length_swap_remove [simp]: "length (snd (swap_remove xs i)) = length xs - 1"
  by (simp add: swap_remove_def)

subsection \<open>Buckets\<close>

definition MAX_BUCKET_INDEX :: u8 where
  "MAX_BUCKET_INDEX = 159"

datatype bucket = Bucket
  (own_id: u160)
  (bucket_index: u8)
  (k_size: u8)
  (nodes: "node_info list")
  (next_bucket: "bucket option")

definition with_nodes :: "bucket \<Rightarrow> node_info list \<Rightarrow> bucket" where
  "with_nodes b ns = Bucket (own_id b) (bucket_index b) (k_size b) ns (next_bucket b)"

definition with_next :: "bucket \<Rightarrow> bucket \<Rightarrow> bucket" where
  "with_next b nb = Bucket (own_id b) (bucket_index b) (k_size b) (nodes b) (Some nb)"

definition root :: "u160 \<Rightarrow> u8 \<Rightarrow> bucket" where
  "root own k = Bucket own 0 k [] None"

definition id_belongs_here :: "bucket \<Rightarrow> u160 \<Rightarrow> bool" where
  "id_belongs_here b i = get_bit (distance (own_id b) i) (bucket_index b)"

definition belongs_here :: "bucket \<Rightarrow> node_info \<Rightarrow> bool" where
  "belongs_here b node = get_bit (distance (own_id b) (node_id node)) (bucket_index b)"

text \<open>The loop of \<open>add_or_update\<close> that swaps an entry to the end of the vector.\<close>

function bump_loop :: "'a list \<Rightarrow> nat \<Rightarrow> 'a list" where
  "bump_loop xs index =
     (if index < length xs - 1 then bump_loop (vec_swap xs index (index + 1)) (index + 1) else xs)"
  by pat_completeness auto
termination
  by (relation "measure (\<lambda>(xs, index). length xs - index)") (auto simp: vec_swap_def)

declare bump_loop.simps [simp del]

definition add_or_update :: "bucket \<Rightarrow> node_info \<Rightarrow> bucket" where
  "add_or_update b node =
     (case position (\<lambda>n. node_id n = node_id node) (rev (nodes b)) of
        Some index \<Rightarrow> with_nodes b (bump_loop (nodes b) (length (nodes b) - 1 - index))
      | None \<Rightarrow>
          if length (nodes b) < unat (k_size b) then with_nodes b (nodes b @ [node]) else b)"

text \<open>The loop of \<open>make_next_bucket\<close>; \<open>add_next\<close> is \<open>add\<close> of the new bucket.\<close>

function split_loop ::
  "(bucket \<Rightarrow> node_info \<Rightarrow> bucket res) \<Rightarrow> (node_info \<Rightarrow> bool) \<Rightarrow> node_info list \<Rightarrow> nat \<Rightarrow> bucket \<Rightarrow>
     (node_info list \<times> bucket) res" where
  "split_loop add_next belongs ns index nb =
     (if index < length ns
      then if belongs (ns ! index) then split_loop add_next belongs ns (index + 1) nb
           else case add_next nb (fst (swap_remove ns index)) of
                  Inl e \<Rightarrow> Inl e
                | Inr nb' \<Rightarrow> split_loop add_next belongs (snd (swap_remove ns index)) index nb'
      else Inr (ns, nb))"
  by pat_completeness auto
termination
  by (relation "measure (\<lambda>(add_next, belongs, ns, index, nb). length ns - index)") auto

declare split_loop.simps [simp del]

definition make_next_bucket ::
  "(bucket \<Rightarrow> node_info \<Rightarrow> bucket res) \<Rightarrow> bucket \<Rightarrow> (bool \<times> bucket) res" where
  "make_next_bucket add_next b =
     (if bucket_index b = MAX_BUCKET_INDEX then Inr (False, b)
      else if bucket_index b = 255 then Inl ArithOverflow
      else case next_bucket b of
             Some nb \<Rightarrow> Inr (True, b)
           | None \<Rightarrow>
               rbind (split_loop add_next (belongs_here b) (nodes b) 0
                        (Bucket (own_id b) (bucket_index b + 1) (k_size b) [] None)) (\<lambda>(ns, nb).
               Inr (True, Bucket (own_id b) (bucket_index b) (k_size b) ns (Some nb))))"

definition add_step :: "(bucket \<Rightarrow> node_info \<Rightarrow> bucket res) \<Rightarrow> bucket \<Rightarrow> node_info \<Rightarrow> bucket res" where
  "add_step add_next b node =
     (if next_bucket b = None \<and> length (nodes b) < unat (k_size b) then Inr (add_or_update b node)
      else rbind (if next_bucket b = None \<and> length (nodes b) = unat (k_size b)
                  then make_next_bucket add_next b else Inr (True, b)) (\<lambda>(made, b').
           if \<not> made then Inr b'
           else if \<not> belongs_here b' node
           then (case next_bucket b' of
                   None \<Rightarrow> Inl UnwrapNone
                 | Some nb \<Rightarrow> rbind (add_next nb node) (\<lambda>nb'. Inr (with_next b' nb')))
           else Inr (add_or_update b' node)))"

fun add_fuel :: "nat \<Rightarrow> bucket \<Rightarrow> node_info \<Rightarrow> bucket res" where
  "add_fuel 0 b node = Inl OutOfFuel"
| "add_fuel (Suc fuel) b node = add_step (add_fuel fuel) b node"

definition add :: "bucket \<Rightarrow> node_info \<Rightarrow> bucket res" where
  "add b node = add_fuel 256 b node"

fun lookup :: "bucket \<Rightarrow> u160 \<Rightarrow> node_info list res" where
  "lookup (Bucket own index k ns nx) i =
     rbind (case nx of
              Some nb \<Rightarrow> if \<not> id_belongs_here (Bucket own index k ns nx) i then lookup nb i else Inr []
            | None \<Rightarrow> Inr []) (\<lambda>k_nearest.
     if unat k < length k_nearest then Inl ArithOverflow
     else let gap = unat k - length k_nearest;
              k_nearest' = (if gap > 0 then k_nearest @ take gap ns else k_nearest);
              gap' = unat k - length k_nearest'
          in case nx of
               Some nb \<Rightarrow> if gap' > 0 then rbind (lookup nb i) (\<lambda>m. Inr (k_nearest' @ take gap' m))
                          else Inr k_nearest'
             | None \<Rightarrow> Inr k_nearest')"

fun remove :: "bucket \<Rightarrow> u160 \<Rightarrow> bool \<times> bucket" where
  "remove (Bucket own index k ns nx) i =
     (case nx of
        None \<Rightarrow>
          (case position (\<lambda>n. node_id n = i) ns of
             Some j \<Rightarrow> (True, Bucket own index k (vec_remove ns j) nx)
           | None \<Rightarrow> (False, Bucket own index k ns nx))
      | Some nb \<Rightarrow>
          if id_belongs_here (Bucket own index k ns nx) i
          then (case position (\<lambda>n. node_id n = i) ns of
                  Some j \<Rightarrow> (True, Bucket own index k (vec_remove ns j) nx)
                | None \<Rightarrow> (False, Bucket own index k ns nx))
          else (case remove nb i of (r, nb') \<Rightarrow> (r, Bucket own index k ns (Some nb'))))"

text \<open>The numbers that \<open>stats\<close> prints: total nodes and buckets.\<close>

fun bucket_sizes :: "bucket \<Rightarrow> nat list" where
  "bucket_sizes (Bucket own index k ns nx) =
     length ns # (case nx of None \<Rightarrow> [] | Some nb \<Rightarrow> bucket_sizes nb)"

definition stats :: "bucket \<Rightarrow> nat \<times> nat" where
  "stats b = (sum_list (bucket_sizes b), length (bucket_sizes b))"

subsection \<open>The serialized table\<close>

text \<open>Owner, capacity, number of buckets, and the vectors from the last bucket to the first.\<close>

fun ser_df :: "bucket \<Rightarrow> u16 \<Rightarrow> bval list res" where
  "ser_df (Bucket own index k ns nx) depth =
     rbind (case nx of
              Some nb \<Rightarrow> if depth = 65535 then Inl ArithOverflow else ser_df nb (depth + 1)
            | None \<Rightarrow> Inr [BInt (uint depth)]) (\<lambda>es.
     Inr (es @ [BList (map (\<lambda>n. BStr (node_serialize n)) ns)]))"

definition bucket_serialize :: "bucket \<Rightarrow> bval list res" where
  "bucket_serialize b =
     rbind (ser_df b 1) (\<lambda>es. Inr (BStr (u160_serialize (own_id b)) # BInt (uint (k_size b)) # es))"

datatype de_fail = DePanic fault | DeErr de_error

definition de_elem :: "(bval \<Rightarrow> de_error + 'a) \<Rightarrow> bval \<Rightarrow> de_fail + 'a" where
  "de_elem d v = (case d v of Inl e \<Rightarrow> Inl (DeErr e) | Inr a \<Rightarrow> Inr a)"

definition de_node_list :: "bval \<Rightarrow> de_error + node_info list" where
  "de_node_list v =
     (case v of
        BList xs \<Rightarrow> map_res (\<lambda>x. rbind (de_bytes x) node_visit_bytes) xs
      | _ \<Rightarrow> Inl InvalidType)"

fun de_buckets :: "u160 \<Rightarrow> u8 \<Rightarrow> u8 \<Rightarrow> bval list \<Rightarrow> de_fail + bucket list" where
  "de_buckets own k index [] = Inr []"
| "de_buckets own k index (v # vs) =
     rbind (de_elem de_node_list v) (\<lambda>ns.
     if index = 0 then Inl (DePanic ArithOverflow)
     else rbind (de_buckets own k (index - 1) vs) (\<lambda>bs.
          Inr (Bucket own (index - 1) k ns None # bs)))"

fun link_buckets :: "bucket list \<Rightarrow> bucket option" where
  "link_buckets [] = None"
| "link_buckets (b # bs) = Some (fold (\<lambda>parent child. with_next parent child) bs b)"

definition bucket_visit_seq :: "bval list \<Rightarrow> de_fail + bucket" where
  "bucket_visit_seq es =
     (case es of
        [] \<Rightarrow> Inl (DePanic UnwrapNone)
      | e1 # es1 \<Rightarrow>
     rbind (de_elem (\<lambda>v. rbind (de_bytes v) u160_visit_bytes) e1) (\<lambda>own.
     case es1 of
        [] \<Rightarrow> Inl (DePanic UnwrapNone)
      | e2 # es2 \<Rightarrow>
     rbind (de_elem de_uint e2) (\<lambda>k.
     case es2 of
        [] \<Rightarrow> Inl (DePanic UnwrapNone)
      | e3 # es3 \<Rightarrow>
     rbind (de_elem de_uint e3) (\<lambda>index.
     rbind (de_buckets own k index es3) (\<lambda>bs.
     case link_buckets bs of None \<Rightarrow> Inl (DePanic UnwrapNone) | Some b \<Rightarrow> Inr b)))))"

subsection \<open>Vector lemmas\<close>

lemma bump_loop_eq:
  "i < length xs \<Longrightarrow> bump_loop xs i = take i xs @ drop (Suc i) xs @ [xs ! i]"
proof (induction xs i rule: bump_loop.induct)
  case (1 xs i)
  show ?case
  proof (cases "i < length xs - 1")
    case True
    let ?ys = "vec_swap xs i (Suc i)"
    have split: "xs = take i xs @ xs ! i # xs ! Suc i # drop (Suc (Suc i)) xs"
      using True by (simp add: Cons_nth_drop_Suc id_take_nth_drop)
    have ys: "?ys = take i xs @ xs ! Suc i # xs ! i # drop (Suc (Suc i)) xs"
      by (subst split) (use True in \<open>simp add: vec_swap_def list_update_append nth_append\<close>)
    have "bump_loop xs i = bump_loop ?ys (Suc i)"
      using True by (simp add: bump_loop.simps [of xs i])
    also have "\<dots> = take (Suc i) ?ys @ drop (Suc (Suc i)) ?ys @ [?ys ! Suc i]"
      using "1.IH" True by (simp add: vec_swap_def)
    also have "\<dots> = take i xs @ drop (Suc i) xs @ [xs ! i]"
      using True by (simp add: ys nth_append Cons_nth_drop_Suc)
    finally show ?thesis .
  next
    case False
    then have "bump_loop xs i = xs" by (simp add: bump_loop.simps [of xs i])
    moreover from False "1.prems" have "Suc i = length xs" by simp
    ultimately show ?thesis using take_Suc_conv_app_nth [OF "1.prems"] by simp
  qed
qed

lemma mset_bump_loop: "i < length xs \<Longrightarrow> mset (bump_loop xs i) = mset xs"
  by (subst (2) id_take_nth_drop [of i xs]) (simp_all add: bump_loop_eq)

lemma mset_swap_remove:
  assumes "i < length xs"
  shows "mset xs = add_mset (xs ! i) (mset (snd (swap_remove xs i)))"
proof (cases xs rule: rev_cases)
  case (snoc ys z)
  show ?thesis
  proof (cases "i < length ys")
    case True
    with snoc show ?thesis
      by (simp add: swap_remove_def list_update_append nth_append mset_update)
  next
    case False
    with assms snoc have "i = length ys" by simp
    with snoc show ?thesis by (simp add: swap_remove_def)
  qed
qed (use assms in simp)

subsection \<open>Shared leading bits\<close>

definition lead :: "u160 \<Rightarrow> u160 \<Rightarrow> nat" where
  "lead own x = length (takeWhile (\<lambda>j. \<not> get_bit (distance own x) (of_nat j)) [0..<160])"

lemma lead_le: "lead own x \<le> 160"
  using length_takeWhile_le [of _ "[0..<160]"] by (simp add: lead_def)

lemma lead_below: "j < lead own x \<Longrightarrow> \<not> get_bit (distance own x) (of_nat j)"
  using nth_mem [of j "takeWhile (\<lambda>j. \<not> get_bit (distance own x) (of_nat j)) [0..<160]"]
    set_takeWhileD takeWhile_nth [of j "\<lambda>j. \<not> get_bit (distance own x) (of_nat j)" "[0..<160]"]
    lead_le [of own x]
  by (fastforce simp: lead_def)

lemma lead_at: "lead own x < 160 \<Longrightarrow> get_bit (distance own x) (of_nat (lead own x))"
  using nth_length_takeWhile [of "\<lambda>j. \<not> get_bit (distance own x) (of_nat j)" "[0..<160]"]
  by (simp add: lead_def)

lemma lead_shared: "unat i \<le> lead own x \<Longrightarrow> j < i \<Longrightarrow> \<not> get_bit (distance own x) j"
  using lead_below [of "unat j" own x] by (simp add: word_less_nat_alt)

lemma bit_lead:
  assumes "unat i \<le> lead own x" and "i \<le> 159"
  shows "get_bit (distance own x) i \<longleftrightarrow> lead own x = unat i"
proof
  assume "get_bit (distance own x) i"
  then show "lead own x = unat i"
    using lead_below [of "unat i" own x] assms(1) by (cases "unat i < lead own x") simp_all
next
  assume "lead own x = unat i"
  moreover have "unat i < 160" using assms(2) by (simp add: word_le_nat_alt)
  ultimately show "get_bit (distance own x) i" using lead_at [of own x] by simp
qed

lemma lead_last:
  assumes "159 \<le> lead own x" "159 \<le> lead own y" "159 \<le> lead own z"
  shows "x = y \<or> x = z \<or> y = z"
proof -
  have eq: "u = v" if "159 \<le> lead own u" "159 \<le> lead own v"
    "get_bit (distance own u) 159 = get_bit (distance own v) 159" for u v
  proof -
    have "get_bit (distance own u) i = get_bit (distance own v) i" for i :: u8
    proof -
      have "unat i < 159 \<or> unat i = 159 \<or> 160 \<le> unat i" by arith
      then consider "i < 159" | "i = 159" | "160 \<le> unat i"
        by (auto simp: word_less_nat_alt word_unat_eq_iff)
      then show ?thesis
        using that lead_shared [of 159 own u i] lead_shared [of 159 own v i]
        by cases (auto simp: get_bit_word)
    qed
    then have "distance own u = distance own v" by (rule u160_bits_eq)
    then show ?thesis by (rule u160.dist_cancel)
  qed
  show ?thesis using eq [of x y] eq [of x z] eq [of y z] assms by blast
qed

subsection \<open>The table invariant\<close>

fun all_nodes :: "bucket \<Rightarrow> node_info list" where
  "all_nodes (Bucket own index k ns nx) =
     ns @ (case nx of None \<Rightarrow> [] | Some nb \<Rightarrow> all_nodes nb)"

definition ids :: "bucket \<Rightarrow> u160 set" where
  "ids b = node_id ` set (all_nodes b)"

fun bucket_ok :: "bucket \<Rightarrow> bool" where
  "bucket_ok (Bucket own index k ns nx) =
     (2 \<le> k \<and> index \<le> 159 \<and> length ns \<le> unat k \<and> distinct (map node_id ns) \<and>
      (case nx of
         None \<Rightarrow> (\<forall>n\<in>set ns. unat index \<le> lead own (node_id n))
       | Some nb \<Rightarrow>
           index < 159 \<and> own_id nb = own \<and> bucket_index nb = index + 1 \<and> k_size nb = k \<and>
           (\<forall>n\<in>set ns. lead own (node_id n) = unat index) \<and> bucket_ok nb))"

lemma unat_index_Suc: "(index :: u8) < 159 \<Longrightarrow> unat (index + 1) = Suc (unat index)"
  by (simp add: word_less_nat_alt unat_word_ariths)

lemma root_ok: "2 \<le> k \<Longrightarrow> bucket_ok (root own k)"
  by (simp add: root_def)

lemma bucket_ok_lead: "bucket_ok b \<Longrightarrow> n \<in> set (all_nodes b) \<Longrightarrow> unat (bucket_index b) \<le> lead (own_id b) (node_id n)"
proof (induction b)
  case (Bucket own index k ns nx)
  show ?case
  proof (cases nx)
    case (Some nb)
    with Bucket.prems have "lead own (node_id n) = unat index \<or> n \<in> set (all_nodes nb)" by auto
    then show ?thesis
    proof
      assume "n \<in> set (all_nodes nb)"
      with Some Bucket.IH [of nb] Bucket.prems show ?thesis by (auto simp: unat_index_Suc)
    qed simp
  qed (use Bucket.prems in auto)
qed

lemma bucket_ok_distinct: "bucket_ok b \<Longrightarrow> distinct (map node_id (all_nodes b))"
proof (induction b)
  case (Bucket own index k ns nx)
  show ?case
  proof (cases nx)
    case (Some nb)
    with Bucket.prems have nb: "bucket_ok nb" "own_id nb = own" "bucket_index nb = index + 1" "index < 159"
      and ns: "\<forall>n\<in>set ns. lead own (node_id n) = unat index" "distinct (map node_id ns)" by auto
    have "Suc (unat index) \<le> lead own (node_id n)" if "n \<in> set (all_nodes nb)" for n
      using bucket_ok_lead [OF nb(1) that] nb by (simp add: unat_index_Suc)
    with ns have "node_id ` set ns \<inter> node_id ` set (all_nodes nb) = {}" by fastforce
    with Some Bucket.IH [of nb] nb(1) ns(2) show ?thesis by simp
  qed (use Bucket.prems in auto)
qed

subsection \<open>One bucket\<close>

lemma with_nodes_sel [simp]:
  "own_id (with_nodes b ns) = own_id b" "bucket_index (with_nodes b ns) = bucket_index b"
  "k_size (with_nodes b ns) = k_size b" "nodes (with_nodes b ns) = ns"
  "next_bucket (with_nodes b ns) = next_bucket b"
  by (simp_all add: with_nodes_def)

lemma with_next_sel [simp]:
  "own_id (with_next b nb) = own_id b" "bucket_index (with_next b nb) = bucket_index b"
  "k_size (with_next b nb) = k_size b" "nodes (with_next b nb) = nodes b"
  "next_bucket (with_next b nb) = Some nb"
  by (simp_all add: with_next_def)

lemma add_or_update_present:
  assumes "node_id n \<in> node_id ` set (nodes b)"
  shows "\<exists>ns. add_or_update b n = with_nodes b ns \<and> mset ns = mset (nodes b)"
proof -
  let ?p = "position (\<lambda>m. node_id m = node_id n) (rev (nodes b))"
  from assms have "?p \<noteq> None" by (auto simp: position_None)
  then obtain i where i: "?p = Some i" by blast
  then have "i < length (nodes b)" using position_Some [OF i] by simp
  then have "mset (bump_loop (nodes b) (length (nodes b) - 1 - i)) = mset (nodes b)"
    by (intro mset_bump_loop) simp
  with i show ?thesis by (auto simp: add_or_update_def)
qed

lemma add_or_update_absent:
  assumes "node_id n \<notin> node_id ` set (nodes b)"
  shows "add_or_update b n =
    (if length (nodes b) < unat (k_size b) then with_nodes b (nodes b @ [n]) else b)"
proof -
  have "position (\<lambda>m. node_id m = node_id n) (rev (nodes b)) = None"
    using assms by (simp add: position_None) (metis image_eqI)
  then show ?thesis by (simp add: add_or_update_def)
qed

lemma distinct_ids_mset: "mset xs = mset ys \<Longrightarrow> distinct (map node_id xs) = distinct (map node_id ys)"
  by (metis mset_map mset_eq_imp_distinct_iff)

lemma bucket_ok_permute:
  assumes "bucket_ok b" and "mset ns = mset (nodes b)"
  shows "bucket_ok (with_nodes b ns)"
  using assms mset_eq_length [OF assms(2)] mset_eq_setD [OF assms(2)] distinct_ids_mset [OF assms(2)]
  by (cases b) (auto simp: with_nodes_def split: option.splits)

lemma set_all_nodes: "set (all_nodes b) =
   set (nodes b) \<union> (case next_bucket b of None \<Rightarrow> {} | Some nb \<Rightarrow> set (all_nodes nb))"
  by (cases b) (auto split: option.splits)

text \<open>What \<open>add_or_update\<close> does to a bucket that may hold the node: contents and invariant.\<close>

lemma add_or_update_ok:
  assumes b: "bucket_ok b"
    and n: "case next_bucket b of None \<Rightarrow> unat (bucket_index b) \<le> lead (own_id b) (node_id n)
            | Some nb \<Rightarrow> lead (own_id b) (node_id n) = unat (bucket_index b)"
  shows "bucket_ok (add_or_update b n)"
    and "set (nodes (add_or_update b n)) =
      (if node_id n \<in> node_id ` set (nodes b) \<or> unat (k_size b) \<le> length (nodes b)
       then set (nodes b) else insert n (set (nodes b)))"
    and "own_id (add_or_update b n) = own_id b" "bucket_index (add_or_update b n) = bucket_index b"
      "k_size (add_or_update b n) = k_size b" "next_bucket (add_or_update b n) = next_bucket b"
proof -
  have all: "bucket_ok (add_or_update b n) \<and> set (nodes (add_or_update b n)) =
      (if node_id n \<in> node_id ` set (nodes b) \<or> unat (k_size b) \<le> length (nodes b)
       then set (nodes b) else insert n (set (nodes b))) \<and>
      own_id (add_or_update b n) = own_id b \<and> bucket_index (add_or_update b n) = bucket_index b \<and>
      k_size (add_or_update b n) = k_size b \<and> next_bucket (add_or_update b n) = next_bucket b"
  proof (cases "node_id n \<in> node_id ` set (nodes b)")
    case True
    then obtain ns where ns: "add_or_update b n = with_nodes b ns" "mset ns = mset (nodes b)"
      using add_or_update_present by blast
    with bucket_ok_permute [OF b ns(2)] mset_eq_setD [OF ns(2)] True show ?thesis by simp
  next
    case False
    then show ?thesis
      using b n by (cases b) (auto simp: add_or_update_absent with_nodes_def split: option.splits)
  qed
  then show "bucket_ok (add_or_update b n)"
    and "set (nodes (add_or_update b n)) =
      (if node_id n \<in> node_id ` set (nodes b) \<or> unat (k_size b) \<le> length (nodes b)
       then set (nodes b) else insert n (set (nodes b)))"
    and "own_id (add_or_update b n) = own_id b" "bucket_index (add_or_update b n) = bucket_index b"
      "k_size (add_or_update b n) = k_size b" "next_bucket (add_or_update b n) = next_bucket b"
    by blast+
qed

subsection \<open>Splitting the last bucket\<close>

text \<open>One node that does not belong here is moved to the next bucket, which has room for it.\<close>

lemma split_loop_moves:
  assumes "\<And>nb x. next_bucket nb = None \<Longrightarrow> length (nodes nb) < unat (k_size nb) \<Longrightarrow>
      add_next nb x = Inr (add_or_update nb x)"
    and "distinct (map node_id (snd (swap_remove ns index) @ moved0 @ [ns ! index]))"
    and "length moved0 < unat k" "index < length ns" "\<not> belongs (ns ! index)"
  shows "split_loop add_next belongs ns index (Bucket own i k moved0 None) =
    split_loop add_next belongs (snd (swap_remove ns index)) index (Bucket own i k (moved0 @ [ns ! index]) None)"
proof -
  have "add_or_update (Bucket own i k moved0 None) (ns ! index) = Bucket own i k (moved0 @ [ns ! index]) None"
    using assms(2,3) by (simp add: add_or_update_absent with_nodes_def)
  with assms(1) [of "Bucket own i k moved0 None" "ns ! index"] assms(3-) show ?thesis
    by (simp add: split_loop.simps [of add_next belongs ns index] swap_remove_def)
qed

lemma split_loop_spec:
  assumes "\<And>nb x. next_bucket nb = None \<Longrightarrow> length (nodes nb) < unat (k_size nb) \<Longrightarrow>
      add_next nb x = Inr (add_or_update nb x)"
    and "index \<le> length ns" and "\<forall>j<index. belongs (ns ! j)"
    and "distinct (map node_id (ns @ moved0))" and "length ns + length moved0 \<le> unat k"
  shows "\<exists>here moved. split_loop add_next belongs ns index (Bucket own i k moved0 None) =
      Inr (here, Bucket own i k moved None) \<and> mset here + mset moved = mset ns + mset moved0 \<and>
      (\<forall>n\<in>set here. belongs n) \<and> (\<forall>n\<in>set moved. belongs n \<longrightarrow> n \<in> set moved0)"
  using assms(2-)
proof (induction "length ns - index" arbitrary: ns index moved0 rule: less_induct)
  case less
  show ?case
  proof (cases "index < length ns")
    case False
    with less.prems show ?thesis
      by (auto simp: split_loop.simps [of add_next belongs ns] in_set_conv_nth)
  next
    case True
    show ?thesis
    proof (cases "belongs (ns ! index)")
      case True
      then have step: "split_loop add_next belongs ns index nb = split_loop add_next belongs ns (Suc index) nb" for nb
        using \<open>index < length ns\<close> by (simp add: split_loop.simps [of add_next belongs ns index])
      have "\<forall>j<Suc index. belongs (ns ! j)" using less.prems True by (auto simp: less_Suc_eq)
      then show ?thesis
        unfolding step using less.hyps [of ns "Suc index" moved0] less.prems \<open>index < length ns\<close> by simp
    next
      case False
      let ?x = "ns ! index" and ?ns = "snd (swap_remove ns index)"
      have m: "mset ns = add_mset ?x (mset ?ns)" by (rule mset_swap_remove [OF \<open>index < length ns\<close>])
      have "mset (ns @ moved0) = mset (?ns @ moved0 @ [?x])" using m by simp
      then have d: "distinct (map node_id (?ns @ moved0 @ [?x]))"
        using less.prems(3) distinct_ids_mset by blast
      moreover have "length moved0 < unat k" using less.prems(4) \<open>index < length ns\<close> by simp
      ultimately have step: "split_loop add_next belongs ns index (Bucket own i k moved0 None) =
          split_loop add_next belongs ?ns index (Bucket own i k (moved0 @ [?x]) None)"
        using split_loop_moves [OF assms(1)] \<open>index < length ns\<close> False by blast
      have "\<forall>j<index. belongs (?ns ! j)"
        using less.prems(2) \<open>index < length ns\<close> by (auto simp: swap_remove_def nth_butlast)
      then obtain here moved where "split_loop add_next belongs ?ns index (Bucket own i k (moved0 @ [?x]) None) =
          Inr (here, Bucket own i k moved None)" "mset here + mset moved = mset ?ns + mset (moved0 @ [?x])"
        "\<forall>n\<in>set here. belongs n" "\<forall>n\<in>set moved. belongs n \<longrightarrow> n \<in> set (moved0 @ [?x])"
        using less.hyps [of ?ns index "moved0 @ [?x]"] less.prems d \<open>index < length ns\<close> by fastforce
      with step m False show ?thesis by auto
    qed
  qed
qed
lemma make_next_bucket_spec:
  assumes b: "bucket_ok b" and tail: "next_bucket b = None" and i: "bucket_index b < 159"
    and room: "\<And>nb x. next_bucket nb = None \<Longrightarrow> length (nodes nb) < unat (k_size nb) \<Longrightarrow>
      add_next nb x = Inr (add_or_update nb x)"
  shows "\<exists>b'. make_next_bucket add_next b = Inr (True, b') \<and> bucket_ok b' \<and>
     own_id b' = own_id b \<and> bucket_index b' = bucket_index b \<and> k_size b' = k_size b \<and>
     mset (all_nodes b') = mset (all_nodes b) \<and> next_bucket b' \<noteq> None"
proof -
  obtain own index k ns where eq: "b = Bucket own index k ns None" using tail by (cases b) auto
  from b i eq have ok: "2 \<le> k" "length ns \<le> unat k" "distinct (map node_id ns)"
    "\<forall>n\<in>set ns. unat index \<le> lead own (node_id n)" "index < 159" by auto
  from split_loop_spec [OF room, where belongs = "belongs_here b" and ns = ns and index = 0 and ?moved0.0 = "[]"
      and k = k and own = own and i = "index + 1"] ok
  obtain here moved where sl: "split_loop add_next (belongs_here b) ns 0 (Bucket own (index + 1) k [] None) =
      Inr (here, Bucket own (index + 1) k moved None)" and m: "mset here + mset moved = mset ns"
    and h: "\<forall>n\<in>set here. belongs_here b n" and mv: "\<forall>n\<in>set moved. \<not> belongs_here b n"
    by auto
  let ?b' = "Bucket own index k here (Some (Bucket own (index + 1) k moved None))"
  have "index \<noteq> 159" "index \<noteq> 255" "index \<le> 159" using ok(5) by auto
  then have mk: "make_next_bucket add_next b = Inr (True, ?b')"
    using sl by (simp add: make_next_bucket_def eq MAX_BUCKET_INDEX_def)
  have in_ns: "n \<in> set ns" if "n \<in> set here \<or> n \<in> set moved" for n
    using that m by (metis set_mset_mset set_mset_union Un_iff)
  have le: "lead own (node_id n) = unat index \<longleftrightarrow> belongs_here b n" if "n \<in> set ns" for n
    using bit_lead [of index own "node_id n"] ok that \<open>index \<le> 159\<close> by (simp add: belongs_here_def eq)
  have "length here \<le> unat k" "length moved \<le> unat k"
    using ok(2) m by (metis size_union size_mset le_add1 le_add2 le_trans)+
  moreover have "distinct (map node_id (here @ moved))"
    using m ok(3) distinct_ids_mset [of "here @ moved" ns] by simp
  moreover have "\<forall>n\<in>set here. lead own (node_id n) = unat index" using le h in_ns by blast
  moreover have "\<forall>n\<in>set moved. Suc (unat index) \<le> lead own (node_id n)"
    using le mv in_ns ok(4) by (metis Suc_leI le_neq_implies_less)
  moreover have "index + 1 \<le> 159" using ok(5) by (simp add: word_le_nat_alt word_less_nat_alt unat_word_ariths)
  ultimately have "bucket_ok ?b'" using ok by (simp add: unat_index_Suc)
  with mk m eq show ?thesis by auto
qed

subsection \<open>Adding a node\<close>

definition class_size :: "bucket \<Rightarrow> nat \<Rightarrow> nat" where
  "class_size b d = length (filter (\<lambda>m. lead (own_id b) (node_id m) = d) (all_nodes b))"

definition admits :: "bucket \<Rightarrow> node_info \<Rightarrow> bool" where
  "admits b n \<longleftrightarrow> node_id n \<notin> ids b \<and> class_size b (lead (own_id b) (node_id n)) < unat (k_size b)"

definition added :: "bucket \<Rightarrow> node_info \<Rightarrow> bucket \<Rightarrow> bool" where
  "added b n b' \<longleftrightarrow> bucket_ok b' \<and> own_id b' = own_id b \<and> bucket_index b' = bucket_index b \<and>
     k_size b' = k_size b \<and>
     set (all_nodes b') = (if admits b n then insert n (set (all_nodes b)) else set (all_nodes b))"

lemma admits_cong:
  assumes "mset (all_nodes b) = mset (all_nodes c)" "own_id b = own_id c" "k_size b = k_size c"
  shows "admits b n = admits c n"
proof -
  have "class_size b d = class_size c d" for d
    using assms by (metis class_size_def mset_filter size_mset)
  moreover have "ids b = ids c" using mset_eq_setD [OF assms(1)] by (simp add: ids_def)
  ultimately show ?thesis using assms by (simp add: admits_def)
qed

lemma add_fuel_room:
  "0 < fuel \<Longrightarrow> next_bucket b = None \<Longrightarrow> length (nodes b) < unat (k_size b) \<Longrightarrow>
   add_fuel fuel b n = Inr (add_or_update b n)"
  by (cases fuel) (simp_all add: add_step_def)

lemma add_last_room:
  assumes "bucket_ok b" "next_bucket b = None" "length (nodes b) < unat (k_size b)"
    "unat (bucket_index b) \<le> lead (own_id b) (node_id n)"
  shows "added b n (add_or_update b n)"
proof -
  have "class_size b d \<le> length (nodes b)" for d
    using assms(2) by (cases b) (simp add: class_size_def)
  with assms(3) have "class_size b d < unat (k_size b)" for d using le_less_trans by blast
  moreover have "set (all_nodes (add_or_update b n)) = set (nodes (add_or_update b n))" "set (all_nodes b) = set (nodes b)"
    using assms add_or_update_ok(6) [of b n] by (simp_all add: set_all_nodes)
  ultimately show ?thesis
    using add_or_update_ok [of b n] assms by (simp add: added_def admits_def ids_def)
qed

lemma last_bucket_full:
  assumes "bucket_ok b" "next_bucket b = None" "length (nodes b) = unat (k_size b)" "bucket_index b = 159"
    "159 \<le> lead (own_id b) (node_id n)"
  shows "node_id n \<in> ids b"
proof -
  obtain own k ns where b: "b = Bucket own 159 k ns None" using assms(2,4) by (cases b) auto
  with assms have "2 \<le> length ns" by (simp add: word_le_nat_alt)
  then obtain x y zs where ns: "ns = x # y # zs" by (metis Suc_le_length_iff numeral_2_eq_2)
  with b assms have "node_id x \<noteq> node_id y" "159 \<le> lead own (node_id x)" "159 \<le> lead own (node_id y)" by auto
  with lead_last [of own "node_id x" "node_id y" "node_id n"] assms(5) b ns show ?thesis
    by (auto simp: ids_def)
qed

lemma deeper_lead:
  assumes "bucket_ok b" "next_bucket b = Some nb" "m \<in> set (all_nodes nb)"
  shows "unat (bucket_index b) < lead (own_id b) (node_id m)"
  using assms bucket_ok_lead [of nb m] by (cases b) (auto simp: unat_index_Suc)

lemma add_below:
  assumes b: "bucket_ok b" and nb: "next_bucket b = Some nb"
    and n: "unat (bucket_index b) \<le> lead (own_id b) (node_id n)"
    and IH: "unat (bucket_index nb) \<le> lead (own_id nb) (node_id n) \<Longrightarrow> \<exists>nb'. add_next nb n = Inr nb' \<and> added nb n nb'"
  shows "\<exists>b'. (if \<not> belongs_here b n
           then (case next_bucket b of
                   None \<Rightarrow> Inl UnwrapNone
                 | Some nb \<Rightarrow> rbind (add_next nb n) (\<lambda>nb'. Inr (with_next b nb')))
           else Inr (add_or_update b n)) = Inr b' \<and> added b n b'"
proof -
  obtain own index k ns where eq: "b = Bucket own index k ns (Some nb)" using nb by (cases b) auto
  from b eq have ok: "index < 159" "own_id nb = own" "bucket_index nb = index + 1" "k_size nb = k"
    "\<forall>n\<in>set ns. lead own (node_id n) = unat index" "bucket_ok nb" by auto
  have bel: "belongs_here b n \<longleftrightarrow> lead own (node_id n) = unat index"
    using bit_lead [of index own "node_id n"] n ok(1) by (simp add: belongs_here_def eq)
  have deep: "unat index < lead own (node_id m)" if "m \<in> set (all_nodes nb)" for m
    using deeper_lead [OF b nb that] eq by simp
  show ?thesis
  proof (cases "belongs_here b n")
    case True
    have nd: "\<forall>m\<in>set (all_nodes nb). lead own (node_id m) \<noteq> unat index" using deep by fastforce
    then have "class_size b (unat index) = length ns"
      using ok(5) by (simp add: class_size_def eq)
    moreover have "node_id n \<in> ids b \<longleftrightarrow> node_id n \<in> node_id ` set ns"
      using True bel nd by (auto simp: ids_def eq)
    ultimately have "added b n (add_or_update b n)"
      using add_or_update_ok [OF b, of n] True bel
      by (auto simp: added_def admits_def eq set_all_nodes)
    with True show ?thesis by simp
  next
    case False
    with bel n eq have l: "unat index < lead own (node_id n)" by simp
    then obtain nb' where nb': "add_next nb n = Inr nb'" "added nb n nb'"
      using IH ok by (auto simp: unat_index_Suc)
    have "class_size b (lead own (node_id n)) = class_size nb (lead own (node_id n))"
      using ok l by (auto simp: class_size_def eq filter_empty_conv)
    moreover have "node_id n \<in> ids b \<longleftrightarrow> node_id n \<in> ids nb"
      using ok l by (auto simp: ids_def eq)
    ultimately have "admits b n = admits nb n" using ok eq by (simp add: admits_def)
    then have "added b n (with_next b nb')"
      using nb'(2) b ok eq by (auto simp: added_def with_next_def)
    with nb' nb False show ?thesis by simp
  qed
qed

lemma add_step_below:
  assumes IH: "\<And>c. bucket_ok c \<Longrightarrow> unat (bucket_index c) \<le> lead (own_id c) (node_id n) \<Longrightarrow>
      160 - unat (bucket_index c) \<le> fuel \<Longrightarrow> \<exists>c'. add_fuel fuel c n = Inr c' \<and> added c n c'"
    and b: "bucket_ok b" "next_bucket b = Some nb"
    and at: "unat (bucket_index b) \<le> lead (own_id b) (node_id n)" "160 - unat (bucket_index b) \<le> Suc fuel"
  shows "\<exists>b'. add_step (add_fuel fuel) b n = Inr b' \<and> added b n b'"
proof -
  have "bucket_ok nb" "unat (bucket_index nb) = Suc (unat (bucket_index b))"
    using b by (cases b; simp add: unat_index_Suc)+
  then have "\<exists>nb'. add_fuel fuel nb n = Inr nb' \<and> added nb n nb'"
    if "unat (bucket_index nb) \<le> lead (own_id nb) (node_id n)"
    using IH [of nb] that at(2) by simp
  from add_below [where n = n and add_next = "add_fuel fuel", OF b at(1) this] b show ?thesis
    by (simp add: add_step_def)
qed

lemma add_fuel_added:
  assumes "bucket_ok b" "unat (bucket_index b) \<le> lead (own_id b) (node_id n)"
    "160 - unat (bucket_index b) \<le> fuel"
  shows "\<exists>b'. add_fuel fuel b n = Inr b' \<and> added b n b'"
  using assms
proof (induction fuel arbitrary: b)
  case 0
  then have "unat (bucket_index b) \<le> 159" by (cases b) (simp add: word_le_nat_alt)
  with "0.prems" show ?case by simp
next
  case (Suc fuel)
  have k: "length (nodes b) \<le> unat (k_size b)" "bucket_index b \<le> 159" using Suc.prems(1) by (cases b; simp)+
  have below: "\<exists>b''. add_step (add_fuel fuel) b' n = Inr b'' \<and> added b' n b''"
    if "bucket_ok b'" "next_bucket b' = Some nb" "bucket_index b' = bucket_index b" "own_id b' = own_id b" for b' nb
    using add_step_below [of n fuel b' nb] Suc.IH Suc.prems(2,3) that by simp
  show ?case
  proof (cases "next_bucket b")
    case (Some nb)
    with below [of b nb] Suc.prems(1) show ?thesis by simp
  next
    case None
    consider "length (nodes b) < unat (k_size b)" | "length (nodes b) = unat (k_size b)" "bucket_index b = 159"
      | "length (nodes b) = unat (k_size b)" "bucket_index b < 159" using k by fastforce
    then show ?thesis
    proof cases
      case 1
      with None add_last_room [of b n] Suc.prems show ?thesis by (simp add: add_step_def)
    next
      case 2
      with None last_bucket_full [of b n] Suc.prems have "node_id n \<in> ids b" by simp
      with 2 None Suc.prems(1) show ?thesis
        by (simp add: add_step_def make_next_bucket_def MAX_BUCKET_INDEX_def added_def admits_def)
    next
      case 3
      then have "0 < fuel" using Suc.prems(3) by (simp add: word_less_nat_alt)
      then obtain b' where b': "make_next_bucket (add_fuel fuel) b = Inr (True, b')" "bucket_ok b'"
        "own_id b' = own_id b" "bucket_index b' = bucket_index b" "k_size b' = k_size b"
        "mset (all_nodes b') = mset (all_nodes b)" "next_bucket b' \<noteq> None"
        using make_next_bucket_spec [OF Suc.prems(1) None 3(2), of "add_fuel fuel"] add_fuel_room by blast
      then obtain nb where nb: "next_bucket b' = Some nb" by blast
      have "add_step (add_fuel fuel) b n = add_step (add_fuel fuel) b' n"
        using 3 None b' nb by (simp add: add_step_def)
      with below [OF b'(2) nb b'(4,3)] admits_cong [OF b'(6,3,5)] b' mset_eq_setD [OF b'(6)]
      show ?thesis by (auto simp: added_def)
    qed
  qed
qed

subsection \<open>Looking nodes up\<close>

text \<open>
  The order in which \<open>lookup\<close> collects nodes, before it stops at \<open>k\<close>: when the target does
  not belong to a bucket, the rest of the chain is collected before the bucket and, if
  there is room left, once more after it.
\<close>

fun visit_order :: "u160 \<Rightarrow> bucket \<Rightarrow> node_info list" where
  "visit_order i (Bucket own index k ns nx) =
     (case nx of
        None \<Rightarrow> ns
      | Some nb \<Rightarrow>
          if id_belongs_here (Bucket own index k ns nx) i then ns @ visit_order i nb
          else visit_order i nb @ ns @ visit_order i nb)"

lemma take_fill: "take k xs @ take (k - length (take k xs)) ys = take k (xs @ ys)"
  by (cases "length xs \<le> k") simp_all

lemma take_fill2:
  "take k (xs @ ys) @ take (k - length (take k (xs @ ys))) (take k zs) = take k (xs @ ys @ zs)"
  using take_fill [of k "xs @ ys" "zs"] by (simp add: take_take min_def)

lemma lookup_visit: "bucket_ok b \<Longrightarrow> lookup b i = Inr (take (unat (k_size b)) (visit_order i b))"
proof (induction b)
  case (Bucket own index k ns nx)
  show ?case
  proof (cases nx)
    case None
    then show ?thesis by (simp add: Let_def)
  next
    case (Some nb)
    with Bucket have IH: "lookup nb i = Inr (take (unat k) (visit_order i nb))" by simp
    show ?thesis
    proof (cases "id_belongs_here (Bucket own index k ns nx) i")
      case True
      then show ?thesis
        using Some IH take_fill2 [of "unat k" "[]" ns "visit_order i nb"] by (simp add: Let_def)
    next
      case False
      let ?V = "visit_order i nb"
      have "take (unat k) ?V @ take (unat k - length (take (unat k) ?V)) ns = take (unat k) (?V @ ns)"
        by (rule take_fill)
      with False show ?thesis
        using Some IH take_fill2 [of "unat k" ?V ns ?V] by (simp add: Let_def)
    qed
  qed
qed

lemma set_visit_order: "set (visit_order i b) = set (all_nodes b)"
proof (induction b)
  case (Bucket own index k ns nx)
  then show ?case by (cases nx) auto
qed

lemma length_visit_order: "length (all_nodes b) \<le> length (visit_order i b)"
proof (induction b)
  case (Bucket own index k ns nx)
  show ?case
  proof (cases nx)
    case (Some nb)
    with Bucket.IH [of nb] show ?thesis by auto
  qed simp
qed

text \<open>Two nodes of one bucket of the chain.\<close>

fun same_bucket :: "bucket \<Rightarrow> node_info \<Rightarrow> node_info \<Rightarrow> bool" where
  "same_bucket (Bucket own index k ns nx) x y =
     (x \<in> set ns \<and> y \<in> set ns \<or> (case nx of None \<Rightarrow> False | Some nb \<Rightarrow> same_bucket nb x y))"

lemma split_here_deeper:
  assumes "bucket_ok b" "next_bucket b = Some nb" "x \<in> set (nodes b)" "y \<in> set (all_nodes nb)"
  shows "if id_belongs_here b t then distance t (node_id x) < distance t (node_id y)
         else distance t (node_id y) < distance t (node_id x)"
proof -
  obtain own index k ns where b: "b = Bucket own index k ns (Some nb)" using assms(2) by (cases b) auto
  with assms have lx: "lead own (node_id x) = unat index" and i: "index \<le> 159" by auto
  have ly: "unat index < lead own (node_id y)" using deeper_lead [OF assms(1,2,4)] b by simp
  have "get_bit (distance own (node_id x)) index" "\<not> get_bit (distance own (node_id y)) index"
    using bit_lead [of index own] lx ly i by auto
  moreover have "\<not> get_bit (distance own (node_id x)) j" "\<not> get_bit (distance own (node_id y)) j" if "j < index" for j
    using lead_shared [of index own _ j] lx ly that by auto
  ultimately show ?thesis
    using u160.nearer_off_path [of index own "node_id x" "node_id y" t]
      u160.nearer_on_path [of index own "node_id x" "node_id y" t]
    by (auto simp: id_belongs_here_def b)
qed

text \<open>A list visited before and after a middle part: past its first copy, only the middle can be cut.\<close>

lemma take_around:
  assumes "x \<in> set (take m (vs @ ns @ vs))" "x \<notin> set (take m vs)"
    "y \<in> set ns \<or> y \<in> set vs" "y \<notin> set (take m (vs @ ns @ vs))"
  shows "x \<in> set ns \<and> y \<in> set ns"
proof -
  have m: "length vs \<le> m" using assms(1,2) by (cases "length vs \<le> m") auto
  with assms(3,4) have y: "y \<in> set ns" by auto
  with m assms(4) have "m - length vs < length ns" by (cases "m - length vs < length ns") auto
  with m assms(1,2) y show ?thesis by (auto dest: in_set_takeD)
qed

lemma take_after:
  assumes "x \<in> set (take m (ns @ vs))" "x \<notin> set (take m ns)"
  shows "length ns \<le> m \<and> x \<in> set (take (m - length ns) vs)"
  using assms by (cases "length ns \<le> m") auto

lemma visit_prefix_nearest:
  assumes "bucket_ok b" "x \<in> set (take m (visit_order t b))"
    "y \<in> set (all_nodes b)" "y \<notin> set (take m (visit_order t b))"
  shows "distance t (node_id x) < distance t (node_id y) \<or> same_bucket b x y"
  using assms
proof (induction b arbitrary: m)
  case (Bucket own index k ns nx)
  show ?case
  proof (cases nx)
    case None
    with Bucket.prems show ?thesis by (auto dest: in_set_takeD)
  next
    case (Some nb)
    let ?b = "Bucket own index k ns nx"
    have nb: "bucket_ok nb" using Bucket.prems(1) Some by simp
    have IH: "distance t (node_id x) < distance t (node_id y) \<or> same_bucket ?b x y"
      if "x \<in> set (take m' (visit_order t nb))" "y \<in> set (all_nodes nb)" "y \<notin> set (take m' (visit_order t nb))" for m'
      using Bucket.IH [of nb m'] nb Some that by auto
    note far = split_here_deeper [OF Bucket.prems(1), of nb]
    show ?thesis
    proof (cases "id_belongs_here ?b t")
      case True
      then have vo: "visit_order t ?b = ns @ visit_order t nb" using Some by simp
      show ?thesis
      proof (cases "x \<in> set (take m ns)")
        case x: True
        then show ?thesis using far [of x y t] True Bucket.prems(3) Some by (auto dest: in_set_takeD)
      next
        case x: False
        from take_after [OF Bucket.prems(2) [unfolded vo] x] show ?thesis
          using IH [of "m - length ns"] Bucket.prems(3,4) vo Some by auto
      qed
    next
      case False
      let ?V = "visit_order t nb"
      have vo: "visit_order t ?b = ?V @ ns @ ?V" using Some False by simp
      show ?thesis
      proof (cases "x \<in> set (take m ?V)")
        case True
        then have "x \<in> set (all_nodes nb)" using set_visit_order by (metis in_set_takeD)
        then show ?thesis
          using far [of y x t] False IH [of m] True Bucket.prems(3,4) vo Some by auto
      next
        case x: False
        then show ?thesis
          using take_around [OF Bucket.prems(2) [unfolded vo] x _ Bucket.prems(4) [unfolded vo]] Bucket.prems(3) Some
          by (auto simp: set_visit_order)
      qed
    qed
  qed
qed

subsection \<open>Removing a node\<close>

lemma set_vec_remove:
  assumes "distinct (map node_id ns)" "position (\<lambda>n. node_id n = i) ns = Some j"
  shows "set (vec_remove ns j) = {n \<in> set ns. node_id n \<noteq> i}" "distinct (map node_id (vec_remove ns j))"
proof -
  from position_Some [OF assms(2)] have j: "j < length ns" "node_id (ns ! j) = i" by auto
  have ns: "ns = take j ns @ ns ! j # drop (Suc j) ns" using j(1) by (rule id_take_nth_drop)
  have d: "distinct (map node_id (take j ns @ ns ! j # drop (Suc j) ns))" using assms(1) ns by simp
  show "distinct (map node_id (vec_remove ns j))" using d by (simp add: vec_remove_def)
  have "set ns = insert (ns ! j) (set (vec_remove ns j))"
    by (subst ns) (simp add: vec_remove_def)
  moreover have "i \<notin> node_id ` set (vec_remove ns j)"
    using d j(2) by (simp add: vec_remove_def image_Un)
  then have "\<forall>n\<in>set (vec_remove ns j). node_id n \<noteq> i" by (metis image_eqI)
  ultimately show "set (vec_remove ns j) = {n \<in> set ns. node_id n \<noteq> i}" using j(2) by auto
qed

lemma remove_spec:
  assumes "bucket_ok b" "unat (bucket_index b) \<le> lead (own_id b) i"
  shows "fst (remove b i) = (i \<in> ids b) \<and> bucket_ok (snd (remove b i)) \<and>
    own_id (snd (remove b i)) = own_id b \<and> bucket_index (snd (remove b i)) = bucket_index b \<and>
    k_size (snd (remove b i)) = k_size b \<and>
    set (all_nodes (snd (remove b i))) = {n \<in> set (all_nodes b). node_id n \<noteq> i}"
  using assms
proof (induction b)
  case (Bucket own index k ns nx)
  let ?b = "Bucket own index k ns nx"
  have d: "distinct (map node_id ns)" "length ns \<le> unat k" using Bucket.prems(1) by auto
  have here: "case position (\<lambda>n. node_id n = i) ns of
       Some j \<Rightarrow> i \<in> node_id ` set ns \<and> distinct (map node_id (vec_remove ns j)) \<and> length (vec_remove ns j) \<le> unat k \<and>
          set (vec_remove ns j) = {n \<in> set ns. node_id n \<noteq> i}
     | None \<Rightarrow> i \<notin> node_id ` set ns \<and> set ns = {n \<in> set ns. node_id n \<noteq> i}"
    using set_vec_remove [OF d(1), of i] position_Some [of "\<lambda>n. node_id n = i" ns] d(2)
    by (auto simp: position_None vec_remove_def split: option.split)
  show ?case
  proof (cases nx)
    case None
    then show ?thesis using Bucket.prems here by (auto simp: ids_def split: option.splits)
  next
    case (Some nb)
    have bel: "id_belongs_here ?b i \<longleftrightarrow> lead own i = unat index"
      using bit_lead [of index own i] Bucket.prems by (simp add: id_belongs_here_def)
    have deep: "unat index < lead own (node_id m)" if "m \<in> set (all_nodes nb)" for m
      using deeper_lead [OF Bucket.prems(1), of nb m] Some that by simp
    have ok: "bucket_ok nb" "own_id nb = own" "bucket_index nb = index + 1" "k_size nb = k" "index < 159"
      "\<forall>n\<in>set ns. lead own (node_id n) = unat index" using Bucket.prems(1) Some by auto
    show ?thesis
    proof (cases "id_belongs_here ?b i")
      case True
      have "\<forall>m\<in>set (all_nodes nb). node_id m \<noteq> i" using deep True bel by fastforce
      then show ?thesis using Bucket.prems here True Some by (auto simp: ids_def split: option.splits)
    next
      case False
      with bel Bucket.prems(2) have "unat (index + 1) \<le> lead own i" using ok by (simp add: unat_index_Suc)
      with Bucket.IH [of nb] Some ok have IH: "fst (remove nb i) = (i \<in> ids nb) \<and> bucket_ok (snd (remove nb i)) \<and>
        own_id (snd (remove nb i)) = own \<and> bucket_index (snd (remove nb i)) = index + 1 \<and>
        k_size (snd (remove nb i)) = k \<and>
        set (all_nodes (snd (remove nb i))) = {n \<in> set (all_nodes nb). node_id n \<noteq> i}" by simp
      have "\<forall>n\<in>set ns. node_id n \<noteq> i" using ok(6) bel False by auto
      with IH show ?thesis using Bucket.prems False Some by (auto simp: ids_def split: prod.splits)
    qed
  qed
qed

subsection \<open>Fuel\<close>

lemma split_loop_mono:
  assumes "\<And>b n r. f b n = Inr r \<Longrightarrow> g b n = Inr r"
  shows "split_loop f belongs ns index nb = Inr r \<Longrightarrow> split_loop g belongs ns index nb = Inr r"
proof (induction "length ns - index" arbitrary: ns index nb rule: less_induct)
  case less
  show ?case
  proof (cases "index < length ns \<and> \<not> belongs (ns ! index)")
    case True
    with less.prems obtain nb' where "f nb (fst (swap_remove ns index)) = Inr nb'"
      "split_loop f belongs (snd (swap_remove ns index)) index nb' = Inr r"
      by (auto simp: split_loop.simps [of f belongs ns index] split: sum.splits)
    moreover from this(1) have "g nb (fst (swap_remove ns index)) = Inr nb'" by (rule assms)
    moreover from True have "length (snd (swap_remove ns index)) - index < length ns - index" by auto
    ultimately show ?thesis
      using less.hyps [of "snd (swap_remove ns index)" index nb'] True
      by (simp add: split_loop.simps [of g belongs ns index])
  next
    case False
    with less.prems less.hyps [of ns "Suc index" nb] show ?thesis
      by (auto simp: split_loop.simps [of f belongs ns index] split_loop.simps [of g belongs ns index]
          split: if_splits)
  qed
qed

lemma make_next_bucket_mono:
  assumes "\<And>b n r. f b n = Inr r \<Longrightarrow> g b n = Inr r" and "make_next_bucket f b = Inr r"
  shows "make_next_bucket g b = Inr r"
proof (cases "bucket_index b = MAX_BUCKET_INDEX \<or> bucket_index b = 255 \<or> next_bucket b \<noteq> None")
  case False
  with assms(2) obtain q where "split_loop f (belongs_here b) (nodes b) 0
      (Bucket (own_id b) (bucket_index b + 1) (k_size b) [] None) = Inr q"
    "Inr (True, Bucket (own_id b) (bucket_index b) (k_size b) (fst q) (Some (snd q))) = (Inr r :: (bool \<times> bucket) res)"
    by (auto simp: make_next_bucket_def rbind_eq_Inr)
  with split_loop_mono [of f g, OF assms(1) this(1)] False show ?thesis
    by (auto simp: make_next_bucket_def split: prod.splits)
qed (use assms(2) in \<open>auto simp: make_next_bucket_def MAX_BUCKET_INDEX_def split: if_splits option.splits\<close>)

lemma add_step_mono:
  assumes "\<And>b n r. f b n = Inr r \<Longrightarrow> g b n = Inr r" and "add_step f b n = Inr r"
  shows "add_step g b n = Inr r"
proof (cases "next_bucket b = None \<and> length (nodes b) < unat (k_size b)")
  case False
  let ?m = "\<lambda>h. if next_bucket b = None \<and> length (nodes b) = unat (k_size b)
    then make_next_bucket h b else Inr (True, b)"
  let ?k = "\<lambda>h (made, b'). if \<not> made then Inr b'
      else if \<not> belongs_here b' n
      then (case next_bucket b' of
              None \<Rightarrow> Inl UnwrapNone
            | Some nb \<Rightarrow> rbind (h nb n) (\<lambda>nb'. Inr (with_next b' nb')))
      else Inr (add_or_update b' n)"
  have eq: "add_step h b n = rbind (?m h) (?k h)" for h
    using False by (simp only: add_step_def if_False)
  from assms(2) obtain q where q: "?m f = Inr q" "?k f q = Inr r"
    unfolding eq rbind_eq_Inr by blast
  from q(1) have "?m g = Inr q"
    using make_next_bucket_mono [of f g, OF assms(1)] by (auto split: if_splits)
  moreover have "?k g q = Inr r"
    using q(2) assms(1) by (cases q) (auto simp: rbind_eq_Inr split: if_splits option.splits)
  ultimately show ?thesis unfolding eq rbind_eq_Inr by blast
qed (use assms(2) in \<open>simp add: add_step_def\<close>)

lemma add_fuel_Suc: "add_fuel fuel b n = Inr r \<Longrightarrow> add_fuel (Suc fuel) b n = Inr r"
proof (induction fuel arbitrary: b n r)
  case (Suc fuel)
  then show ?case using add_step_mono [of "add_fuel fuel" "add_fuel (Suc fuel)" b n r] by simp
qed simp

lemma add_eq_step: "add b n = Inr r \<Longrightarrow> add_step add b n = Inr r"
proof -
  have "add_fuel 255 c m = Inr q \<Longrightarrow> add c m = Inr q" for c m q
    using add_fuel_Suc [of 255 c m q] by (simp add: add_def)
  moreover assume "add b n = Inr r"
  then have "add_step (add_fuel 255) b n = Inr r" by (simp add: add_def flip: add_fuel.simps(2))
  ultimately show ?thesis using add_step_mono [of "add_fuel 255" add] by blast
qed

lemma index_Suc_nonzero: "(index :: u8) \<le> 159 \<Longrightarrow> index + 1 \<noteq> 0"
  by (auto simp: word_le_nat_alt unat_word_ariths dest: arg_cong [of _ _ unat])

subsection \<open>Serialization\<close>

fun levels :: "bucket \<Rightarrow> node_info list list" where
  "levels (Bucket own index k ns nx) = ns # (case nx of None \<Rightarrow> [] | Some nb \<Rightarrow> levels nb)"

text \<open>\<open>PartialEq\<close> for buckets.\<close>

fun bucket_eq :: "bucket \<Rightarrow> bucket \<Rightarrow> bool" where
  "bucket_eq (Bucket own index k ns nx) (Bucket own' index' k' ns' nx') \<longleftrightarrow>
     own = own' \<and> index = index' \<and> k = k' \<and> ns = ns' \<and>
     (case (nx, nx') of (None, None) \<Rightarrow> True | (Some nb, Some nb') \<Rightarrow> bucket_eq nb nb' | _ \<Rightarrow> False)"

lemma bucket_eq_iff: "bucket_eq a b \<longleftrightarrow> a = b"
  by (induction a b rule: bucket_eq.induct) (auto split: option.split)

definition ser_nodes :: "node_info list \<Rightarrow> bval" where
  "ser_nodes ns = BList (map (\<lambda>n. BStr (node_serialize n)) ns)"

lemma levels_bound: "bucket_ok b \<Longrightarrow> unat (bucket_index b) + length (levels b) \<le> 160"
proof (induction b)
  case (Bucket own index k ns nx)
  show ?case
  proof (cases nx)
    case None
    then show ?thesis using Bucket.prems by (simp add: word_le_nat_alt)
  next
    case (Some nb)
    then show ?thesis using Bucket.prems Bucket.IH [of nb] by (auto simp: unat_index_Suc)
  qed
qed

lemma ser_df_eq:
  "unat depth + length (levels b) \<le> 65536 \<Longrightarrow>
   ser_df b depth = Inr (BInt (int (unat depth + length (levels b)) - 1) # map ser_nodes (rev (levels b)))"
proof (induction b arbitrary: depth)
  case (Bucket own index k ns nx)
  show ?case
  proof (cases nx)
    case None
    then show ?thesis by (simp add: ser_nodes_def)
  next
    case (Some nb)
    have "levels nb \<noteq> []" by (cases nb) simp
    with Bucket.prems Some have "unat depth < 65535" by (cases "levels nb") auto
    then have d: "depth \<noteq> 65535" "unat (depth + 1) = Suc (unat depth)"
      by (auto simp: unat_word_ariths)
    with Some Bucket.prems Bucket.IH [of nb "depth + 1"] show ?thesis
      by (simp add: ser_nodes_def)
  qed
qed

lemma de_node_list_ser: "\<forall>n\<in>set ns. plain_addr (node_addr n) \<Longrightarrow> de_node_list (ser_nodes ns) = Inr ns"
proof -
  assume "\<forall>n\<in>set ns. plain_addr (node_addr n)"
  then have "map_res (\<lambda>x. rbind (de_bytes x) node_visit_bytes) (map (\<lambda>n. BStr (node_serialize n)) ns) = Inr ns"
    by (induction ns) (simp_all add: de_bytes_def node_visit_serialize)
  then show ?thesis by (simp add: de_node_list_def ser_nodes_def)
qed

lemma de_buckets_append:
  "de_buckets own k index (xs @ ys) =
     rbind (de_buckets own k index xs) (\<lambda>bs. rbind (de_buckets own k (index - of_nat (length xs)) ys) (\<lambda>cs. Inr (bs @ cs)))"
proof (induction xs arbitrary: index)
  case Nil
  then show ?case by (simp add: res_simps)
next
  case (Cons x xs)
  then show ?case
    by (cases "de_elem de_node_list x") (simp_all add: res_simps algebra_simps)
qed

lemma link_buckets_snoc: "link_buckets bs = Some c \<Longrightarrow> link_buckets (bs @ [p]) = Some (with_next p c)"
  by (cases bs) auto

lemma de_buckets_levels:
  assumes "bucket_ok b" "\<forall>n\<in>set (all_nodes b). plain_addr (node_addr n)"
  shows "\<exists>bs. de_buckets (own_id b) (k_size b) (bucket_index b + of_nat (length (levels b))) (map ser_nodes (rev (levels b))) = Inr bs
     \<and> link_buckets bs = Some b"
  using assms
proof (induction b)
  case (Bucket own index k ns nx)
  show ?case
  proof (cases nx)
    case None
    have "index \<le> 159" using Bucket.prems(1) by simp
    then have "index + 1 \<noteq> 0" by (rule index_Suc_nonzero)
    with None Bucket.prems show ?thesis by (simp add: de_elem_def de_node_list_ser)
  next
    case (Some nb)
    have nb: "own_id nb = own" "k_size nb = k" "bucket_index nb = index + 1" "bucket_ok nb" "index < 159"
      using Bucket.prems(1) Some by auto
    with Some Bucket.prems Bucket.IH [of nb] obtain bs where
      bs: "de_buckets own k (index + 1 + of_nat (length (levels nb))) (map ser_nodes (rev (levels nb))) = Inr bs"
        "link_buckets bs = Some nb" by auto
    have "index + 1 \<noteq> 0" using nb(5) by (intro index_Suc_nonzero) simp
    then have "de_buckets own k (index + 1) [ser_nodes ns] = Inr [Bucket own index k ns None]"
      using Bucket.prems Some by (simp add: de_elem_def de_node_list_ser)
    with bs show ?thesis
      using Some link_buckets_snoc [OF bs(2), of "Bucket own index k ns None"]
      by (simp add: de_buckets_append algebra_simps with_next_def)
  qed
qed

lemma bucket_serde:
  assumes "bucket_ok b" "bucket_index b = 0" "\<forall>n\<in>set (all_nodes b). plain_addr (node_addr n)"
  shows "\<exists>es. bucket_serialize b = Inr es \<and> bucket_visit_seq es = Inr b"
proof -
  have len: "length (levels b) \<le> 160" using levels_bound [OF assms(1)] by simp
  have idx: "de_uint (BInt (int (length (levels b)))) = Inr (of_nat (length (levels b)) :: u8)"
    using len by (simp add: de_uint_def)
  from de_buckets_levels [OF assms(1,3)] assms(2) obtain bs where
    "de_buckets (own_id b) (k_size b) (of_nat (length (levels b))) (map ser_nodes (rev (levels b))) = Inr bs"
    "link_buckets bs = Some b" by auto
  then show ?thesis
    using ser_df_eq [of 1 b] len idx
    by (simp add: bucket_serialize_def bucket_visit_seq_def de_elem_def de_bytes_def)
qed

subsection \<open>The table as a whole\<close>

definition table_ok :: "bucket \<Rightarrow> bool" where
  "table_ok b \<longleftrightarrow> bucket_ok b \<and> bucket_index b = 0"

definition capacity :: "bucket \<Rightarrow> nat" where
  "capacity b = unat (k_size b)"

lemma root_table_ok: "2 \<le> k \<Longrightarrow> table_ok (root own k)"
  using root_ok [of k own] by (simp add: table_ok_def root_def)

lemma add_added:
  assumes "table_ok b"
  shows "\<exists>b'. add b n = Inr b' \<and> added b n b' \<and> table_ok b'"
  using add_fuel_added [of b n 256] assms by (auto simp: table_ok_def add_def added_def)

lemma ids_added: "added b n b' \<Longrightarrow> ids b' = (if admits b n then insert (node_id n) (ids b) else ids b)"
  by (auto simp: added_def ids_def)

lemma remove_table:
  assumes "table_ok b"
  shows "table_ok (snd (remove b i))" "ids (snd (remove b i)) = ids b - {i}"
    "fst (remove b i) \<longleftrightarrow> i \<in> ids b" "k_size (snd (remove b i)) = k_size b"
    "set (all_nodes (snd (remove b i))) = {n \<in> set (all_nodes b). node_id n \<noteq> i}"
  using remove_spec [of b i] assms by (auto simp: table_ok_def ids_def)

interpretation bucket: routing_table table_ok ids capacity node_id add remove lookup
proof unfold_locales
  fix b n i
  assume b: "table_ok b"
  from add_added [OF b, of n] ids_added
  show "\<exists>b'. add b n = Inr b' \<and> table_ok b' \<and> ids b \<subseteq> ids b' \<and>
      ids b' \<subseteq> insert (node_id n) (ids b) \<and> capacity b' = capacity b"
    by (fastforce simp: capacity_def added_def)
  from remove_table [OF b]
  show "table_ok (snd (remove b i)) \<and> ids (snd (remove b i)) = ids b - {i} \<and>
      (fst (remove b i) \<longleftrightarrow> i \<in> ids b) \<and> capacity (snd (remove b i)) = capacity b"
    by (simp add: capacity_def)
  have "bucket_ok b" using b by (simp add: table_ok_def)
  from lookup_visit [OF this] set_visit_order [of i b]
  show "\<exists>ns. lookup b i = Inr ns \<and> length ns \<le> capacity b \<and> node_id ` set ns \<subseteq> ids b"
    by (auto simp: capacity_def ids_def dest: in_set_takeD)
qed

lemma lead_eqI:
  assumes "d < 160" "get_bit (distance own x) (of_nat d)" "\<And>j. j < d \<Longrightarrow> \<not> get_bit (distance own x) (of_nat j)"
  shows "lead own x = d"
proof (rule antisym)
  show "lead own x \<le> d" using lead_below [of d own x] assms(2) not_le by blast
  show "d \<le> lead own x"
  proof (rule ccontr)
    assume "\<not> d \<le> lead own x"
    with lead_at [of own x] assms(1,3) show False by simp
  qed
qed

lemma lead_min:
  assumes "d < 128" "drop_bit (127 - d) m = 1"
  shows "lead u160_min (u160_new m ls) = d"
proof -
  have "distance u160_min (u160_new m ls) = u160_new m ls"
    by (simp add: u160_word_distance u160_word_ops flip: u160_word_inject)
  moreover have "get_bit (u160_new m ls) (of_nat j) \<longleftrightarrow> bit m (127 - j)" if "j < 128" for j
    using that by (auto simp: get_bit_word bit_u160_word u160_new_def unat_of_nat)
  moreover have "bit m (127 - j) \<longleftrightarrow> j = d" if "j \<le> d" for j
  proof -
    have "bit m (127 - j) \<longleftrightarrow> bit (drop_bit (127 - d) m) (d - j)"
      using that assms(1) by (simp add: bit_drop_bit_eq)
    then show ?thesis using assms(2) that by (auto simp: bit_1_iff)
  qed
  ultimately show ?thesis using assms(1) by (intro lead_eqI) auto
qed

definition ex_node :: "u128 \<Rightarrow> node_info" where
  "ex_node m = \<lparr>node_id = u160_new m 0, node_addr = SockV4 0 0\<rparr>"

definition ex_table :: "u8 \<Rightarrow> bucket" where
  "ex_table k = Bucket u160_min 0 k [ex_node 0x80000000000000000000000000000000]
     (Some (Bucket u160_min 1 k [ex_node 0x40000000000000000000000000000000, ex_node 0x40000000000000000000000000000001]
     (Some (Bucket u160_min 2 k [ex_node 0x20000000000000000000000000000000, ex_node 0x20000000000000000000000000000001,
        ex_node 0x20000000000000000000000000000002] None))))"

lemma lead_ex:
  "lead u160_min (u160_new 0x80000000000000000000000000000000 0) = 0"
  "lead u160_min (u160_new 0x40000000000000000000000000000000 0) = 1"
  "lead u160_min (u160_new 0x40000000000000000000000000000001 0) = 1"
  "lead u160_min (u160_new 0x20000000000000000000000000000000 0) = 2"
  "lead u160_min (u160_new 0x20000000000000000000000000000001 0) = 2"
  "lead u160_min (u160_new 0x20000000000000000000000000000002 0) = 2"
  by (rule lead_min; simp)+

lemma ex_table_ok: "table_ok (ex_table 8)"
  by (simp add: table_ok_def ex_table_def ex_node_def lead_ex) (simp add: u160_new_def)

lemma min_bits: "\<not> get_bit (distance u160_min u160_min) i"
  by (simp add: u160.dist_self_bit)

lemma ex_lookup: "lookup (ex_table 8) u160_min = Inr (map ex_node
  [0x20000000000000000000000000000000, 0x20000000000000000000000000000001, 0x20000000000000000000000000000002,
   0x40000000000000000000000000000000, 0x40000000000000000000000000000001,
   0x20000000000000000000000000000000, 0x20000000000000000000000000000001, 0x20000000000000000000000000000002])"
  by (simp add: ex_table_def id_belongs_here_def min_bits)
subsection \<open>Properties\<close>

text \<open>C3: \<open>Bucket::add\<close> on a well-formed table returns without panicking, keeps the table
  well-formed, and admits a new node exactly when its identifier is unknown and fewer than
  \<open>k\<close> known nodes share as many leading bits with the owner as it does; otherwise the set of
  known nodes, addresses included, is unchanged.  No known node is ever dropped by the
  splitting of a bucket.\<close>

theorem bucket_add_correct:
  assumes "table_ok b"
  shows "\<exists>b'. add b n = Inr b' \<and> table_ok b' \<and> own_id b' = own_id b \<and> k_size b' = k_size b \<and>
    set (all_nodes b') =
      (if node_id n \<notin> ids b \<and> class_size b (lead (own_id b) (node_id n)) < unat (k_size b)
       then insert n (set (all_nodes b)) else set (all_nodes b))"
  using add_added [OF assms, of n] by (auto simp: added_def admits_def)

theorem bucket_add_correct_witness:
  "\<exists>b'. add (root u160_min 8) (ex_node 1) = Inr b' \<and> table_ok b' \<and> set (all_nodes b') = {ex_node 1}"
proof -
  have ok: "table_ok (root u160_min 8)" by (rule root_table_ok) simp
  show ?thesis using bucket_add_correct [OF ok, of "ex_node 1"]
    by (auto simp: root_def ids_def class_size_def)
qed

text \<open>The fuel of the model is enough on every well-formed table: there \<open>add\<close> satisfies the
  recursive equation of the source, in which \<open>make_next_bucket\<close> and the descent call \<open>add\<close>
  itself.\<close>

theorem bucket_add_equation:
  assumes "table_ok b"
  shows "add b n = add_step add b n"
  using add_added [OF assms, of n] add_eq_step by metis

theorem bucket_add_equation_witness: "add (ex_table 8) (ex_node 1) = add_step add (ex_table 8) (ex_node 1)"
  by (rule bucket_add_equation [OF ex_table_ok])

text \<open>\<open>Bucket::remove\<close> on a well-formed table reports whether the identifier was known, and
  removes it and nothing else.\<close>

theorem bucket_remove_correct:
  assumes "table_ok b"
  shows "table_ok (snd (remove b i)) \<and> (fst (remove b i) \<longleftrightarrow> i \<in> ids b) \<and>
    set (all_nodes (snd (remove b i))) = {n \<in> set (all_nodes b). node_id n \<noteq> i}"
  using remove_table [OF assms] by simp

theorem bucket_remove_correct_witness:
  "fst (remove (ex_table 8) (node_id (ex_node 0x40000000000000000000000000000000)))"
proof -
  have "node_id (ex_node 0x40000000000000000000000000000000) \<in> ids (ex_table 8)"
    by (simp add: ids_def ex_table_def)
  then show ?thesis
    using bucket_remove_correct [OF ex_table_ok, of "node_id (ex_node 0x40000000000000000000000000000000)"]
    by blast
qed

text \<open>\<open>Bucket::lookup\<close> on a well-formed table never panics; it returns the first \<open>k\<close> entries
  of the visiting order, all of them known nodes, and at least as many entries as there
  are known nodes, up to \<open>k\<close>.\<close>

theorem bucket_lookup_correct:
  assumes "table_ok b"
  shows "\<exists>ns. lookup b t = Inr ns \<and> ns = take (unat (k_size b)) (visit_order t b) \<and>
    set ns \<subseteq> set (all_nodes b) \<and>
    min (unat (k_size b)) (length (all_nodes b)) \<le> length ns \<and> length ns \<le> unat (k_size b)"
proof -
  have "bucket_ok b" using assms by (simp add: table_ok_def)
  from lookup_visit [OF this, of t] set_visit_order [of t b] length_visit_order [of b t]
  show ?thesis by (auto dest: in_set_takeD)
qed

theorem bucket_lookup_correct_witness: "\<exists>ns. lookup (ex_table 8) u160_max = Inr ns \<and> 6 \<le> length ns \<and> length ns \<le> 8"
  using bucket_lookup_correct [OF ex_table_ok, of u160_max] by (auto simp: ex_table_def)

text \<open>C22: the nodes that \<open>lookup\<close> returns are nearest up to the granularity of a bucket: a known
  node that is left out is either farther from the target than every returned node or in
  the same bucket as the returned node it is compared with.\<close>

theorem bucket_lookup_nearest:
  assumes "table_ok b" "lookup b t = Inr ns" "x \<in> set ns" "y \<in> set (all_nodes b)" "y \<notin> set ns"
  shows "distance t (node_id x) < distance t (node_id y) \<or> same_bucket b x y"
proof -
  have "bucket_ok b" using assms(1) by (simp add: table_ok_def)
  then show ?thesis
    using lookup_visit [of b t] visit_prefix_nearest [of b x "unat (k_size b)" t y] assms(2-) by auto
qed

theorem bucket_lookup_nearest_witness:
  "distance u160_min (node_id (ex_node 0x20000000000000000000000000000001))
     < distance u160_min (node_id (ex_node 0x80000000000000000000000000000000)) \<or>
   same_bucket (ex_table 8) (ex_node 0x20000000000000000000000000000001) (ex_node 0x80000000000000000000000000000000)"
  by (rule bucket_lookup_nearest [OF ex_table_ok ex_lookup])
    (simp_all add: ex_table_def ex_node_def u160_new_def)

text \<open>\<open>lookup\<close> repeats nodes: when the target does not belong to the first bucket and the
  table has fewer than \<open>k\<close> entries to offer, the nodes of the deeper buckets are collected a
  second time.\<close>

theorem bucket_lookup_repeats:
  assumes "table_ok b" "next_bucket b = Some nb" "\<not> id_belongs_here b t" "all_nodes nb \<noteq> []"
    "length (visit_order t nb) + length (nodes b) < unat (k_size b)"
  shows "\<exists>ns. lookup b t = Inr ns \<and> \<not> distinct ns"
proof -
  obtain own index k ms where b: "b = Bucket own index k ms (Some nb)" using assms(2) by (cases b) auto
  let ?V = "visit_order t nb"
  have "lookup b t = Inr (take (unat k) ((?V @ ms) @ ?V))"
    using lookup_visit [of b t] assms(1,3) b by (simp add: table_ok_def)
  also have "take (unat k) ((?V @ ms) @ ?V) = (?V @ ms) @ take (unat k - length (?V @ ms)) ?V"
    using assms(5) b by simp
  finally have eq: "lookup b t = Inr ((?V @ ms) @ take (unat k - length (?V @ ms)) ?V)" .
  have "?V \<noteq> []" using assms(4) set_visit_order [of t nb] by auto
  then have "hd ?V \<in> set ?V" "hd ?V \<in> set (take (unat k - length (?V @ ms)) ?V)"
    using assms(5) b by (cases ?V; simp add: take_Cons')+
  with eq show ?thesis by (simp add: disjoint_iff) blast
qed

theorem bucket_lookup_repeats_witness: "\<exists>ns. lookup (ex_table 30) u160_min = Inr ns \<and> \<not> distinct ns"
proof -
  have "table_ok (ex_table 30)"
    by (simp add: table_ok_def ex_table_def ex_node_def lead_ex) (simp add: u160_new_def)
  then show ?thesis
    by (rule bucket_lookup_repeats [where nb = "the (next_bucket (ex_table 30))"])
      (simp_all add: ex_table_def id_belongs_here_def min_bits)
qed

text \<open>With \<open>K_SIZE\<close> 8 the repeated entries crowd out a node of a table of only six.\<close>

lemma bucket_lookup_omits_known:
  "length (all_nodes (ex_table 8)) = 6 \<and>
   ex_node 0x80000000000000000000000000000000 \<in> set (all_nodes (ex_table 8)) \<and>
   (\<forall>ns. lookup (ex_table 8) u160_min = Inr ns \<longrightarrow> ex_node 0x80000000000000000000000000000000 \<notin> set ns)"
  unfolding ex_lookup by (simp add: ex_table_def ex_node_def u160_new_def)

text \<open>A well-formed table survives being written and read back: deserializing the sequence
  that \<open>Serialize\<close> emits gives the same table, and neither direction panics.\<close>

theorem bucket_serde_roundtrip:
  assumes "table_ok b" "\<forall>n\<in>set (all_nodes b). plain_addr (node_addr n)"
  shows "\<exists>es. bucket_serialize b = Inr es \<and> bucket_visit_seq es = Inr b"
  using bucket_serde [of b] assms by (simp add: table_ok_def)

theorem bucket_serde_roundtrip_witness:
  "\<exists>es. bucket_serialize (ex_table 8) = Inr es \<and> bucket_visit_seq es = Inr (ex_table 8)"
  by (rule bucket_serde_roundtrip [OF ex_table_ok]) (simp add: ex_table_def ex_node_def)

end
