(* ===== verification/Router.thy ===== *)
theory Router
  imports Bucket
begin

text \<open>
  \<open>src/router.rs\<close>: the routing table with the identifiers that are kept out of it.  The calls
  that change a router are \<open>add\<close> and \<open>ban_id\<close>; a router that has only seen such calls is
  reachable, and the invariant is proved on the reachable ones through the contract
  \<open>routing_table\<close> of the table.
\<close>

definition BAN_COUNT :: nat where
  "BAN_COUNT = 100"

definition K_SIZE :: u8 where
  "K_SIZE = 8"

record router =
  buckets :: bucket
  banned_ids :: "u160 list"

text \<open>\<open>Bucket::load_from_file\<close> after the file has been opened and its bytes parsed into a
  sequence; \<open>Inl\<close> stands for a file that cannot be opened or parsed.\<close>

definition load_from_file :: "'e + bval list \<Rightarrow> (unit + bucket) res" where
  "load_from_file file =
     (case file of
        Inl e \<Rightarrow> Inr (Inl ())
      | Inr es \<Rightarrow>
          (case bucket_visit_seq es of
             Inl (DePanic f) \<Rightarrow> Inl f
           | Inl (DeErr e) \<Rightarrow> Inr (Inl ())
           | Inr b \<Rightarrow> Inr (Inr b)))"

definition router_new :: "'e + bval list \<Rightarrow> node_info \<Rightarrow> router res" where
  "router_new bucket_file node =
     rbind (load_from_file bucket_file) (\<lambda>loaded.
     Inr \<lparr>buckets = (case loaded of Inl _ \<Rightarrow> root (node_id node) K_SIZE | Inr b \<Rightarrow> b),
          banned_ids = []\<rparr>)"

definition router_own_id :: "router \<Rightarrow> u160" where
  "router_own_id r = own_id (buckets r)"

definition router_add :: "router \<Rightarrow> node_info \<Rightarrow> router res" where
  "router_add r node =
     (if node_id node \<notin> set (banned_ids r)
      then rbind (add (buckets r) node) (\<lambda>b. Inr (r\<lparr>buckets := b\<rparr>))
      else Inr r)"

definition router_lookup :: "router \<Rightarrow> u160 \<Rightarrow> node_info list res" where
  "router_lookup r i = lookup (buckets r) i"

definition push_banned :: "u160 list \<Rightarrow> u160 \<Rightarrow> u160 list" where
  "push_banned bnd i =
     (let bnd' = bnd @ [i] in if length bnd' = BAN_COUNT then tl bnd' else bnd')"

definition ban_id :: "router \<Rightarrow> u160 \<Rightarrow> router" where
  "ban_id r i =
     r\<lparr>banned_ids := push_banned (banned_ids r) i, buckets := snd (remove (buckets r) i)\<rparr>"

definition router_stats :: "router \<Rightarrow> nat \<times> nat" where
  "router_stats r = stats (buckets r)"

inductive router_step :: "router \<Rightarrow> router \<Rightarrow> bool" where
  step_add: "router_add r node = Inr r' \<Longrightarrow> router_step r r'"
| step_ban: "router_step r (ban_id r i)"

inductive_cases router_stepE: "router_step r r'"

inductive router_reachable :: "node_info \<Rightarrow> router \<Rightarrow> bool" for node :: node_info where
  reach_new: "router_new (Inl e :: unit + bval list) node = Inr r \<Longrightarrow> router_reachable node r"
| reach_step: "router_reachable node r \<Longrightarrow> router_step r r' \<Longrightarrow> router_reachable node r'"

subsection \<open>Invariant\<close>

definition router_ok :: "router \<Rightarrow> bool" where
  "router_ok r \<longleftrightarrow> table_ok (buckets r) \<and> length (banned_ids r) < BAN_COUNT \<and>
     set (banned_ids r) \<inter> ids (buckets r) = {}"

lemma router_new_empty: "router_new (Inl e) node = Inr \<lparr>buckets = root (node_id node) K_SIZE, banned_ids = []\<rparr>"
  by (simp add: router_new_def load_from_file_def)

lemma router_ok_new: "router_ok \<lparr>buckets = root i K_SIZE, banned_ids = []\<rparr>"
  using root_table_ok [of K_SIZE i] by (simp add: router_ok_def K_SIZE_def BAN_COUNT_def)

lemma push_banned_props:
  assumes "length bnd < BAN_COUNT"
  shows "length (push_banned bnd i) < BAN_COUNT" "i \<in> set (push_banned bnd i)"
    "set (push_banned bnd i) \<subseteq> insert i (set bnd)"
  using assms by (cases bnd; auto simp: push_banned_def BAN_COUNT_def Let_def)+

lemma router_add_total: "router_ok r \<Longrightarrow> \<exists>r'. router_add r node = Inr r'"
  using bucket.add_ok [of "buckets r" node] by (auto simp: router_ok_def router_add_def)

lemma router_add_ok: "router_ok r \<Longrightarrow> router_add r node = Inr r' \<Longrightarrow>
    router_ok r' \<and> banned_ids r' = banned_ids r \<and> capacity (buckets r') = capacity (buckets r)"
  using bucket.add_disjoint [of "buckets r" "set (banned_ids r)" node]
  by (auto simp: router_ok_def router_add_def rbind_eq_Inr split: if_splits)

lemma ban_id_ok: "router_ok r \<Longrightarrow> router_ok (ban_id r i) \<and> capacity (buckets (ban_id r i)) = capacity (buckets r)"
  using bucket.remove_ok [of "buckets r" i] bucket.remove_disjoint [of "buckets r" "set (banned_ids r)" i]
    push_banned_props [of "banned_ids r" i]
  by (auto simp: router_ok_def ban_id_def)

lemma router_step_ok: "router_step r r' \<Longrightarrow> router_ok r \<Longrightarrow>
    router_ok r' \<and> capacity (buckets r') = capacity (buckets r)"
  by (elim router_stepE) (use router_add_ok ban_id_ok in blast)+

lemma router_reachable_ok: "router_reachable node r \<Longrightarrow> router_ok r \<and> capacity (buckets r) = 8"
proof (induction rule: router_reachable.induct)
  case (reach_new e r)
  then have "r = \<lparr>buckets = root (node_id node) K_SIZE, banned_ids = []\<rparr>" by (simp add: router_new_empty)
  then show ?case using router_ok_new [of "node_id node"] by (simp add: capacity_def root_def K_SIZE_def)
next
  case (reach_step r r')
  then show ?case using router_step_ok by metis
qed

lemma push_banned_window:
  assumes "length bnd < BAN_COUNT"
  shows "push_banned bnd i = drop (length (bnd @ [i]) - 99) (bnd @ [i])"
  using assms by (cases bnd) (auto simp: push_banned_def BAN_COUNT_def Let_def)

lemma banned_window:
  assumes "length (banned_ids r) < BAN_COUNT"
  shows "banned_ids (fold (\<lambda>i r. ban_id r i) is r) =
     drop (length (banned_ids r @ is) - 99) (banned_ids r @ is)"
  using assms
proof (induction "is" arbitrary: r)
  case Nil
  then show ?case by (simp add: BAN_COUNT_def)
next
  case (Cons i "is")
  let ?b = "banned_ids r"
  have w: "banned_ids (ban_id r i) = drop (length (?b @ [i]) - 99) (?b @ [i])"
    using push_banned_window [OF Cons.prems] by (simp add: ban_id_def)
  have "length (banned_ids (ban_id r i)) < BAN_COUNT"
    using push_banned_props(1) [OF Cons.prems] by (simp add: ban_id_def)
  note ih = Cons.IH [OF this]
  show ?case
  proof (cases "length ?b = 99")
    case True
    then have "?b \<noteq> []" by auto
    with True ih w show ?thesis by (cases ?b) simp_all
  next
    case False
    with Cons.prems have "length ?b \<le> 98" by (simp add: BAN_COUNT_def)
    with ih w show ?thesis by simp
  qed
qed

subsection \<open>Properties\<close>

text \<open>C24: in every state a router can reach from an empty table by \<open>add\<close> and \<open>ban_id\<close>, in any
  order, the table is well-formed, at most 99 identifiers are banned and no banned
  identifier is in the table.\<close>

theorem router_reachable_invariant:
  assumes "router_reachable node r"
  shows "table_ok (buckets r) \<and> length (banned_ids r) < BAN_COUNT \<and>
    set (banned_ids r) \<inter> ids (buckets r) = {}"
  using router_reachable_ok [OF assms] by (simp add: router_ok_def)

lemma reachable_start:
  "router_reachable node \<lparr>buckets = root (node_id node) K_SIZE, banned_ids = []\<rparr>"
  by (rule reach_new) (rule router_new_empty)

lemma reachable_banned:
  "router_reachable node (ban_id \<lparr>buckets = root (node_id node) K_SIZE, banned_ids = []\<rparr> i)"
  by (rule reach_step [OF reachable_start step_ban])

theorem router_reachable_invariant_witness:
  "set (banned_ids (ban_id \<lparr>buckets = root u160_min K_SIZE, banned_ids = []\<rparr> u160_max)) \<inter>
   ids (buckets (ban_id \<lparr>buckets = root u160_min K_SIZE, banned_ids = []\<rparr> u160_max)) = {}"
  using router_reachable_invariant [OF reachable_banned [of "\<lparr>node_id = u160_min, node_addr = SockV4 0 0\<rparr>" u160_max]]
  by simp

text \<open>On a reachable router \<open>add\<close> and \<open>lookup\<close> never panic, and \<open>lookup\<close> returns at most
  \<open>K_SIZE\<close> entries, none of them banned.\<close>

theorem router_safe:
  assumes "router_reachable node r"
  shows "(\<exists>r'. router_add r n = Inr r') \<and>
    (\<exists>ns. router_lookup r t = Inr ns \<and> length ns \<le> 8 \<and> (\<forall>m\<in>set ns. node_id m \<notin> set (banned_ids r)))"
proof -
  have r: "router_ok r" "capacity (buckets r) = 8" using router_reachable_ok [OF assms] by auto
  then have "table_ok (buckets r)" "set (banned_ids r) \<inter> ids (buckets r) = {}" by (simp_all add: router_ok_def)
  with bucket.lookup_ok [of "buckets r" t] bucket.lookup_avoids [of "buckets r" "set (banned_ids r)" t] r
    router_add_total [OF r(1), of n]
  show ?thesis by (auto simp: router_lookup_def)
qed

theorem router_safe_witness:
  "\<exists>ns. router_lookup (ban_id \<lparr>buckets = root u160_min K_SIZE, banned_ids = []\<rparr> u160_max) u160_max = Inr ns \<and> length ns \<le> 8"
  using router_safe [OF reachable_banned [of "\<lparr>node_id = u160_min, node_addr = SockV4 0 0\<rparr>" u160_max],
      of "\<lparr>node_id = u160_min, node_addr = SockV4 0 0\<rparr>" u160_max] by auto

text \<open>Banning an identifier removes exactly it from the table and makes \<open>add\<close> ignore nodes
  that carry it.\<close>

theorem ban_id_correct:
  assumes "router_ok r"
  shows "set (all_nodes (buckets (ban_id r i))) = {n \<in> set (all_nodes (buckets r)). node_id n \<noteq> i} \<and>
    i \<in> set (banned_ids (ban_id r i)) \<and>
    (\<forall>n. node_id n = i \<longrightarrow> router_add (ban_id r i) n = Inr (ban_id r i))"
  using remove_table(5) [of "buckets r" i] push_banned_props(2) [of "banned_ids r" i] assms
  by (auto simp: router_ok_def ban_id_def router_add_def)

theorem ban_id_correct_witness:
  "u160_max \<in> set (banned_ids (ban_id \<lparr>buckets = root u160_min K_SIZE, banned_ids = []\<rparr> u160_max))"
  using ban_id_correct [OF router_ok_new [of u160_min], of u160_max] by blast

text \<open>The router remembers exactly the last 99 bans (one less than \<open>BAN_COUNT\<close>), repeated ones
  counted each time.\<close>

theorem ban_window:
  assumes "length (banned_ids r) < BAN_COUNT"
  shows "banned_ids (fold (\<lambda>i r. ban_id r i) is r) =
     drop (length (banned_ids r @ is) - 99) (banned_ids r @ is)"
  by (rule banned_window [OF assms])

theorem ban_window_witness:
  "banned_ids (fold (\<lambda>i r. ban_id r i) [u160_min, u160_max] \<lparr>buckets = root u160_min K_SIZE, banned_ids = []\<rparr>)
     = [u160_min, u160_max]"
  using ban_window [of "\<lparr>buckets = root u160_min K_SIZE, banned_ids = []\<rparr>" "[u160_min, u160_max]"]
  by (simp add: BAN_COUNT_def)

text \<open>A router started from the file of a well-formed table has that table, and keeps its
  owner's identifier rather than the identifier of the node it is started for.\<close>

theorem router_restart:
  assumes "table_ok b" "\<forall>n\<in>set (all_nodes b). plain_addr (node_addr n)" "bucket_serialize b = Inr es"
  shows "router_new (Inr es) node = Inr \<lparr>buckets = b, banned_ids = []\<rparr> \<and>
    (\<forall>r. router_new (Inr es) node = Inr r \<longrightarrow> router_own_id r = own_id b)"
  using bucket_serde [of b] assms
  by (auto simp: table_ok_def router_new_def load_from_file_def router_own_id_def)

theorem router_restart_witness:
  "\<exists>es. bucket_serialize (ex_table 8) = Inr es \<and>
    router_new (Inr es) \<lparr>node_id = u160_max, node_addr = SockV4 0 0\<rparr> = Inr \<lparr>buckets = ex_table 8, banned_ids = []\<rparr>"
proof -
  have p: "\<forall>n\<in>set (all_nodes (ex_table 8)). plain_addr (node_addr n)" by (simp add: ex_table_def ex_node_def)
  obtain es where es: "bucket_serialize (ex_table 8) = Inr es"
    using bucket_serde [of "ex_table 8"] ex_table_ok p by (auto simp: table_ok_def)
  with router_restart [OF ex_table_ok p es] show ?thesis by blast
qed

end
