(* ===== verification/Token.thy ===== *)
theory Token
  imports U160
begin

text \<open>
  \<open>src/node/token.rs\<close>: the tokens that \<open>get_peers\<close> hands out and \<open>announce_peer\<close> has to
  present.  The crates \<open>crc32c\<close> and \<open>chacha20\<close> are parameters: \<open>crc32c\<close> is a function of the
  bytes, \<open>apply_keystream\<close> a function of key, nonce and buffer of which \<open>stream_cipher\<close> says
  what a stream cipher does (it keeps the length and undoes itself).  The random bytes and the
  clock (\<open>None\<close>: set before 1970) are arguments.
\<close>

type_synonym keystream = "bytes \<Rightarrow> bytes \<Rightarrow> bytes \<Rightarrow> bytes"

definition TOKEN_VALID_SECONDS :: u64 where
  "TOKEN_VALID_SECONDS = 120"

record token_generator =
  token_key :: bytes

text \<open>\<open>TokenGenerator::new\<close>, with the 32 random bytes it draws.\<close>

definition token_generator_new :: "bytes \<Rightarrow> token_generator" where
  "token_generator_new key = \<lparr>token_key = key\<rparr>"

definition token_generate ::
  "(bytes \<Rightarrow> u32) \<Rightarrow> keystream \<Rightarrow> bytes \<Rightarrow> u64 option \<Rightarrow> token_generator \<Rightarrow> ip_addr \<Rightarrow> bytes res" where
  "token_generate crc32c apply_keystream rand_bytes clock g ip =
     (case clock of
        None \<Rightarrow> Inl UnwrapErr
      | Some now \<Rightarrow>
          let timestamp = to_be_bytes 8 now;
              ipbytes = octets ip @ timestamp @ rand_bytes;
              iphash = to_be_bytes 4 (crc32c ipbytes);
              nonce = iphash @ rand_bytes
          in Inr (nonce @ apply_keystream (token_key g) nonce timestamp))"

definition token_validate ::
  "(bytes \<Rightarrow> u32) \<Rightarrow> keystream \<Rightarrow> u64 option \<Rightarrow> token_generator \<Rightarrow> bytes \<Rightarrow> ip_addr \<Rightarrow> bool res" where
  "token_validate crc32c apply_keystream clock g token ip =
     (if length token \<noteq> 20 then Inr False
      else
        let nonce = take 12 token;
            timestamp = apply_keystream (token_key g) nonce (drop 12 token);
            token_timestamp = from_be_bytes timestamp :: u64;
            rand_bytes = drop 4 nonce;
            ipbytes = octets ip @ timestamp @ rand_bytes;
            iphash_test = take 4 nonce;
            iphash = to_be_bytes 4 (crc32c ipbytes)
        in case clock of
             None \<Rightarrow> Inl UnwrapErr
           | Some now \<Rightarrow>
               if iphash \<noteq> iphash_test then Inr False
               else if \<not> token_timestamp \<le> now then Inr False
               else if unat token_timestamp + unat TOKEN_VALID_SECONDS \<ge> 2 ^ 64 then Inl ArithOverflow
               else Inr (token_timestamp + TOKEN_VALID_SECONDS > now))"

subsection \<open>Laws\<close>

definition stream_cipher :: "keystream \<Rightarrow> bool" where
  "stream_cipher ks \<longleftrightarrow> (\<forall>k n d. length (ks k n d) = length d \<and> ks k n (ks k n d) = d)"

lemma stream_cipherD:
  assumes "stream_cipher ks"
  shows "length (ks k n d) = length d" "ks k n (ks k n d) = d"
  using assms by (simp_all add: stream_cipher_def)

lemma add_valid_no_wrap:
  assumes "unat (t :: u64) + 120 < 2 ^ 64"
  shows "now < t + TOKEN_VALID_SECONDS \<longleftrightarrow> unat now < unat t + 120"
proof -
  have "unat (t + 120) = unat t + 120"
    using assms by (subst unat_add_lem [THEN iffD1]) simp_all
  then show ?thesis by (simp add: TOKEN_VALID_SECONDS_def word_less_nat_alt)
qed

lemma token_generate_ok:
  assumes "stream_cipher ks" "length rnd = 8"
  shows "\<exists>token. token_generate crc ks rnd (Some t) g ip = Inr token \<and> length token = 20"
  using assms by (simp add: token_generate_def Let_def stream_cipherD)

lemma token_validate_generated:
  assumes "stream_cipher ks" "length rnd = 8" "unat t + 120 < 2 ^ 64"
    "token_generate crc ks rnd (Some t) g ip = Inr token"
  shows "token_validate crc ks (Some now) g token ip' =
    Inr (crc (octets ip' @ to_be_bytes 8 t @ rnd) = crc (octets ip @ to_be_bytes 8 t @ rnd) \<and>
         t \<le> now \<and> unat now < unat t + 120)"
proof -
  have inj: "to_be_bytes 4 a = to_be_bytes 4 b \<longleftrightarrow> a = b" for a b :: u32
    using to_be_bytes_inj [of 4 a b] by auto
  show ?thesis
    using assms add_valid_no_wrap [OF assms(3), of now]
    by (auto simp: token_generate_def token_validate_def Let_def stream_cipherD be_simps
        inj not_le TOKEN_VALID_SECONDS_def)
qed

lemma token_accepted:
  assumes ks: "stream_cipher ks" and acc: "token_validate crc ks (Some now) g token ip = Inr True"
  shows "\<exists>rnd t. length rnd = 8 \<and> token_generate crc ks rnd (Some t) g ip = Inr token \<and>
    t \<le> now \<and> unat now < unat t + 120"
proof -
  let ?nonce = "take 12 token"
  let ?ts = "ks (token_key g) ?nonce (drop 12 token)"
  let ?t = "from_be_bytes ?ts :: u64"
  let ?rnd = "drop 4 ?nonce"
  have len: "length token = 20" using acc by (auto simp: token_validate_def split: if_splits)
  then have lts: "length ?ts = 8" by (simp add: stream_cipherD [OF ks])
  have hash: "to_be_bytes 4 (crc (octets ip @ ?ts @ ?rnd)) = take 4 ?nonce"
    and le: "?t \<le> now" and gt: "?t + TOKEN_VALID_SECONDS > now" and nw: "unat ?t + 120 < 2 ^ 64"
    using acc len by (auto simp: token_validate_def Let_def TOKEN_VALID_SECONDS_def not_le split: if_splits)
  have ts: "to_be_bytes 8 ?t = ?ts" using lts by (simp add: to_from_be_bytes)
  have nonce: "take 4 ?nonce @ ?rnd = ?nonce" by (rule append_take_drop_id)
  have "token_generate crc ks ?rnd (Some ?t) g ip = Inr (?nonce @ ks (token_key g) ?nonce ?ts)"
    unfolding token_generate_def by (simp only: option.case Let_def ts hash nonce)
  also have "ks (token_key g) ?nonce ?ts = drop 12 token" by (rule stream_cipherD(2) [OF ks])
  finally have "token_generate crc ks ?rnd (Some ?t) g ip = Inr token" by simp
  moreover have "length ?rnd = 8" using len by simp
  moreover have "unat now < unat ?t + 120" using gt add_valid_no_wrap [OF nw] by simp
  ultimately show ?thesis using le by blast
qed

lemma token_validate_total:
  assumes "unat now + 120 < 2 ^ 64"
  shows "\<exists>b. token_validate crc ks (Some now) g token ip = Inr b"
  using assms by (auto simp: token_validate_def Let_def TOKEN_VALID_SECONDS_def word_le_nat_alt not_le)

lemma token_validate_iff:
  assumes ks: "stream_cipher ks" and now: "unat now + 120 < 2 ^ 64"
  shows "token_validate crc ks (Some now) g token ip =
    Inr (\<exists>rnd t. length rnd = 8 \<and> token_generate crc ks rnd (Some t) g ip = Inr token \<and>
           t \<le> now \<and> unat now < unat t + 120)" (is "_ = Inr ?P")
proof -
  obtain b where b: "token_validate crc ks (Some now) g token ip = Inr b"
    using token_validate_total [OF now] by blast
  have "b = ?P"
  proof
    assume b then show ?P using token_accepted [OF ks, of crc now g token ip] b by simp
  next
    assume ?P
    then obtain rnd t where *: "length rnd = 8" "token_generate crc ks rnd (Some t) g ip = Inr token"
      "t \<le> now" "unat now < unat t + 120" by blast
    then have "unat t + 120 < 2 ^ 64" using now by (simp add: word_le_nat_alt)
    from token_validate_generated [OF ks *(1) this *(2), of now ip] *(3,4) b show b by simp
  qed
  with b show ?thesis by simp
qed

subsection \<open>Properties\<close>

text \<open>The exclusive or with a constant byte is a stream cipher; the witnesses use it and the
  sum of the bytes as a checksum.\<close>

definition xor_stream :: keystream where
  "xor_stream k n d = map (\<lambda>b. b XOR 0x5A) d"

definition sum_check :: "bytes \<Rightarrow> u32" where
  "sum_check bs = sum_list (map ucast bs)"

lemma xor_stream_cipher: "stream_cipher xor_stream"
proof -
  have "(b XOR 0x5A) XOR 0x5A = b" for b :: u8 by (simp add: xor.assoc)
  then show ?thesis by (simp add: stream_cipher_def xor_stream_def o_def)
qed

text \<open>C10: a node accepts exactly the tokens that it could itself have issued to that address
  during the last 120 seconds, and the check never panics, whatever bytes are presented.\<close>

theorem token_accepted_iff_issued:
  assumes "stream_cipher apply_keystream" and "unat now + 120 < 2 ^ 64"
  shows "token_validate crc32c apply_keystream (Some now) g token ip =
    Inr (\<exists>rnd t. length rnd = 8 \<and> token_generate crc32c apply_keystream rnd (Some t) g ip = Inr token \<and>
           t \<le> now \<and> unat now < unat t + 120)"
  by (rule token_validate_iff [OF assms])

theorem token_accepted_iff_issued_witness:
  "token_validate sum_check xor_stream (Some 1000) \<lparr>token_key = []\<rparr> (replicate 20 0) (V4 0) =
    Inr (\<exists>rnd t. length rnd = 8 \<and>
           token_generate sum_check xor_stream rnd (Some t) \<lparr>token_key = []\<rparr> (V4 0) = Inr (replicate 20 0) \<and>
           t \<le> 1000 \<and> unat (1000 :: u64) < unat t + 120)"
  using token_accepted_iff_issued [OF xor_stream_cipher, of 1000] by simp

text \<open>A token issued at \<open>t\<close> is presented from an address \<open>ip'\<close> at \<open>now\<close>: it is accepted exactly
  when \<open>now\<close> is in \<open>[t, t + 120)\<close> and the checksum cannot tell \<open>ip'\<close> from the address it was issued
  to; in particular the address it was issued to can use it for 120 seconds.\<close>

theorem token_lifetime:
  assumes "stream_cipher apply_keystream" "length rnd = 8" "unat t + 120 < 2 ^ 64"
    "token_generate crc32c apply_keystream rnd (Some t) g ip = Inr token"
  shows "token_validate crc32c apply_keystream (Some now) g token ip' =
    Inr (crc32c (octets ip' @ to_be_bytes 8 t @ rnd) = crc32c (octets ip @ to_be_bytes 8 t @ rnd) \<and>
         t \<le> now \<and> unat now < unat t + 120)"
  by (rule token_validate_generated [OF assms])

theorem token_lifetime_witness:
  "\<exists>token. token_generate sum_check xor_stream (replicate 8 7) (Some 1000) \<lparr>token_key = []\<rparr> (V4 1) = Inr token \<and>
     token_validate sum_check xor_stream (Some 1119) \<lparr>token_key = []\<rparr> token (V4 1) = Inr True \<and>
     token_validate sum_check xor_stream (Some 1120) \<lparr>token_key = []\<rparr> token (V4 1) = Inr False \<and>
     token_validate sum_check xor_stream (Some 1000) \<lparr>token_key = []\<rparr> token (V4 2) = Inr False"
proof -
  obtain token where token:
    "token_generate sum_check xor_stream (replicate 8 7) (Some 1000) \<lparr>token_key = []\<rparr> (V4 1) = Inr token"
    using token_generate_ok [OF xor_stream_cipher, of "replicate 8 7" sum_check 1000 _ "V4 1"] by auto
  have lt: "unat (1000 :: u64) + 120 < 2 ^ 64" by simp
  have ne: "sum_check (octets (V4 2) @ to_be_bytes 8 (1000 :: u64) @ replicate 8 7) \<noteq>
      sum_check (octets (V4 1) @ to_be_bytes 8 (1000 :: u64) @ replicate 8 7)"
    by code_simp
  note use = token_lifetime [OF xor_stream_cipher _ lt token]
  show ?thesis using use [of 1119 "V4 1"] use [of 1120 "V4 1"] use [of 1000 "V4 2"] token ne by auto
qed

end
