(* ===== verification/Kmsg.thy ===== *)
theory Kmsg
  imports Wire "HOL-Library.Multiset" "HOL-Library.Sublist" "HOL-Library.Char_ord" "HOL-Library.List_Lexorder"
begin

text \<open>
  The records of \<open>kmsg.rs\<close> and \<open>kmsg/kresponse.rs\<close> and the serde implementations their
  attributes ask for, as trees \<open>bval\<close>: \<open>rename\<close> gives the key, \<open>skip_serializing_if\<close> leaves an
  absent value out, \<open>flatten\<close> puts the fields of a nested record among those of the outer one,
  \<open>serialize_with\<close>, \<open>deserialize_with\<close> and \<open>with\<close> name the codec.  Deserializing ignores keys
  that no field has, refuses a field that comes twice, and takes the default for an absent
  optional field.  Every failure of the deserializer is handled alike by \<open>Message::receive\<close>,
  so it is \<open>None\<close> here.
\<close>

type_synonym i64 = "64 word"

subsection \<open>Records\<close>

record message_args_bep44 =
  args_v :: "bytes option"
  args_seq :: "i64 option"
  args_cas :: "i64 option"
  args_k :: "bytes option"
  args_salt :: "string option"
  args_sig :: "bytes option"

record message_args =
  args_id :: u160
  args_target :: "u160 option"
  args_port :: "u16 option"
  args_implied_port :: "bool option"
  args_token :: "bytes option"
  args_info_hash :: "u160 option"
  args_bep44 :: message_args_bep44

record kresponse_bep44 =
  res_v :: "bytes option"
  res_seq :: "i64 option"
  res_k :: "bytes option"
  res_sig :: "bytes option"

record response_bep51 =
  res_interval :: "u16 option"
  res_samples :: "compact_info_hashes option"
  res_num :: "u64 option"

record kresponse =
  res_id :: u160
  res_nodes :: "compact_ipv4_node_info option"
  res_token :: "bytes option"
  res_values :: "socket_addr_wrapper list option"
  res_bep44 :: kresponse_bep44
  res_bep51 :: response_bep51

record kmessage =
  k_transaction_id :: bytes
  k_message_type :: string
  k_query_method :: "string option"
  k_arguments :: "message_args option"
  k_response :: "kresponse option"
  k_error :: "kerror option"
  k_requestor_ip :: "socket_addr_wrapper option"
  k_read_only :: "bool option"
  k_version :: "bytes option"

definition Q_ANNOUNCE_PEER :: string where "Q_ANNOUNCE_PEER = ''announce_peer''"
definition Q_PING :: string where "Q_PING = ''ping''"
definition Q_FIND_NODE :: string where "Q_FIND_NODE = ''find_node''"
definition Q_GET_PEERS :: string where "Q_GET_PEERS = ''get_peers''"
definition Q_PUT :: string where "Q_PUT = ''put''"
definition Q_GET :: string where "Q_GET = ''get''"
definition Q_SAMPLE_INFOHASHES :: string where "Q_SAMPLE_INFOHASHES = ''sample_infohashes''"
definition Y_QUERY :: string where "Y_QUERY = ''q''"
definition Y_RESPONSE :: string where "Y_RESPONSE = ''r''"
definition Y_ERROR :: string where "Y_ERROR = ''e''"

subsection \<open>Serialize\<close>

definition opt_field :: "string \<Rightarrow> ('a \<Rightarrow> bval) \<Rightarrow> 'a option \<Rightarrow> (string \<times> bval) list" where
  "opt_field key ser value = (case value of None \<Rightarrow> [] | Some a \<Rightarrow> [(key, ser a)])"

definition map_opt_res :: "('a \<Rightarrow> 'b res) \<Rightarrow> 'a option \<Rightarrow> 'b option res" where
  "map_opt_res ser value =
     (case value of None \<Rightarrow> Inr None | Some a \<Rightarrow> rbind (ser a) (\<lambda>v. Inr (Some v)))"

definition ser_uint :: "'a::len word \<Rightarrow> bval" where
  "ser_uint w = BInt (uint w)"

definition ser_i64 :: "i64 \<Rightarrow> bval" where
  "ser_i64 w = BInt (sint w)"

definition ser_string :: "string \<Rightarrow> bval" where
  "ser_string s = BStr (str_bytes s)"

definition ser_u160 :: "u160 \<Rightarrow> bval" where
  "ser_u160 a = BStr (u160_serialize a)"

definition ser_addr :: "socket_addr_wrapper \<Rightarrow> bval" where
  "ser_addr w = BStr (addr_serialize w)"

definition args_bep44_fields :: "message_args_bep44 \<Rightarrow> (string \<times> bval) list" where
  "args_bep44_fields b =
     opt_field ''v'' BStr (args_v b) @ opt_field ''seq'' ser_i64 (args_seq b) @
     opt_field ''cas'' ser_i64 (args_cas b) @ opt_field ''k'' BStr (args_k b) @
     opt_field ''salt'' ser_string (args_salt b) @ opt_field ''sig'' BStr (args_sig b)"

definition args_fields :: "message_args \<Rightarrow> (string \<times> bval) list" where
  "args_fields a =
     (''id'', ser_u160 (args_id a)) #
       opt_field ''target'' ser_u160 (args_target a) @ opt_field ''port'' ser_uint (args_port a) @
       opt_field ''implied_port'' (\<lambda>b. int_from_bool (Some b)) (args_implied_port a) @
       opt_field ''token'' BStr (args_token a) @ opt_field ''info_hash'' ser_u160 (args_info_hash a) @
       args_bep44_fields (args_bep44 a)"

definition args_serialize :: "message_args \<Rightarrow> bval" where
  "args_serialize a = BDict (args_fields a)"

definition kresponse_bep44_fields :: "kresponse_bep44 \<Rightarrow> (string \<times> bval) list" where
  "kresponse_bep44_fields b =
     opt_field ''v'' BStr (res_v b) @ opt_field ''seq'' ser_i64 (res_seq b) @
     opt_field ''k'' BStr (res_k b) @ opt_field ''sig'' BStr (res_sig b)"

definition response_bep51_fields :: "response_bep51 \<Rightarrow> (string \<times> bval) list" where
  "response_bep51_fields b =
     opt_field ''interval'' ser_uint (res_interval b) @
     opt_field ''samples'' (\<lambda>c. BStr (compact_hashes_serialize c)) (res_samples b) @
     opt_field ''num'' ser_uint (res_num b)"

definition kresponse_fields :: "bytes option \<Rightarrow> kresponse \<Rightarrow> (string \<times> bval) list" where
  "kresponse_fields nodes r =
     (''id'', ser_u160 (res_id r)) # opt_field ''nodes'' BStr nodes @
       opt_field ''token'' BStr (res_token r) @
       opt_field ''values'' (\<lambda>ws. BList (map ser_addr ws)) (res_values r) @
       kresponse_bep44_fields (res_bep44 r) @ response_bep51_fields (res_bep51 r)"

definition kresponse_serialize :: "kresponse \<Rightarrow> bval res" where
  "kresponse_serialize r =
     rbind (map_opt_res compact_nodes_serialize (res_nodes r)) (\<lambda>nodes.
     Inr (BDict (kresponse_fields nodes r)))"

definition kmessage_fields :: "bval option \<Rightarrow> kmessage \<Rightarrow> (string \<times> bval) list" where
  "kmessage_fields response k =
     (''t'', BStr (k_transaction_id k)) # (''y'', ser_string (k_message_type k)) #
       opt_field ''q'' ser_string (k_query_method k) @ opt_field ''a'' args_serialize (k_arguments k) @
       opt_field ''r'' (\<lambda>v. v) response @ opt_field ''e'' kerror_serialize (k_error k) @
       opt_field ''ip'' ser_addr (k_requestor_ip k) @
       opt_field ''ro'' (\<lambda>b. int_from_bool (Some b)) (k_read_only k) @
       opt_field ''v'' BStr (k_version k)"

definition kmessage_serialize :: "kmessage \<Rightarrow> bval res" where
  "kmessage_serialize k =
     rbind (map_opt_res kresponse_serialize (k_response k)) (\<lambda>response.
     Inr (BDict (kmessage_fields response k)))"

subsection \<open>Deserialize\<close>

definition ok_of :: "'e + 'a \<Rightarrow> 'a option" where
  "ok_of r = (case r of Inl _ \<Rightarrow> None | Inr a \<Rightarrow> Some a)"

definition de_i64 :: "bval \<Rightarrow> i64 option" where
  "de_i64 v =
     (case v of
        BInt i \<Rightarrow> if - (2 ^ 63) \<le> i \<and> i < 2 ^ 63 then Some (word_of_int i) else None
      | _ \<Rightarrow> None)"

definition de_u160 :: "bval \<Rightarrow> u160 option" where
  "de_u160 v = ok_of (rbind (de_bytes v) u160_visit_bytes)"

definition de_addr :: "bval \<Rightarrow> socket_addr_wrapper option" where
  "de_addr v = map_option addr_visit (ok_of (de_bytes v))"

definition de_list :: "(bval \<Rightarrow> 'a option) \<Rightarrow> bval \<Rightarrow> 'a list option" where
  "de_list d v = (case v of BList vs \<Rightarrow> those (map d vs) | _ \<Rightarrow> None)"

text \<open>The value of a field: absent, or what its codec makes of it.\<close>

definition de_field :: "(string \<times> bval) list \<Rightarrow> string \<Rightarrow> (bval \<Rightarrow> 'a option) \<Rightarrow> 'a option option" where
  "de_field es key d =
     (case map_of es key of None \<Rightarrow> Some None | Some v \<Rightarrow> map_option Some (d v))"

definition no_duplicates :: "string list \<Rightarrow> (string \<times> bval) list \<Rightarrow> bool" where
  "no_duplicates keys es = distinct (filter (\<lambda>k. k \<in> set keys) (map fst es))"

definition args_bep44_de :: "(string \<times> bval) list \<Rightarrow> message_args_bep44 option" where
  "args_bep44_de es =
     (if \<not> no_duplicates [''v'', ''seq'', ''cas'', ''k'', ''salt'', ''sig''] es then None
      else Option.bind (de_field es ''v'' (\<lambda>v. ok_of (de_bytes v))) (\<lambda>v.
      Option.bind (de_field es ''seq'' de_i64) (\<lambda>seq.
      Option.bind (de_field es ''cas'' de_i64) (\<lambda>cas.
      Option.bind (de_field es ''k'' (\<lambda>v. ok_of (de_bytes v))) (\<lambda>k.
      Option.bind (de_field es ''salt'' (\<lambda>v. ok_of (de_string v))) (\<lambda>salt.
      Option.bind (de_field es ''sig'' (\<lambda>v. ok_of (de_bytes v))) (\<lambda>sig.
      Some \<lparr>args_v = v, args_seq = seq, args_cas = cas, args_k = k, args_salt = salt, args_sig = sig\<rparr>)))))))"

definition args_deserialize :: "bval \<Rightarrow> message_args option" where
  "args_deserialize t =
     (case t of BDict es \<Rightarrow>
        if \<not> no_duplicates [''id'', ''target'', ''port'', ''implied_port'', ''token'', ''info_hash''] es then None
        else Option.bind (Option.bind (map_of es ''id'') de_u160) (\<lambda>i.
        Option.bind (de_field es ''target'' de_u160) (\<lambda>target.
        Option.bind (de_field es ''port'' (\<lambda>v. ok_of (de_uint v))) (\<lambda>port.
        Option.bind (de_field es ''implied_port'' (\<lambda>v. ok_of (bool_from_int v))) (\<lambda>implied_port.
        Option.bind (de_field es ''token'' (\<lambda>v. ok_of (de_bytes v))) (\<lambda>token.
        Option.bind (de_field es ''info_hash'' de_u160) (\<lambda>info_hash.
        Option.bind (args_bep44_de es) (\<lambda>bep44.
        Some \<lparr>args_id = i, args_target = target, args_port = port,
              args_implied_port = Option.bind implied_port (\<lambda>b. b), args_token = token,
              args_info_hash = info_hash, args_bep44 = bep44\<rparr>)))))))
      | _ \<Rightarrow> None)"

definition kresponse_bep44_de :: "(string \<times> bval) list \<Rightarrow> kresponse_bep44 option" where
  "kresponse_bep44_de es =
     (if \<not> no_duplicates [''v'', ''seq'', ''k'', ''sig''] es then None
      else Option.bind (de_field es ''v'' (\<lambda>v. ok_of (de_bytes v))) (\<lambda>v.
      Option.bind (de_field es ''seq'' de_i64) (\<lambda>seq.
      Option.bind (de_field es ''k'' (\<lambda>v. ok_of (de_bytes v))) (\<lambda>k.
      Option.bind (de_field es ''sig'' (\<lambda>v. ok_of (de_bytes v))) (\<lambda>sig.
      Some \<lparr>res_v = v, res_seq = seq, res_k = k, res_sig = sig\<rparr>)))))"

definition response_bep51_de :: "(string \<times> bval) list \<Rightarrow> response_bep51 option" where
  "response_bep51_de es =
     (if \<not> no_duplicates [''interval'', ''samples'', ''num''] es then None
      else Option.bind (de_field es ''interval'' (\<lambda>v. ok_of (de_uint v))) (\<lambda>interval.
      Option.bind (de_field es ''samples'' (\<lambda>v. map_option compact_hashes_visit (ok_of (de_bytes v)))) (\<lambda>samples.
      Option.bind (de_field es ''num'' (\<lambda>v. ok_of (de_uint v))) (\<lambda>num.
      Some \<lparr>res_interval = interval, res_samples = samples, res_num = num\<rparr>))))"

definition kresponse_deserialize :: "bval \<Rightarrow> kresponse option" where
  "kresponse_deserialize t =
     (case t of BDict es \<Rightarrow>
        if \<not> no_duplicates [''id'', ''nodes'', ''token'', ''values''] es then None
        else Option.bind (Option.bind (map_of es ''id'') de_u160) (\<lambda>i.
        Option.bind (de_field es ''nodes'' (\<lambda>v. map_option compact_nodes_visit (ok_of (de_bytes v)))) (\<lambda>nodes.
        Option.bind (de_field es ''token'' (\<lambda>v. ok_of (de_bytes v))) (\<lambda>token.
        Option.bind (de_field es ''values'' (de_list de_addr)) (\<lambda>values.
        Option.bind (kresponse_bep44_de es) (\<lambda>bep44.
        Option.bind (response_bep51_de es) (\<lambda>bep51.
        Some \<lparr>res_id = i, res_nodes = nodes, res_token = token, res_values = values,
              res_bep44 = bep44, res_bep51 = bep51\<rparr>))))))
      | _ \<Rightarrow> None)"

definition kmessage_deserialize :: "bval \<Rightarrow> kmessage option" where
  "kmessage_deserialize t =
     (case t of BDict es \<Rightarrow>
        if \<not> no_duplicates [''t'', ''y'', ''q'', ''a'', ''r'', ''e'', ''ip'', ''ro'', ''v''] es then None
        else Option.bind (de_field es ''t'' (\<lambda>v. ok_of (de_bytes v))) (\<lambda>tid.
        Option.bind (Option.bind (map_of es ''y'') (\<lambda>v. ok_of (de_string v))) (\<lambda>y.
        Option.bind (de_field es ''q'' (\<lambda>v. ok_of (de_string v))) (\<lambda>q.
        Option.bind (de_field es ''a'' args_deserialize) (\<lambda>a.
        Option.bind (de_field es ''r'' kresponse_deserialize) (\<lambda>r.
        Option.bind (de_field es ''e'' (\<lambda>v. ok_of (kerror_deserialize v))) (\<lambda>e.
        Option.bind (de_field es ''ip'' de_addr) (\<lambda>ip.
        Option.bind (de_field es ''ro'' (\<lambda>v. ok_of (bool_from_int v))) (\<lambda>ro.
        Option.bind (de_field es ''v'' (\<lambda>v. ok_of (de_bytes v))) (\<lambda>v.
        Some \<lparr>k_transaction_id = (case tid of None \<Rightarrow> [] | Some bs \<Rightarrow> bs), k_message_type = y,
              k_query_method = q, k_arguments = a, k_response = r, k_error = e, k_requestor_ip = ip,
              k_read_only = Option.bind ro (\<lambda>b. b), k_version = v\<rparr>)))))))))
      | _ \<Rightarrow> None)"

subsection \<open>Order of keys\<close>

text \<open>A dictionary of the format has its keys in order; the fields are found all the same.\<close>

fun canon :: "bval \<Rightarrow> bval" where
  "canon (BInt i) = BInt i"
| "canon (BStr bs) = BStr bs"
| "canon (BList vs) = BList (map canon vs)"
| "canon (BDict es) = BDict (sort_key fst (map (\<lambda>(k, v). (k, canon v)) es))"

lemma mset_sort_key_map_of:
  assumes "distinct (map fst es)"
  shows "map_of (sort_key fst es) = map_of es"
proof (rule map_of_eqI)
  show "set (map fst (sort_key fst es)) = set (map fst es)" by simp
  show "\<forall>k\<in>set (map fst (sort_key fst es)). map_of (sort_key fst es) k = map_of es k"
  proof
    fix k assume "k \<in> set (map fst (sort_key fst es))"
    then obtain v where v: "(k, v) \<in> set es" by auto
    have "mset (map fst (sort_key fst es)) = mset (map fst es)" by (simp only: mset_map mset_sort)
    then have "distinct (map fst (sort_key fst es))"
      using assms mset_eq_imp_distinct_iff by blast
    with v assms show "map_of (sort_key fst es) k = map_of es k"
      using map_of_is_SomeI [of "sort_key fst es" k v] map_of_is_SomeI [of es k v] by simp
  qed
qed

definition canon_es :: "(string \<times> bval) list \<Rightarrow> (string \<times> bval) list" where
  "canon_es es = sort_key fst (map (\<lambda>(k, v). (k, canon v)) es)"

lemma canon_es_map_of:
  "distinct (map fst es) \<Longrightarrow> map_of (canon_es es) key = map_option canon (map_of es key)"
proof -
  assume "distinct (map fst es)"
  then have "distinct (map fst (map (\<lambda>(k, v). (k, canon v)) es))"
    by (simp add: comp_def case_prod_beta)
  then have "map_of (canon_es es) key = map_of (map (\<lambda>(k, v). (k, canon v)) es) key"
    unfolding canon_es_def by (rule mset_sort_key_map_of [THEN fun_cong])
  then show ?thesis by (simp add: map_of_map)
qed

lemma canon_es_no_duplicates:
  assumes "distinct (map fst es)"
  shows "no_duplicates keys (canon_es es)"
proof -
  have "mset (map fst (canon_es es)) = mset (map fst es)"
    by (simp add: canon_es_def multiset.map_comp comp_def case_prod_beta)
  then have "distinct (map fst (canon_es es))" using assms mset_eq_imp_distinct_iff by blast
  then show ?thesis by (simp add: no_duplicates_def)
qed

lemma canon_BDict: "canon (BDict es) = BDict (canon_es es)"
  by (simp add: canon_es_def)

lemma map_of_opt_field [simp]:
  "map_of (opt_field k ser v) key = (if key = k then map_option ser v else None)"
  by (simp add: opt_field_def split: option.splits)

lemma de_field_canon:
  assumes "distinct (map fst es)" "map_of es key = map_option ser v"
    "\<And>a. v = Some a \<Longrightarrow> d (canon (ser a)) = Some a"
  shows "de_field (canon_es es) key d = Some v"
  using assms by (cases v) (simp_all add: de_field_def canon_es_map_of)

lemma subseq_opt_field: "subseq (map fst (opt_field k ser v)) [k]"
  by (simp add: opt_field_def split: option.splits)

lemma keys_append: "subseq (map fst xs) ks \<Longrightarrow> subseq (map fst ys) ks' \<Longrightarrow> subseq (map fst (xs @ ys)) (ks @ ks')"
  by (simp add: list_emb_append_mono)

lemma keys_Cons: "subseq (map fst ys) ks \<Longrightarrow> subseq (map fst ((k, v) # ys)) (k # ks)"
  by simp

lemmas keys_intros = keys_append keys_Cons subseq_opt_field

lemma args_bep44_keys: "subseq (map fst (args_bep44_fields b))
    ([''v''] @ [''seq''] @ [''cas''] @ [''k''] @ [''salt''] @ [''sig''])"
  unfolding args_bep44_fields_def by (intro keys_intros)

lemma subseq_distinct_keys: "subseq xs ys \<Longrightarrow> distinct ys \<Longrightarrow> distinct xs"
  by (metis distinct_nthsI subseq_conv_nths)

lemma args_keys: "distinct (map fst (args_fields a))"
proof (rule subseq_distinct_keys)
  show "subseq (map fst (args_fields a))
    (''id'' # [''target''] @ [''port''] @ [''implied_port''] @ [''token''] @ [''info_hash''] @
       [''v''] @ [''seq''] @ [''cas''] @ [''k''] @ [''salt''] @ [''sig''])"
    unfolding args_fields_def by (intro keys_intros args_bep44_keys)
qed simp

lemma kresponse_keys: "distinct (map fst (kresponse_fields nodes r))"
proof (rule subseq_distinct_keys)
  show "subseq (map fst (kresponse_fields nodes r))
    (''id'' # [''nodes''] @ [''token''] @ [''values''] @
      ([''v''] @ [''seq''] @ [''k''] @ [''sig'']) @ [''interval''] @ [''samples''] @ [''num''])"
    unfolding kresponse_fields_def kresponse_bep44_fields_def response_bep51_fields_def
    by (intro keys_intros)
qed simp

lemma kmessage_keys: "distinct (map fst (kmessage_fields response k))"
proof (rule subseq_distinct_keys)
  show "subseq (map fst (kmessage_fields response k))
    (''t'' # ''y'' # [''q''] @ [''a''] @ [''r''] @ [''e''] @ [''ip''] @ [''ro''] @ [''v''])"
    unfolding kmessage_fields_def by (intro keys_intros)
qed simp

subsection \<open>Round trips\<close>

lemma ok_of_Inr [simp]: "ok_of (Inr a) = Some a"
  by (simp add: ok_of_def)

lemma de_i64_ser [simp]: "de_i64 (ser_i64 w) = Some w"
  using sint_ge [of w] sint_lt [of w] by (simp add: de_i64_def ser_i64_def)

lemma de_u160_ser [simp]: "de_u160 (ser_u160 a) = Some a"
  by (simp add: de_u160_def ser_u160_def de_bytes_def)

lemma de_bytes_ser [simp]: "de_bytes (BStr bs) = Inr bs"
  by (simp add: de_bytes_def)

lemma de_uint_ser_uint [simp]: "de_uint (ser_uint w) = Inr w"
  by (simp add: ser_uint_def)

lemma de_string_ser_string [simp]: "is_utf8 s \<Longrightarrow> de_string (ser_string s) = Inr s"
  by (simp add: ser_string_def)

lemma de_addr_ser: "\<forall>a. socket_addr w = Some a \<longrightarrow> plain_addr a \<Longrightarrow> de_addr (ser_addr w) = Some w"
  by (simp add: de_addr_def ser_addr_def addr_roundtrip)

lemma de_list_ser:
  "(\<And>a. a \<in> set xs \<Longrightarrow> d (ser a) = Some a) \<Longrightarrow> de_list d (BList (map ser xs)) = Some xs"
  by (induction xs) (simp_all add: de_list_def)

lemma canon_ser [simp]:
  "canon (ser_i64 i) = ser_i64 i" "canon (ser_u160 a) = ser_u160 a" "canon (ser_uint u) = ser_uint u"
  "canon (ser_string s) = ser_string s" "canon (ser_addr w) = ser_addr w"
  "canon (int_from_bool b) = int_from_bool b" "canon (kerror_serialize e) = kerror_serialize e"
  by (simp_all add: ser_i64_def ser_u160_def ser_uint_def ser_string_def ser_addr_def int_from_bool_def
      kerror_serialize_def)

lemma canon_addr_list [simp]: "canon (BList (map ser_addr ws)) = BList (map ser_addr ws)"
  by simp

lemma de_field_bool:
  assumes "distinct (map fst es)" "map_of es key = map_option (\<lambda>b. int_from_bool (Some b)) v"
  shows "de_field (canon_es es) key (\<lambda>v. ok_of (bool_from_int v)) = Some (map_option Some v)"
  using assms bool_from_int_from_bool by (cases v) (simp_all add: de_field_def canon_es_map_of)

lemma bind_map_Some [simp]: "Option.bind (map_option Some v) (\<lambda>b. b) = v"
  by (cases v) simp_all

lemma map_of_opt_append:
  "map_of (opt_field k ser v @ ys) key =
     (if key = k then (case v of Some a \<Rightarrow> Some (ser a) | None \<Rightarrow> map_of ys key) else map_of ys key)"
  by (auto simp: opt_field_def split: option.splits)

lemma case_None_map: "(case v of None \<Rightarrow> None | Some a \<Rightarrow> Some (ser a)) = map_option ser v"
  by (cases v) simp_all

lemma map_of_args:
  "map_of (args_fields a) ''id'' = Some (ser_u160 (args_id a))"
  "map_of (args_fields a) ''target'' = map_option ser_u160 (args_target a)"
  "map_of (args_fields a) ''port'' = map_option ser_uint (args_port a)"
  "map_of (args_fields a) ''implied_port'' = map_option (\<lambda>b. int_from_bool (Some b)) (args_implied_port a)"
  "map_of (args_fields a) ''token'' = map_option BStr (args_token a)"
  "map_of (args_fields a) ''info_hash'' = map_option ser_u160 (args_info_hash a)"
  "map_of (args_fields a) ''v'' = map_option BStr (args_v (args_bep44 a))"
  "map_of (args_fields a) ''seq'' = map_option ser_i64 (args_seq (args_bep44 a))"
  "map_of (args_fields a) ''cas'' = map_option ser_i64 (args_cas (args_bep44 a))"
  "map_of (args_fields a) ''k'' = map_option BStr (args_k (args_bep44 a))"
  "map_of (args_fields a) ''salt'' = map_option ser_string (args_salt (args_bep44 a))"
  "map_of (args_fields a) ''sig'' = map_option BStr (args_sig (args_bep44 a))"
  by (simp_all add: args_fields_def args_bep44_fields_def map_of_opt_append case_None_map
      cong: option.case_cong del: map_of_append)

definition args_valid :: "message_args \<Rightarrow> bool" where
  "args_valid a = pred_option is_utf8 (args_salt (args_bep44 a))"

lemmas args_de_simps = canon_es_no_duplicates [OF args_keys] canon_es_map_of [OF args_keys]
  map_of_args(1) map_of_args(2-) [THEN de_field_canon [OF args_keys]] de_field_bool [OF args_keys map_of_args(4)]

lemma args_roundtrip:
  assumes "args_valid a"
  shows "args_deserialize (canon (args_serialize a)) = Some a"
  using assms
  by (simp add: args_serialize_def canon_BDict args_deserialize_def args_bep44_de_def args_valid_def pred_option_def
      args_de_simps del: canon.simps(4))

lemma map_of_kresponse:
  "map_of (kresponse_fields nodes r) ''id'' = Some (ser_u160 (res_id r))"
  "map_of (kresponse_fields nodes r) ''nodes'' = map_option BStr nodes"
  "map_of (kresponse_fields nodes r) ''token'' = map_option BStr (res_token r)"
  "map_of (kresponse_fields nodes r) ''values'' = map_option (\<lambda>ws. BList (map ser_addr ws)) (res_values r)"
  "map_of (kresponse_fields nodes r) ''v'' = map_option BStr (res_v (res_bep44 r))"
  "map_of (kresponse_fields nodes r) ''seq'' = map_option ser_i64 (res_seq (res_bep44 r))"
  "map_of (kresponse_fields nodes r) ''k'' = map_option BStr (res_k (res_bep44 r))"
  "map_of (kresponse_fields nodes r) ''sig'' = map_option BStr (res_sig (res_bep44 r))"
  "map_of (kresponse_fields nodes r) ''interval'' = map_option ser_uint (res_interval (res_bep51 r))"
  "map_of (kresponse_fields nodes r) ''samples'' =
     map_option (\<lambda>c. BStr (compact_hashes_serialize c)) (res_samples (res_bep51 r))"
  "map_of (kresponse_fields nodes r) ''num'' = map_option ser_uint (res_num (res_bep51 r))"
  by (simp_all add: kresponse_fields_def kresponse_bep44_fields_def response_bep51_fields_def
      map_of_opt_append case_None_map cong: option.case_cong del: map_of_append)

definition kresponse_valid :: "kresponse \<Rightarrow> bool" where
  "kresponse_valid r \<longleftrightarrow>
     pred_option (\<lambda>c. \<forall>n\<in>set (dht_nodes c). is_ip4 n) (res_nodes r) \<and>
     pred_option (\<lambda>ws. \<forall>w\<in>set ws. pred_option plain_addr (socket_addr w)) (res_values r)"

lemmas kresponse_de_simps = canon_es_no_duplicates [OF kresponse_keys] canon_es_map_of [OF kresponse_keys]
  map_of_kresponse(1) map_of_kresponse(3-) [THEN de_field_canon [OF kresponse_keys]]

lemma kresponse_nodes_field:
  assumes "pred_option (\<lambda>c. \<forall>n\<in>set (dht_nodes c). is_ip4 n) (res_nodes r)"
  shows "\<exists>nodes. map_opt_res compact_nodes_serialize (res_nodes r) = Inr nodes \<and>
    de_field (canon_es (kresponse_fields nodes r)) ''nodes''
      (\<lambda>v. map_option compact_nodes_visit (ok_of (de_bytes v))) = Some (res_nodes r)"
proof (cases "res_nodes r")
  case None
  then show ?thesis
    by (simp add: map_opt_res_def de_field_def canon_es_map_of [OF kresponse_keys] map_of_kresponse)
next
  case (Some c)
  with assms compact_nodes_roundtrip [of c] show ?thesis
    by (auto simp: map_opt_res_def de_field_def canon_es_map_of [OF kresponse_keys] map_of_kresponse)
qed

lemma kresponse_roundtrip:
  assumes "kresponse_valid r"
  shows "\<exists>t. kresponse_serialize r = Inr t \<and> kresponse_deserialize (canon t) = Some r"
proof -
  from assms obtain nodes where nodes: "map_opt_res compact_nodes_serialize (res_nodes r) = Inr nodes"
    "de_field (canon_es (kresponse_fields nodes r)) ''nodes''
      (\<lambda>v. map_option compact_nodes_visit (ok_of (de_bytes v))) = Some (res_nodes r)"
    using kresponse_nodes_field [of r] by (auto simp: kresponse_valid_def)
  have list: "de_list de_addr (BList (map ser_addr ws)) = Some ws" if "res_values r = Some ws" for ws
    using assms that by (intro de_list_ser de_addr_ser) (auto simp: kresponse_valid_def pred_option_def)
  have "kresponse_deserialize (BDict (canon_es (kresponse_fields nodes r))) = Some r"
    using assms nodes(2) list
    by (simp add: kresponse_deserialize_def kresponse_bep44_de_def response_bep51_de_def
        compact_hashes_roundtrip kresponse_de_simps del: canon.simps(3,4))
  with nodes(1) show ?thesis
    by (simp add: kresponse_serialize_def canon_BDict del: canon.simps(4))
qed

lemma map_of_kmessage:
  "map_of (kmessage_fields response k) ''t'' = Some (BStr (k_transaction_id k))"
  "map_of (kmessage_fields response k) ''y'' = Some (ser_string (k_message_type k))"
  "map_of (kmessage_fields response k) ''r'' = response"
  "map_of (kmessage_fields response k) ''q'' = map_option ser_string (k_query_method k)"
  "map_of (kmessage_fields response k) ''a'' = map_option args_serialize (k_arguments k)"
  "map_of (kmessage_fields response k) ''e'' = map_option kerror_serialize (k_error k)"
  "map_of (kmessage_fields response k) ''ip'' = map_option ser_addr (k_requestor_ip k)"
  "map_of (kmessage_fields response k) ''ro'' = map_option (\<lambda>b. int_from_bool (Some b)) (k_read_only k)"
  "map_of (kmessage_fields response k) ''v'' = map_option BStr (k_version k)"
  by (simp_all add: kmessage_fields_def map_of_opt_append case_None_map option.map_ident
      cong: option.case_cong del: map_of_append)

definition kmessage_valid :: "kmessage \<Rightarrow> bool" where
  "kmessage_valid k \<longleftrightarrow>
     is_utf8 (k_message_type k) \<and> pred_option is_utf8 (k_query_method k) \<and>
     pred_option args_valid (k_arguments k) \<and> pred_option kresponse_valid (k_response k) \<and>
     pred_option (\<lambda>e. is_utf8 (err_desc e)) (k_error k) \<and>
     pred_option (\<lambda>w. pred_option plain_addr (socket_addr w)) (k_requestor_ip k)"

lemmas kmessage_de_simps = canon_es_no_duplicates [OF kmessage_keys] canon_es_map_of [OF kmessage_keys]
  map_of_kmessage(1,2) map_of_kmessage(4-) [THEN de_field_canon [OF kmessage_keys]]
  de_field_bool [OF kmessage_keys map_of_kmessage(8)]

lemma kmessage_response_field:
  assumes "pred_option kresponse_valid (k_response k)"
  shows "\<exists>response. map_opt_res kresponse_serialize (k_response k) = Inr response \<and>
    de_field (canon_es (kmessage_fields response k)) ''r'' kresponse_deserialize = Some (k_response k)"
proof (cases "k_response k")
  case None
  then show ?thesis
    by (simp add: map_opt_res_def de_field_def canon_es_map_of [OF kmessage_keys] map_of_kmessage)
next
  case (Some r)
  with assms kresponse_roundtrip [of r] show ?thesis
    by (auto simp: map_opt_res_def de_field_def canon_es_map_of [OF kmessage_keys] map_of_kmessage)
qed

lemma kmessage_roundtrip:
  assumes "kmessage_valid k"
  shows "\<exists>t. kmessage_serialize k = Inr t \<and> kmessage_deserialize (canon t) = Some k"
proof -
  from assms obtain response where response: "map_opt_res kresponse_serialize (k_response k) = Inr response"
    "de_field (canon_es (kmessage_fields response k)) ''r'' kresponse_deserialize = Some (k_response k)"
    using kmessage_response_field [of k] by (auto simp: kmessage_valid_def)
  have ip: "de_addr (ser_addr w) = Some w" if "k_requestor_ip k = Some w" for w
    using assms that by (intro de_addr_ser) (auto simp: kmessage_valid_def pred_option_def)
  have "de_field (canon_es (kmessage_fields response k)) ''t'' (\<lambda>v. ok_of (de_bytes v)) =
      Some (Some (k_transaction_id k))"
    by (simp add: de_field_def canon_es_map_of [OF kmessage_keys] map_of_kmessage)
  with assms ip response(2)
  have "kmessage_deserialize (BDict (canon_es (kmessage_fields response k))) = Some k"
    by (simp add: kmessage_deserialize_def kmessage_valid_def pred_option_def args_roundtrip kerror_roundtrip
        kmessage_de_simps del: canon.simps(4))
  with response(1) show ?thesis
    by (simp add: kmessage_serialize_def canon_BDict del: canon.simps(4))
qed

lemma kmessage_panics:
  "isl (kmessage_serialize k) \<longleftrightarrow>
     (\<exists>r c. k_response k = Some r \<and> res_nodes r = Some c \<and> (\<exists>n\<in>set (dht_nodes c). \<not> is_ip4 n))"
  by (auto simp: kmessage_serialize_def kresponse_serialize_def map_opt_res_def compact_nodes_panic
      split: option.splits)

subsection \<open>Properties\<close>

text \<open>Serializing a KRPC message panics exactly when a response lists a node without an IPv4
  address.\<close>

theorem kmessage_serialize_panics:
  "isl (kmessage_serialize k) \<longleftrightarrow>
     (\<exists>r c. k_response k = Some r \<and> res_nodes r = Some c \<and> (\<exists>n\<in>set (dht_nodes c). \<not> is_ip4 n))"
  by (rule kmessage_panics)

text \<open>A KRPC message whose strings are UTF-8 and whose addresses are plain (nodes: IPv4) can be
  serialized, and is what the deserializer reads from the written tree, whose dictionaries have
  their keys in order.\<close>

theorem kmessage_serde_roundtrip:
  assumes "kmessage_valid k"
  shows "\<exists>t. kmessage_serialize k = Inr t \<and> kmessage_deserialize (canon t) = Some k"
  by (rule kmessage_roundtrip [OF assms])

definition ex_kmessage :: kmessage where
  "ex_kmessage =
     \<lparr>k_transaction_id = [1, 2], k_message_type = ''r'', k_query_method = None, k_arguments = None,
      k_response = Some
        \<lparr>res_id = u160_max, res_nodes = Some \<lparr>dht_nodes = [\<lparr>node_id = u160_min, node_addr = SockV4 1 2\<rparr>]\<rparr>,
         res_token = Some [7], res_values = Some [\<lparr>socket_addr = Some (SockV4 3 4)\<rparr>],
         res_bep44 = \<lparr>res_v = None, res_seq = None, res_k = None, res_sig = None\<rparr>,
         res_bep51 = \<lparr>res_interval = None, res_samples = None, res_num = None\<rparr>\<rparr>,
      k_error = None, k_requestor_ip = Some \<lparr>socket_addr = None\<rparr>, k_read_only = Some False, k_version = None\<rparr>"

theorem kmessage_serde_roundtrip_witness:
  "\<exists>t. kmessage_serialize ex_kmessage = Inr t \<and> kmessage_deserialize (canon t) = Some ex_kmessage"
proof (rule kmessage_serde_roundtrip)
  have "is_utf8 ''r''" by code_simp
  then show "kmessage_valid ex_kmessage"
    by (simp add: kmessage_valid_def ex_kmessage_def kresponse_valid_def is_ip4_def)
qed

end
