(* ===== verification/Bencode.thy ===== *)
theory Bencode
  imports Kmsg
begin

text \<open>
  A format for the parameters \<open>bencode\<close> and \<open>bdecode\<close> of the development: the trees of \<open>Wire\<close> written
  as BEP 3 describes (integers \<open>i..e\<close>, strings with their length in front, lists \<open>l..e\<close>,
  dictionaries \<open>d..e\<close> with their keys in order) and a reader for it.  It is not a translation of
  the crate \<open>bt_bencode\<close>; the witnesses use it, to show that the hypotheses made about that crate
  can hold.
\<close>

subsection \<open>Numbers\<close>

definition digit :: "nat \<Rightarrow> u8" where
  "digit d = of_nat (48 + d)"

fun decimal :: "nat \<Rightarrow> bytes" where
  "decimal n = (if n < 10 then [digit n] else decimal (n div 10) @ [digit (n mod 10)])"

declare decimal.simps [simp del]

definition is_digit :: "u8 \<Rightarrow> bool" where
  "is_digit b \<longleftrightarrow> 48 \<le> unat b \<and> unat b < 58"

definition undecimal :: "bytes \<Rightarrow> nat" where
  "undecimal bs = fold (\<lambda>b n. 10 * n + (unat b - 48)) bs 0"

lemma unat_digit: "d < 10 \<Longrightarrow> unat (digit d) = 48 + d"
  unfolding digit_def by (simp only: unat_of_nat) simp

lemma undecimal_decimal: "undecimal (decimal n) = n"
proof (induction n rule: decimal.induct)
  case (1 n)
  show ?case
  proof (cases "n < 10")
    case True
    then show ?thesis by (simp add: decimal.simps [of n] undecimal_def unat_digit)
  next
    case False
    with 1 show ?thesis by (simp add: decimal.simps [of n] undecimal_def unat_digit)
  qed
qed

lemma decimal_digits: "b \<in> set (decimal n) \<Longrightarrow> is_digit b"
proof (induction n rule: decimal.induct)
  case (1 n)
  have "is_digit (digit d)" if "d < 10" for d using that by (simp add: is_digit_def unat_digit)
  with 1 show ?case by (cases "n < 10") (auto simp: decimal.simps [of n])
qed

lemma decimal_not_Nil: "decimal n \<noteq> []"
  by (simp add: decimal.simps [of n])

definition read_decimal :: "bytes \<Rightarrow> nat \<times> bytes" where
  "read_decimal bs = (undecimal (takeWhile is_digit bs), dropWhile is_digit bs)"

lemma read_decimal_decimal:
  assumes "\<not> is_digit c"
  shows "read_decimal (decimal n @ c # rest) = (n, c # rest)"
proof -
  have "takeWhile is_digit (decimal n @ c # rest) = decimal n" "dropWhile is_digit (decimal n @ c # rest) = c # rest"
    using assms decimal_digits by (simp_all add: takeWhile_append2 dropWhile_append2)
  then show ?thesis by (simp add: read_decimal_def undecimal_decimal)
qed

subsection \<open>Writing\<close>

definition write_string :: "bytes \<Rightarrow> bytes" where
  "write_string bs = decimal (length bs) @ 58 # bs"

fun emit :: "bval \<Rightarrow> bytes" where
  "emit (BInt i) = 105 # (if i < 0 then [45] else []) @ decimal (nat \<bar>i\<bar>) @ [101]"
| "emit (BStr bs) = write_string bs"
| "emit (BList vs) = 108 # concat (map emit vs) @ [101]"
| "emit (BDict es) = 100 # concat (map (\<lambda>(k, v). write_string (str_bytes k) @ emit v) es) @ [101]"

definition benc :: "bval \<Rightarrow> unit + bytes" where
  "benc t = Inr (emit (canon t))"

subsection \<open>Reading\<close>

definition read_string :: "bytes \<Rightarrow> (bytes \<times> bytes) option" where
  "read_string bs =
     (case read_decimal bs of
        (n, c # rest) \<Rightarrow> if c = 58 \<and> n \<le> length rest then Some (take n rest, drop n rest) else None
      | (n, []) \<Rightarrow> None)"

definition read_int :: "bytes \<Rightarrow> (int \<times> bytes) option" where
  "read_int bs =
     (let minus = (case bs of c # _ \<Rightarrow> c = 45 | [] \<Rightarrow> False)
      in case read_decimal (if minus then tl bs else bs) of
           (n, c # rest) \<Rightarrow> if c = 101 then Some (if minus then - int n else int n, rest) else None
         | (n, []) \<Rightarrow> None)"

text \<open>The fuel of the reader is the number of bytes left.\<close>

fun read :: "nat \<Rightarrow> bytes \<Rightarrow> (bval \<times> bytes) option"
  and read_list :: "nat \<Rightarrow> bytes \<Rightarrow> (bval list \<times> bytes) option"
  and read_dict :: "nat \<Rightarrow> bytes \<Rightarrow> ((string \<times> bval) list \<times> bytes) option" where
  "read (Suc k) (c # bs) =
     (if c = 105 then map_option (map_prod BInt id) (read_int bs)
      else if c = 108 then map_option (map_prod BList id) (read_list k bs)
      else if c = 100 then map_option (map_prod BDict id) (read_dict k bs)
      else map_option (map_prod BStr id) (read_string (c # bs)))"
| "read _ _ = None"
| "read_list (Suc k) (c # bs) =
     (if c = 101 then Some ([], bs)
      else Option.bind (read k (c # bs)) (\<lambda>(v, rest). map_option (map_prod ((#) v) id) (read_list k rest)))"
| "read_list _ _ = None"
| "read_dict (Suc k) (c # bs) =
     (if c = 101 then Some ([], bs)
      else Option.bind (read_string (c # bs)) (\<lambda>(key, rest).
           Option.bind (read k rest) (\<lambda>(v, rest').
             map_option (map_prod ((#) (bytes_str key, v)) id) (read_dict k rest'))))"
| "read_dict _ _ = None"

definition bdec :: "bytes \<Rightarrow> bval option" where
  "bdec bs = (case read (Suc (length bs)) bs of Some (v, []) \<Rightarrow> Some v | _ \<Rightarrow> None)"

subsection \<open>What is written is read\<close>

lemma read_string_write: "read_string (write_string bs @ rest) = Some (bs, rest)"
proof -
  have "\<not> is_digit 58" by (simp add: is_digit_def)
  from read_decimal_decimal [OF this] show ?thesis by (simp add: read_string_def write_string_def)
qed

lemma write_string_Cons: "\<exists>c cs. write_string bs = c # cs \<and> is_digit c"
  using decimal_not_Nil [of "length bs"] decimal_digits [of "hd (decimal (length bs))" "length bs"]
  by (cases "decimal (length bs)") (auto simp: write_string_def)

lemma read_int_write:
  "read_int ((if i < 0 then [45] else []) @ decimal (nat \<bar>i\<bar>) @ 101 # rest) = Some (i, rest)"
proof -
  have e: "\<not> is_digit 101" and m: "\<not> is_digit 45" by (simp_all add: is_digit_def)
  obtain c cs where d: "decimal (nat \<bar>i\<bar>) = c # cs" using decimal_not_Nil by (cases "decimal (nat \<bar>i\<bar>)") auto
  then have "c \<noteq> 45" using decimal_digits [of c "nat \<bar>i\<bar>"] m by auto
  with d read_decimal_decimal [OF e, of "nat \<bar>i\<bar>" rest] show ?thesis
    by (auto simp: read_int_def Let_def)
qed

lemma emit_Cons: "\<exists>c cs. emit t = c # cs \<and> c \<noteq> 101"
proof (cases t)
  case (BStr bs)
  moreover have "\<not> is_digit 101" by (simp add: is_digit_def)
  ultimately show ?thesis using write_string_Cons [of bs] by auto
qed simp_all

lemma read_list_write:
  assumes "\<And>v k rest. v \<in> set vs \<Longrightarrow> length (emit v) \<le> k \<Longrightarrow> read k (emit v @ rest) = Some (v, rest)"
    and "length (concat (map emit vs)) < k"
  shows "read_list k (concat (map emit vs) @ 101 # rest) = Some (vs, rest)"
  using assms
proof (induction vs arbitrary: k)
  case Nil
  then show ?case by (cases k) simp_all
next
  case (Cons v vs)
  obtain c cs where w: "emit v = c # cs" "c \<noteq> 101" using emit_Cons by blast
  obtain k' where k: "k = Suc k'" using Cons.prems(2) by (cases k) simp_all
  have v: "read k' (emit v @ concat (map emit vs) @ 101 # rest) = Some (v, concat (map emit vs) @ 101 # rest)"
    by (rule Cons.prems(1)) (use Cons.prems(2) k in simp_all)
  have vs: "read_list k' (concat (map emit vs) @ 101 # rest) = Some (vs, rest)"
    by (rule Cons.IH) (use Cons.prems k w in simp_all)
  from v vs w k show ?case by simp
qed

lemma read_dict_write:
  assumes "\<And>e k rest. e \<in> set es \<Longrightarrow> length (emit (snd e)) \<le> k \<Longrightarrow> read k (emit (snd e) @ rest) = Some (snd e, rest)"
    and "length (concat (map (\<lambda>(k, v). write_string (str_bytes k) @ emit v) es)) < k"
  shows "read_dict k (concat (map (\<lambda>(k, v). write_string (str_bytes k) @ emit v) es) @ 101 # rest) = Some (es, rest)"
  using assms
proof (induction es arbitrary: k)
  case Nil
  then show ?case by (cases k) simp_all
next
  case (Cons e es)
  let ?more = "concat (map (\<lambda>(k, v). write_string (str_bytes k) @ emit v) es) @ 101 # rest"
  obtain key v where e: "e = (key, v)" by fastforce
  obtain c cs where w: "write_string (str_bytes key) = c # cs" "is_digit c" using write_string_Cons by blast
  have "\<not> is_digit 101" by (simp add: is_digit_def)
  with w(2) have c: "c \<noteq> 101" by auto
  obtain k' where k: "k = Suc k'" using Cons.prems(2) by (cases k) simp_all
  have key: "read_string (c # cs @ emit v @ ?more) = Some (str_bytes key, emit v @ ?more)"
    using read_string_write [of "str_bytes key" "emit v @ ?more"] w(1) by simp
  have v: "read k' (emit v @ ?more) = Some (v, ?more)"
    using Cons.prems(1) [of e k' ?more] Cons.prems(2) k e by simp
  have es: "read_dict k' ?more = Some (es, rest)"
    by (rule Cons.IH) (use Cons.prems k e w in simp_all)
  from key v es w c k e show ?case by simp
qed

lemma read_emit: "length (emit t) \<le> k \<Longrightarrow> read k (emit t @ rest) = Some (t, rest)"
proof (induction t arbitrary: k rest)
  case (BInt i)
  then show ?case using read_int_write [of i rest] by (cases k) simp_all
next
  case (BStr bs)
  obtain c cs where w: "write_string bs = c # cs" "is_digit c" using write_string_Cons by blast
  have c: "c \<noteq> 105" "c \<noteq> 108" "c \<noteq> 100" using w(2) by (auto simp: is_digit_def)
  from BStr c w(1) read_string_write [of bs rest] show ?case by (cases k) simp_all
next
  case (BList vs)
  then obtain k' where "k = Suc k'" by (cases k) simp_all
  with BList read_list_write [of vs k' rest] show ?case by simp
next
  case (BDict es)
  then obtain k' where k: "k = Suc k'" by (cases k) simp_all
  have "read j (emit (snd e) @ r) = Some (snd e, r)" if "e \<in> set es" "length (emit (snd e)) \<le> j" for e j r
    using BDict.IH [of e "snd e" j r] that by (cases e) auto
  with BDict.prems k read_dict_write [of es k' rest] show ?case by simp
qed

lemma bdec_emit: "bdec (emit t) = Some t"
  using read_emit [of t "Suc (length (emit t))" "[]"] by (simp add: bdec_def)

lemma bdec_benc: "benc t = Inr bs \<Longrightarrow> bdec bs = Some (canon t)"
  by (auto simp: benc_def bdec_emit)

end
