(* ===== verification/Message.thy ===== *)
theory Message
  imports Kmsg Bencode
begin

text \<open>
  \<open>messenger/message.rs\<close> and \<open>messenger/message/message_impl.rs\<close>: the messages of the program
  and their translation to and from the KRPC records of the theory \<open>Kmsg\<close>.  The crate
  \<open>bt_bencode\<close>, which writes a tree as bytes and parses bytes to a tree, is a parameter of
  \<open>receive\<close> and \<open>to_bytes\<close>.
\<close>

subsection \<open>Data\<close>

datatype sender = Remote node_info | Me node_info

datatype receiver = Node node_info | Addr socket_addr | ReceiverMe

text \<open>A \<open>char\<close> of Rust is a Unicode scalar value of 32 bits.\<close>

record client =
  client_name :: string
  client_code :: "u32 \<times> u32"
  client_version :: u16

record message_base =
  origin :: sender
  destination :: receiver
  requestor_addr :: "socket_addr option"
  transaction_id :: bytes
  read_only :: bool
  base_client :: "client option"

datatype query_method =
    Ping
  | FindNode u160
  | GetPeers u160
  | AnnouncePeer (announce_info_hash: u160) (announce_port: u16) (announce_token: bytes)
  | Put message_args_bep44
  | Get
  | SampleInfohashes u160

record query =
  query_meth :: query_method
  query_base :: message_base

datatype response_kind =
    Ok
  | KNearest (kn_nodes: "node_info list") (kn_token: "bytes option")
  | Peers (p_peers: "socket_addr list") (p_token: bytes) (p_nodes: "node_info list option")
  | Data kresponse_bep44
  | Samples (s_nodes: "node_info list") (s_samples: "u160 list") (s_available: u64) (s_interval: u16)

record response =
  resp_kind :: response_kind
  resp_base :: message_base

record error_msg =
  error_err :: kerror
  error_base :: message_base

datatype message = Query query | Response response | Error error_msg

type_synonym query_result = "error_msg + response"

datatype known_error =
    Generic | Server | Protocol | MethodUnknown | InvalidV | InvalidSig | SaltTooLong
  | CasMismatch | SeqLessThanCurrent | InvalidNodeId | Internal

fun known_code :: "known_error \<Rightarrow> u16" where
  "known_code Generic = 201"
| "known_code Server = 202"
| "known_code Protocol = 203"
| "known_code MethodUnknown = 204"
| "known_code InvalidV = 205"
| "known_code InvalidSig = 206"
| "known_code SaltTooLong = 207"
| "known_code CasMismatch = 301"
| "known_code SeqLessThanCurrent = 302"
| "known_code InvalidNodeId = 305"
| "known_code Internal = 501"

fun description :: "known_error \<Rightarrow> string" where
  "description Generic = ''A Generic Error Occurred''"
| "description Server = ''The Server Encountered an Error''"
| "description Protocol = ''Protocol Error, such as a malformed packet, invalid arguments, or bad token''"
| "description MethodUnknown = ''Method Unknown''"
| "description InvalidV = ''V missing or too long (>999).''"
| "description InvalidSig = ''Invalid signature''"
| "description SaltTooLong = ''Salt too long (>64)''"
| "description CasMismatch = ''the CAS hash didn'' @ [CHR 0x27] @ ''t match, re-read value and try again''"
| "description SeqLessThanCurrent = ''sequence number less than current''"
| "description Internal = ''An internal error occurred''"
| "description InvalidNodeId = ''Invalid node id''"

subsection \<open>Conversions\<close>

fun sender_addr :: "sender \<Rightarrow> socket_addr" where
  "sender_addr (Remote r) = node_addr r"
| "sender_addr (Me m) = node_addr m"

fun sender_id :: "sender \<Rightarrow> u160" where
  "sender_id (Remote r) = node_id r"
| "sender_id (Me m) = node_id m"

fun sender_receiver :: "sender \<Rightarrow> receiver" where
  "sender_receiver (Remote n) = Node n"
| "sender_receiver (Me n) = Node n"

fun sender_node :: "sender \<Rightarrow> node_info" where
  "sender_node (Remote n) = n"
| "sender_node (Me n) = n"

fun receiver_addr :: "receiver \<Rightarrow> socket_addr option" where
  "receiver_addr (Node n) = Some (node_addr n)"
| "receiver_addr (Addr a) = Some a"
| "receiver_addr ReceiverMe = None"

fun message_base_of :: "message \<Rightarrow> message_base" where
  "message_base_of (Query q) = query_base q"
| "message_base_of (Response r) = resp_base r"
| "message_base_of (Error e) = error_base e"

fun result_message :: "query_result \<Rightarrow> message" where
  "result_message (Inl e) = Error e"
| "result_message (Inr r) = Response r"

fun result_base :: "query_result \<Rightarrow> message_base" where
  "result_base (Inr r) = resp_base r"
| "result_base (Inl e) = error_base e"

definition into_error_generic :: "message_base \<Rightarrow> string \<Rightarrow> error_msg" where
  "into_error_generic b desc = \<lparr>error_err = KError (known_code Generic) desc, error_base = b\<rparr>"

definition into_error :: "message_base \<Rightarrow> known_error \<Rightarrow> error_msg" where
  "into_error b kind = \<lparr>error_err = KError (known_code kind) (description kind), error_base = b\<rparr>"

definition into_query :: "message_base \<Rightarrow> query_method \<Rightarrow> query" where
  "into_query b m = \<lparr>query_meth = m, query_base = b\<rparr>"

definition into_response :: "message_base \<Rightarrow> response_kind \<Rightarrow> response" where
  "into_response b k = \<lparr>resp_kind = k, resp_base = b\<rparr>"

subsection \<open>Clients\<close>

definition client_to_bytes :: "client \<Rightarrow> bytes" where
  "client_to_bytes c =
     [ucast (fst (client_code c)), ucast (snd (client_code c)),
      ucast (drop_bit 8 (client_version c)), ucast (client_version c AND 0xff)]"

definition client_names :: "(string \<times> string) list" where
  "client_names =
    [(''AG'', ''Ares''),
     (''A~'', ''Ares''),
     (''AR'', ''Arctic''),
     (''AV'', ''Avicora''),
     (''AX'', ''BitPump''),
     (''AZ'', ''Azureus''),
     (''BB'', ''BitBuddy''),
     (''BC'', ''BitComet''),
     (''BF'', ''Bitflu''),
     (''BG'', ''BTG (uses Rasterbar libtorrent)''),
     (''BR'', ''BitRocket''),
     (''BS'', ''BTSlave''),
     (''BX'', ''~Bittorrent X''),
     (''CD'', ''Enhanced CTorrent''),
     (''CT'', ''CTorrent''),
     (''DE'', ''DelugeTorrent''),
     (''DP'', ''Propagate Data Client''),
     (''EB'', ''EBit''),
     (''ES'', ''electric sheep''),
     (''FT'', ''FoxTorrent''),
     (''FW'', ''FrostWire''),
     (''FX'', ''Freebox BitTorrent''),
     (''GS'', ''GSTorrent''),
     (''HL'', ''Halite''),
     (''HN'', ''Hydranode''),
     (''KG'', ''KGet''),
     (''KT'', ''KTorrent''),
     (''LH'', ''LH-ABC''),
     (''LP'', ''Lphant''),
     (''LT'', ''libtorrent''),
     (''lt'', ''libTorrent''),
     (''LW'', ''LimeWire''),
     (''MO'', ''MonoTorrent''),
     (''MP'', ''MooPolice''),
     (''MR'', ''Miro''),
     (''MT'', ''MoonlightTorrent''),
     (''NX'', ''Net Transport''),
     (''PD'', ''Pando''),
     (''qB'', ''qBittorrent''),
     (''QD'', ''QQDownload''),
     (''QT'', ''Qt 4 Torrent example''),
     (''RT'', ''Retriever''),
     (''S~'', ''Shareaza alpha/beta''),
     (''SB'', ''~Swiftbit''),
     (''SS'', ''SwarmScope''),
     (''ST'', ''SymTorrent''),
     (''st'', ''sharktorrent''),
     (''SZ'', ''Shareaza''),
     (''TN'', ''TorrentDotNET''),
     (''TR'', ''Transmission''),
     (''TS'', ''Torrentstorm''),
     (''TT'', ''TuoTu''),
     (''UL'', ''uLeecher!''),
     (''UT'', ''uTorrent''),
     (''UW'', ''uTorrent Web''),
     (''VG'', ''Vagaa''),
     (''WD'', ''WebTorrent Desktop''),
     (''WT'', ''BitLet''),
     (''WW'', ''WebTorrent''),
     (''WY'', ''FireTorrent''),
     (''XL'', ''Xunlei''),
     (''XT'', ''XanTorrent''),
     (''XX'', ''Xtorrent''),
     (''ZT'', ''ZipTorrent'')]"

definition client_from_bytes :: "bytes \<Rightarrow> client" where
  "client_from_bytes bs =
     \<lparr>client_name =
        (case map_of client_names (bytes_str (take 2 bs)) of Some name \<Rightarrow> name | None \<Rightarrow> ''Unknown''),
      client_code = (ucast (bs ! 0), ucast (bs ! 1)),
      client_version = push_bit 8 (ucast (bs ! 2)) OR ucast (bs ! 3)\<rparr>"

subsection \<open>To the KRPC record\<close>

definition no_args_bep44 :: message_args_bep44 where
  "no_args_bep44 = \<lparr>args_v = None, args_seq = None, args_cas = None, args_k = None, args_salt = None, args_sig = None\<rparr>"

definition no_res_bep44 :: kresponse_bep44 where
  "no_res_bep44 = \<lparr>res_v = None, res_seq = None, res_k = None, res_sig = None\<rparr>"

definition no_res_bep51 :: response_bep51 where
  "no_res_bep51 = \<lparr>res_interval = None, res_samples = None, res_num = None\<rparr>"

text \<open>The records that the builders start from.\<close>

definition args_builder :: "u160 \<Rightarrow> message_args" where
  "args_builder i =
     \<lparr>args_id = i, args_target = None, args_port = None, args_implied_port = None, args_token = None,
      args_info_hash = None, args_bep44 = no_args_bep44\<rparr>"

definition kresponse_builder :: "u160 \<Rightarrow> kresponse" where
  "kresponse_builder i =
     \<lparr>res_id = i, res_nodes = None, res_token = None, res_values = None, res_bep44 = no_res_bep44,
      res_bep51 = no_res_bep51\<rparr>"

definition kmessage_builder :: "bytes \<Rightarrow> string \<Rightarrow> socket_addr_wrapper \<Rightarrow> bool \<Rightarrow> kmessage" where
  "kmessage_builder tid y ip ro =
     \<lparr>k_transaction_id = tid, k_message_type = y, k_query_method = None, k_arguments = None,
      k_response = None, k_error = None, k_requestor_ip = Some ip, k_read_only = Some ro, k_version = None\<rparr>"

fun query_kmethod :: "query_method \<Rightarrow> string" where
  "query_kmethod Ping = Q_PING"
| "query_kmethod (FindNode target) = Q_FIND_NODE"
| "query_kmethod (GetPeers info_hash) = Q_GET_PEERS"
| "query_kmethod (AnnouncePeer info_hash port token) = Q_ANNOUNCE_PEER"
| "query_kmethod (Put b) = Q_PUT"
| "query_kmethod Get = Q_GET"
| "query_kmethod (SampleInfohashes target) = Q_SAMPLE_INFOHASHES"

fun query_args :: "u160 \<Rightarrow> query_method \<Rightarrow> message_args" where
  "query_args i Ping = args_builder i"
| "query_args i (FindNode target) = (args_builder i)\<lparr>args_target := Some target\<rparr>"
| "query_args i (GetPeers info_hash) = (args_builder i)\<lparr>args_info_hash := Some info_hash\<rparr>"
| "query_args i (AnnouncePeer info_hash port token) =
     (args_builder i)\<lparr>args_info_hash := Some info_hash, args_token := Some token, args_port := Some port\<rparr>"
| "query_args i (Put b) = (args_builder i)\<lparr>args_bep44 := b\<rparr>"
| "query_args i Get = args_builder i"
| "query_args i (SampleInfohashes target) = (args_builder i)\<lparr>args_target := Some target\<rparr>"

fun kind_kresponse :: "u160 \<Rightarrow> response_kind \<Rightarrow> kresponse" where
  "kind_kresponse i Ok = kresponse_builder i"
| "kind_kresponse i (KNearest ns token) =
     (kresponse_builder i)\<lparr>res_nodes := Some \<lparr>dht_nodes = ns\<rparr>, res_token := token\<rparr>"
| "kind_kresponse i (Peers peers token ns) =
     (kresponse_builder i)\<lparr>res_values := Some (map (\<lambda>p. \<lparr>socket_addr = Some p\<rparr>) peers),
       res_token := Some token, res_nodes := map_option (\<lambda>n. \<lparr>dht_nodes = n\<rparr>) ns\<rparr>"
| "kind_kresponse i (Data b) = (kresponse_builder i)\<lparr>res_bep44 := b\<rparr>"
| "kind_kresponse i (Samples ns samples available interval) =
     (kresponse_builder i)\<lparr>res_nodes := Some \<lparr>dht_nodes = ns\<rparr>,
       res_bep51 := \<lparr>res_interval = Some interval, res_samples = Some \<lparr>info_hashes = samples\<rparr>,
                     res_num = Some available\<rparr>\<rparr>"

fun requestor_field :: "message \<Rightarrow> socket_addr option" where
  "requestor_field (Query q) = Some (sender_addr (origin (query_base q)))"
| "requestor_field (Response r) = requestor_addr (resp_base r)"
| "requestor_field (Error e) = None"

definition to_kmsg :: "message \<Rightarrow> kmessage" where
  "to_kmsg m =
     (let b = message_base_of m;
          builder = (\<lambda>y. kmessage_builder (transaction_id b) y \<lparr>socket_addr = requestor_field m\<rparr> (read_only b))
      in case m of
           Query q \<Rightarrow> (builder Y_QUERY)\<lparr>k_query_method := Some (query_kmethod (query_meth q)),
             k_arguments := Some (query_args (sender_id (origin b)) (query_meth q))\<rparr>
         | Response r \<Rightarrow> (builder Y_RESPONSE)\<lparr>k_response := Some (kind_kresponse (sender_id (origin b)) (resp_kind r))\<rparr>
         | Error e \<Rightarrow> (builder Y_ERROR)\<lparr>k_error := Some (KError (err_code (error_err e)) (err_desc (error_err e)))\<rparr>)"

subsection \<open>From the KRPC record\<close>

definition ok_or :: "'a option \<Rightarrow> known_error \<Rightarrow> known_error + 'a" where
  "ok_or v e = (case v of Some a \<Rightarrow> Inr a | None \<Rightarrow> Inl e)"

definition received_base :: "socket_addr \<Rightarrow> u160 \<Rightarrow> kmessage \<Rightarrow> message_base" where
  "received_base origin_addr i k =
     \<lparr>origin = Remote \<lparr>node_id = i, node_addr = origin_addr\<rparr>, destination = ReceiverMe,
      requestor_addr = (case k_requestor_ip k of Some wrap \<Rightarrow> socket_addr wrap | None \<Rightarrow> None),
      transaction_id = k_transaction_id k,
      read_only = (case k_read_only k of Some ro \<Rightarrow> ro | None \<Rightarrow> False),
      base_client = map_option client_from_bytes
        (case k_version k of Some v \<Rightarrow> if length v = 4 then Some v else None | None \<Rightarrow> None)\<rparr>"

definition method_of :: "socket_addr \<Rightarrow> string \<Rightarrow> message_args \<Rightarrow> known_error + query_method" where
  "method_of origin_addr m args =
     (if m = Q_PING then Inr Ping
      else if m = Q_FIND_NODE then rbind (ok_or (args_target args) Protocol) (\<lambda>t. Inr (FindNode t))
      else if m = Q_ANNOUNCE_PEER then
        rbind (ok_or (args_info_hash args) Protocol) (\<lambda>info_hash.
        rbind (ok_or (args_token args) Protocol) (\<lambda>token.
        Inr (AnnouncePeer info_hash
          (if (case args_implied_port args of Some b \<Rightarrow> b | None \<Rightarrow> False) \<or> args_port args = None
           then sock_port origin_addr else the (args_port args)) token)))
      else if m = Q_GET_PEERS then rbind (ok_or (args_info_hash args) Protocol) (\<lambda>h. Inr (GetPeers h))
      else if m = Q_PUT then Inr (Put (args_bep44 args))
      else if m = Q_GET then Inr Get
      else if m = Q_SAMPLE_INFOHASHES then rbind (ok_or (args_target args) Protocol) (\<lambda>t. Inr (SampleInfohashes t))
      else (case (case args_info_hash args of Some h \<Rightarrow> Some h | None \<Rightarrow> args_target args) of
              Some target \<Rightarrow> Inr (FindNode target)
            | None \<Rightarrow> Inl MethodUnknown))"

definition kind_of :: "kresponse \<Rightarrow> known_error + response_kind" where
  "kind_of r =
     (case res_values r of
        Some peers \<Rightarrow>
          rbind (ok_or (res_token r) Protocol) (\<lambda>token.
          Inr (Peers (List.map_filter socket_addr peers) token (map_option dht_nodes (res_nodes r))))
      | None \<Rightarrow>
          if res_v (res_bep44 r) \<noteq> None then Inr (Data (res_bep44 r))
          else (case res_samples (res_bep51 r) of
                  Some c \<Rightarrow>
                    rbind (ok_or (res_nodes r) Protocol) (\<lambda>ns.
                    Inr (Samples (dht_nodes ns) (info_hashes c)
                      (case res_num (res_bep51 r) of Some n \<Rightarrow> n | None \<Rightarrow> 0)
                      (case res_interval (res_bep51 r) of Some n \<Rightarrow> n | None \<Rightarrow> 0)))
                | None \<Rightarrow>
                    (case res_nodes r of
                       Some ns \<Rightarrow> Inr (KNearest (dht_nodes ns) (res_token r))
                     | None \<Rightarrow> Inr Ok)))"

definition from_kmsg :: "socket_addr \<Rightarrow> kmessage \<Rightarrow> known_error + message" where
  "from_kmsg origin_addr k =
     (if k_message_type k = Y_ERROR then
        rbind (ok_or (k_error k) Protocol) (\<lambda>e.
        Inr (Error \<lparr>error_err = e, error_base = received_base origin_addr u160_min k\<rparr>))
      else if k_message_type k = Y_QUERY then
        (case k_arguments k of
           Some args \<Rightarrow>
             rbind (ok_or (k_query_method k) Protocol) (\<lambda>m.
             rbind (method_of origin_addr m args) (\<lambda>meth.
             Inr (Query \<lparr>query_meth = meth, query_base = received_base origin_addr (args_id args) k\<rparr>)))
         | None \<Rightarrow> Inl Protocol)
      else if k_message_type k = Y_RESPONSE then
        (case k_response k of
           Some response \<Rightarrow>
             rbind (kind_of response) (\<lambda>kind.
             Inr (Response \<lparr>resp_kind = kind, resp_base = received_base origin_addr (res_id response) k\<rparr>))
         | None \<Rightarrow> Inl Protocol)
      else Inl Protocol)"

subsection \<open>Bytes\<close>

definition receive ::
  "(bytes \<Rightarrow> bval option) \<Rightarrow> bytes \<Rightarrow> socket_addr \<Rightarrow> (kmessage option \<times> known_error) + message" where
  "receive bdecode bs from_addr =
     (case Option.bind (bdecode bs) kmessage_deserialize of
        None \<Rightarrow> Inl (None, Server)
      | Some k \<Rightarrow> (case from_kmsg from_addr k of Inl e \<Rightarrow> Inl (Some k, e) | Inr m \<Rightarrow> Inr m))"

definition to_bytes :: "(bval \<Rightarrow> 'e + bytes) \<Rightarrow> message \<Rightarrow> ('e + bytes) res" where
  "to_bytes bencode m = rbind (kmessage_serialize (to_kmsg m)) (\<lambda>t. Inr (bencode t))"

subsection \<open>What a receiver makes of a message\<close>

text \<open>The message that arrives when \<open>m\<close> is sent from the address \<open>a\<close>.\<close>

definition received_at :: "socket_addr \<Rightarrow> socket_addr option \<Rightarrow> u160 \<Rightarrow> message_base \<Rightarrow> message_base" where
  "received_at a req i b =
     \<lparr>origin = Remote \<lparr>node_id = i, node_addr = a\<rparr>, destination = ReceiverMe, requestor_addr = req,
      transaction_id = transaction_id b, read_only = read_only b, base_client = None\<rparr>"

fun received_kind :: "response_kind \<Rightarrow> response_kind" where
  "received_kind (Data b) = (if res_v b = None then Ok else Data b)"
| "received_kind k = k"

fun received :: "socket_addr \<Rightarrow> message \<Rightarrow> message" where
  "received a (Query q) = Query \<lparr>query_meth = query_meth q, query_base =
     received_at a (Some (sender_addr (origin (query_base q)))) (sender_id (origin (query_base q))) (query_base q)\<rparr>"
| "received a (Response r) = Response \<lparr>resp_kind = received_kind (resp_kind r), resp_base =
     received_at a (requestor_addr (resp_base r)) (sender_id (origin (resp_base r))) (resp_base r)\<rparr>"
| "received a (Error e) = Error \<lparr>error_err = error_err e, error_base =
     received_at a None u160_min (error_base e)\<rparr>"

lemmas k_names = Q_ANNOUNCE_PEER_def Q_PING_def Q_FIND_NODE_def Q_GET_PEERS_def Q_PUT_def Q_GET_def
  Q_SAMPLE_INFOHASHES_def Y_QUERY_def Y_RESPONSE_def Y_ERROR_def

lemmas builders = args_builder_def kresponse_builder_def kmessage_builder_def no_args_bep44_def
  no_res_bep44_def no_res_bep51_def

lemma method_of_query: "method_of a (query_kmethod m) (query_args i m) = Inr m"
  by (cases m) (simp_all add: method_of_def k_names builders ok_or_def)

lemma map_filter_wrapped: "List.map_filter socket_addr (map (\<lambda>p. \<lparr>socket_addr = Some p\<rparr>) ps) = ps"
  by (induction ps) (simp_all add: List.map_filter_simps)

lemma kind_of_kresponse: "kind_of (kind_kresponse i k) = Inr (received_kind k)"
  by (cases k) (auto simp: kind_of_def builders ok_or_def map_filter_wrapped option.map_comp comp_def option.map_ident)

lemma query_args_id: "args_id (query_args i m) = i"
  by (cases m) (simp_all add: builders)

lemma kind_kresponse_id: "res_id (kind_kresponse i k) = i"
  by (cases k) (simp_all add: builders)

lemma received_base_eq:
  "k_requestor_ip k = Some w \<Longrightarrow> k_read_only k = Some (read_only b) \<Longrightarrow> k_version k = None \<Longrightarrow>
   k_transaction_id k = transaction_id b \<Longrightarrow> received_base a i k = received_at a (socket_addr w) i b"
  by (simp add: received_base_def received_at_def)

lemma from_to_kmsg: "from_kmsg a (to_kmsg m) = Inr (received a m)"
proof (cases m)
  case (Query q)
  then show ?thesis
    by (simp add: from_kmsg_def to_kmsg_def Let_def kmessage_builder_def ok_or_def method_of_query
        query_args_id received_base_eq [where b = "query_base q"]) (simp add: k_names)
next
  case (Response r)
  then show ?thesis
    by (simp add: from_kmsg_def to_kmsg_def Let_def kmessage_builder_def ok_or_def kind_of_kresponse
        kind_kresponse_id received_base_eq [where b = "resp_base r"]) (simp add: k_names)
next
  case (Error e)
  then show ?thesis
    by (simp add: from_kmsg_def to_kmsg_def Let_def kmessage_builder_def ok_or_def
        received_base_eq [where b = "error_base e"])
qed

fun kind_valid :: "response_kind \<Rightarrow> bool" where
  "kind_valid Ok = True"
| "kind_valid (KNearest ns token) = (\<forall>n\<in>set ns. is_ip4 n)"
| "kind_valid (Peers peers token ns) = ((\<forall>p\<in>set peers. plain_addr p) \<and> pred_option (\<lambda>ns. \<forall>n\<in>set ns. is_ip4 n) ns)"
| "kind_valid (Data b) = True"
| "kind_valid (Samples ns samples available interval) = (\<forall>n\<in>set ns. is_ip4 n)"

fun message_valid :: "message \<Rightarrow> bool" where
  "message_valid (Query q) \<longleftrightarrow> plain_addr (sender_addr (origin (query_base q))) \<and>
     (\<forall>b. query_meth q = Put b \<longrightarrow> pred_option is_utf8 (args_salt b))"
| "message_valid (Response r) \<longleftrightarrow> pred_option plain_addr (requestor_addr (resp_base r)) \<and> kind_valid (resp_kind r)"
| "message_valid (Error e) \<longleftrightarrow> is_utf8 (err_desc (error_err e))"

lemma names_utf8: "is_utf8 (query_kmethod m)" "is_utf8 Y_QUERY" "is_utf8 Y_RESPONSE" "is_utf8 Y_ERROR"
proof -
  have "is_utf8 ''announce_peer''" "is_utf8 ''ping''" "is_utf8 ''find_node''" "is_utf8 ''get_peers''"
    "is_utf8 ''put''" "is_utf8 ''get''" "is_utf8 ''sample_infohashes''" by code_simp+
  then show "is_utf8 (query_kmethod m)" by (cases m) (simp_all add: k_names)
  show "is_utf8 Y_QUERY" "is_utf8 Y_RESPONSE" "is_utf8 Y_ERROR" by code_simp+
qed

lemma kind_kresponse_valid: "kind_valid k \<Longrightarrow> kresponse_valid (kind_kresponse i k)"
  by (cases k) (auto simp: kresponse_valid_def builders pred_option_def)

lemma query_args_valid:
  "(\<forall>b. m = Put b \<longrightarrow> pred_option is_utf8 (args_salt b)) \<Longrightarrow> args_valid (query_args i m)"
  by (cases m) (simp_all add: args_valid_def builders)

lemma to_kmsg_valid: "message_valid m \<Longrightarrow> kmessage_valid (to_kmsg m)"
  by (cases m) (auto simp: to_kmsg_def kmessage_valid_def Let_def kmessage_builder_def names_utf8
      kind_kresponse_valid query_args_valid)

lemma receive_to_bytes:
  assumes "message_valid m"
    "\<And>t. kmessage_serialize (to_kmsg m) = Inr t \<Longrightarrow> \<exists>bs. bencode t = Inr bs \<and> bdecode bs = Some (canon t)"
  shows "\<exists>bs. to_bytes bencode m = Inr (Inr bs) \<and> receive bdecode bs a = Inr (received a m)"
proof -
  obtain t where t: "kmessage_serialize (to_kmsg m) = Inr t" "kmessage_deserialize (canon t) = Some (to_kmsg m)"
    using kmessage_roundtrip [OF to_kmsg_valid [OF assms(1)]] by blast
  with assms(2) [OF t(1)] show ?thesis
    by (auto simp: to_bytes_def receive_def from_to_kmsg)
qed

lemma client_bytes:
  assumes "length bs = 4"
  shows "client_to_bytes (client_from_bytes bs) = bs"
proof -
  obtain b0 b1 b2 b3 where bs: "bs = [b0, b1, b2, b3]"
    using assms by (auto simp: length_Suc_conv numeral_eq_Suc)
  have hi: "ucast (drop_bit 8 (push_bit 8 (ucast b2 :: u16)) OR drop_bit 8 (ucast b3 :: u16)) = b2"
    by (rule bit_word_eqI) (auto simp: bit_simps dest: bit_imp_le_length)
  have lo: "ucast ((push_bit 8 (ucast b2) OR ucast b3 :: u16) AND 0xff) = b3"
  proof (rule bit_word_eqI)
    have m: "(0xff :: u16) = mask 8" by (simp add: mask_eq_exp_minus_1)
    fix n assume "n < LENGTH(8)"
    then show "bit (ucast ((push_bit 8 (ucast b2) OR ucast b3 :: u16) AND 0xff) :: u8) n = bit b3 n"
      unfolding m by (simp add: bit_simps)
  qed
  have id8: "ucast (ucast b :: u32) = b" for b :: u8
    by (rule bit_word_eqI) (simp add: bit_simps)
  show ?thesis by (simp add: bs client_to_bytes_def client_from_bytes_def hi lo id8)
qed

lemma from_kmsg_base:
  assumes "from_kmsg a k = Inr m"
  shows "\<exists>i. message_base_of m = received_base a i k \<and>
    (case m of Query q \<Rightarrow> k_message_type k = Y_QUERY \<and> (\<exists>args. k_arguments k = Some args \<and> i = args_id args)
     | Response r \<Rightarrow> k_message_type k = Y_RESPONSE \<and> (\<exists>r. k_response k = Some r \<and> i = res_id r)
     | Error e \<Rightarrow> k_message_type k = Y_ERROR \<and> k_error k = Some (error_err e) \<and> i = u160_min)"
  using assms by (auto simp: from_kmsg_def ok_or_def rbind_eq_Inr split: if_splits option.splits)

lemma method_of_errors:
  "method_of a m args = Inl e \<Longrightarrow>
     e = Protocol \<or>
     e = MethodUnknown \<and> args_info_hash args = None \<and> args_target args = None \<and>
       m \<notin> {Q_PING, Q_FIND_NODE, Q_ANNOUNCE_PEER, Q_GET_PEERS, Q_PUT, Q_GET, Q_SAMPLE_INFOHASHES}"
  by (auto simp: method_of_def ok_or_def split: if_splits option.splits)

lemma rbind_eq_Inl: "rbind m f = Inl e \<longleftrightarrow> m = Inl e \<or> (\<exists>a. m = Inr a \<and> f a = Inl e)"
  by (cases m) simp_all

lemma ok_or_Inl: "ok_or v e = Inl e' \<longleftrightarrow> v = None \<and> e' = e"
  by (auto simp: ok_or_def split: option.splits)

lemma ok_or_Inr: "ok_or v e = Inr a \<longleftrightarrow> v = Some a"
  by (auto simp: ok_or_def split: option.splits)

lemma kind_of_errors: "kind_of r = Inl e \<Longrightarrow> e = Protocol"
  by (auto simp: kind_of_def rbind_eq_Inl ok_or_Inl split: option.splits if_splits)

lemma from_kmsg_unknown:
  "from_kmsg a k = Inl MethodUnknown \<longrightarrow>
      k_message_type k = Y_QUERY \<and> (\<exists>args meth. k_arguments k = Some args \<and> k_query_method k = Some meth \<and>
        args_info_hash args = None \<and> args_target args = None \<and>
        meth \<notin> {Q_PING, Q_FIND_NODE, Q_ANNOUNCE_PEER, Q_GET_PEERS, Q_PUT, Q_GET, Q_SAMPLE_INFOHASHES})"
proof
  assume u: "from_kmsg a k = Inl MethodUnknown"
  then have q: "k_message_type k = Y_QUERY"
    using kind_of_errors by (fastforce simp: from_kmsg_def rbind_eq_Inl ok_or_Inl split: option.splits if_splits)
  with u obtain args meth where "k_arguments k = Some args" "k_query_method k = Some meth"
      "method_of a meth args = Inl MethodUnknown"
    by (auto simp: from_kmsg_def rbind_eq_Inl ok_or_Inl ok_or_Inr k_names split: option.splits)
  with q method_of_errors [of a meth args MethodUnknown] show "k_message_type k = Y_QUERY \<and>
      (\<exists>args meth. k_arguments k = Some args \<and> k_query_method k = Some meth \<and>
        args_info_hash args = None \<and> args_target args = None \<and>
        meth \<notin> {Q_PING, Q_FIND_NODE, Q_ANNOUNCE_PEER, Q_GET_PEERS, Q_PUT, Q_GET, Q_SAMPLE_INFOHASHES})"
    by blast
qed

lemma from_kmsg_error_kinds: "from_kmsg a k = Inl e \<longrightarrow> e = Protocol \<or> e = MethodUnknown"
  using method_of_errors kind_of_errors
  by (fastforce simp: from_kmsg_def rbind_eq_Inl ok_or_Inl split: option.splits if_splits)

lemma from_kmsg_unknown_method:
  assumes "k_message_type k = Y_QUERY" "k_arguments k = Some args" "k_query_method k = Some meth"
    "meth \<notin> {Q_PING, Q_FIND_NODE, Q_ANNOUNCE_PEER, Q_GET_PEERS, Q_PUT, Q_GET, Q_SAMPLE_INFOHASHES}"
  shows "from_kmsg a k =
        (case (args_info_hash args, args_target args) of
           (Some h, _) \<Rightarrow> Inr (Query \<lparr>query_meth = FindNode h, query_base = received_base a (args_id args) k\<rparr>)
         | (None, Some t) \<Rightarrow> Inr (Query \<lparr>query_meth = FindNode t, query_base = received_base a (args_id args) k\<rparr>)
         | (None, None) \<Rightarrow> Inl MethodUnknown)"
proof -
  have "Y_QUERY \<noteq> Y_ERROR" by (simp add: k_names)
  with assms show ?thesis
    by (simp add: from_kmsg_def ok_or_def method_of_def split: option.splits)
qed

subsection \<open>Properties\<close>

text \<open>A message sent as a datagram arrives as the same message: the KRPC record \<open>to_kmsg\<close> builds
  is read back by \<open>from_kmsg\<close> as the same kind of message with the same contents, transaction
  and read-only flag, seen as coming from the sender's identifier at the address of the
  datagram.  Two contents are not carried over: an error has no requestor address and no
  sender identifier, and stored data without a value arrives as a plain acknowledgement.\<close>

theorem kmsg_roundtrip: "from_kmsg a (to_kmsg m) = Inr (received a m)"
  by (rule from_to_kmsg)


definition ex_ping :: message where
  "ex_ping = Query (into_query
     \<lparr>origin = Me \<lparr>node_id = u160_max, node_addr = SockV4 1 2\<rparr>, destination = Addr (SockV4 3 4),
      requestor_addr = Some (SockV4 1 2), transaction_id = [6, 5, 4], read_only = True, base_client = None\<rparr> Ping)"


lemma kmsg_roundtrip_ex: "from_kmsg (SockV4 7 7) (to_kmsg ex_ping) = Inr (received (SockV4 7 7) ex_ping)"
  by (rule from_to_kmsg)

text \<open>Whatever record arrives, the message made of it carries the record's transaction, is
  addressed to this node, and comes from the address of the datagram under the identifier of
  the record (zero in an error); its type is the one the record names.\<close>

theorem from_kmsg_provenance:
  assumes "from_kmsg a k = Inr m"
  shows "transaction_id (message_base_of m) = k_transaction_id k \<and>
    destination (message_base_of m) = ReceiverMe \<and>
    sender_addr (origin (message_base_of m)) = a \<and>
    (case m of Query q \<Rightarrow> k_message_type k = Y_QUERY \<and>
         (\<exists>args. k_arguments k = Some args \<and> sender_id (origin (query_base q)) = args_id args)
     | Response r \<Rightarrow> k_message_type k = Y_RESPONSE \<and>
         (\<exists>r'. k_response k = Some r' \<and> sender_id (origin (resp_base r)) = res_id r')
     | Error e \<Rightarrow> k_message_type k = Y_ERROR \<and> sender_id (origin (error_base e)) = u160_min)"
proof -
  from from_kmsg_base [OF assms] obtain i where b: "message_base_of m = received_base a i k"
    and t: "case m of Query q \<Rightarrow> k_message_type k = Y_QUERY \<and> (\<exists>args. k_arguments k = Some args \<and> i = args_id args)
     | Response r \<Rightarrow> k_message_type k = Y_RESPONSE \<and> (\<exists>r. k_response k = Some r \<and> i = res_id r)
     | Error e \<Rightarrow> k_message_type k = Y_ERROR \<and> k_error k = Some (error_err e) \<and> i = u160_min" by blast
  have "sender_id (origin (message_base_of m)) = i" "transaction_id (message_base_of m) = k_transaction_id k"
    "destination (message_base_of m) = ReceiverMe" "sender_addr (origin (message_base_of m)) = a"
    by (simp_all add: b received_base_def)
  with t show ?thesis by (cases m) simp_all
qed

theorem from_kmsg_provenance_witness:
  "sender_addr (origin (message_base_of (received (SockV4 7 7) ex_ping))) = SockV4 7 7"
  using from_kmsg_provenance [OF kmsg_roundtrip_ex] by simp

text \<open>C33: which records are refused, and how: always with \<open>Protocol\<close>, except for a query by a method
  the program does not know whose arguments name neither an info hash nor a target, which is
  \<open>MethodUnknown\<close>; with one of the two the unknown query is taken for \<open>find_node\<close>.\<close>

theorem from_kmsg_refusals:
  "(from_kmsg a k = Inl e \<longrightarrow> e = Protocol \<or> e = MethodUnknown) \<and>
   (k_message_type k = Y_QUERY \<and> k_arguments k = Some args \<and> k_query_method k = Some meth \<and>
    meth \<notin> {Q_PING, Q_FIND_NODE, Q_ANNOUNCE_PEER, Q_GET_PEERS, Q_PUT, Q_GET, Q_SAMPLE_INFOHASHES} \<longrightarrow>
      from_kmsg a k =
        (case (args_info_hash args, args_target args) of
           (Some h, _) \<Rightarrow> Inr (Query \<lparr>query_meth = FindNode h, query_base = received_base a (args_id args) k\<rparr>)
         | (None, Some t) \<Rightarrow> Inr (Query \<lparr>query_meth = FindNode t, query_base = received_base a (args_id args) k\<rparr>)
         | (None, None) \<Rightarrow> Inl MethodUnknown)) \<and>
   (from_kmsg a k = Inl MethodUnknown \<longrightarrow>
      k_message_type k = Y_QUERY \<and> (\<exists>args meth. k_arguments k = Some args \<and> k_query_method k = Some meth \<and>
        args_info_hash args = None \<and> args_target args = None \<and>
        meth \<notin> {Q_PING, Q_FIND_NODE, Q_ANNOUNCE_PEER, Q_GET_PEERS, Q_PUT, Q_GET, Q_SAMPLE_INFOHASHES}))"
proof (intro conjI)
  show "from_kmsg a k = Inl e \<longrightarrow> e = Protocol \<or> e = MethodUnknown" by (rule from_kmsg_error_kinds)
  show "from_kmsg a k = Inl MethodUnknown \<longrightarrow>
      k_message_type k = Y_QUERY \<and> (\<exists>args meth. k_arguments k = Some args \<and> k_query_method k = Some meth \<and>
        args_info_hash args = None \<and> args_target args = None \<and>
        meth \<notin> {Q_PING, Q_FIND_NODE, Q_ANNOUNCE_PEER, Q_GET_PEERS, Q_PUT, Q_GET, Q_SAMPLE_INFOHASHES})"
    by (rule from_kmsg_unknown)
qed (auto simp: from_kmsg_unknown_method)

definition ex_unknown :: "u160 option \<Rightarrow> kmessage" where
  "ex_unknown t = (kmessage_builder [1] Y_QUERY \<lparr>socket_addr = None\<rparr> False)
     \<lparr>k_query_method := Some ''vote'', k_arguments := Some ((args_builder u160_min)\<lparr>args_target := t\<rparr>)\<rparr>"

theorem from_kmsg_refusals_witness:
  "from_kmsg (SockV4 1 2) (ex_unknown None) = Inl MethodUnknown \<and>
   from_kmsg (SockV4 1 2) (ex_unknown (Some u160_max)) =
     Inr (Query \<lparr>query_meth = FindNode u160_max, query_base = received_base (SockV4 1 2) u160_min (ex_unknown (Some u160_max))\<rparr>)"
proof -
  have k: "k_message_type (ex_unknown t) = Y_QUERY" "k_query_method (ex_unknown t) = Some ''vote''"
    "k_arguments (ex_unknown t) = Some ((args_builder u160_min)\<lparr>args_target := t\<rparr>)" for t
    by (simp_all add: ex_unknown_def kmessage_builder_def)
  have new: "''vote'' \<notin> {Q_PING, Q_FIND_NODE, Q_ANNOUNCE_PEER, Q_GET_PEERS, Q_PUT, Q_GET, Q_SAMPLE_INFOHASHES}"
    by (simp add: k_names)
  have "from_kmsg (SockV4 1 2) (ex_unknown t) =
        (case (args_info_hash ((args_builder u160_min)\<lparr>args_target := t\<rparr>), args_target ((args_builder u160_min)\<lparr>args_target := t\<rparr>)) of
           (Some h, _) \<Rightarrow> Inr (Query \<lparr>query_meth = FindNode h, query_base = received_base (SockV4 1 2) (args_id ((args_builder u160_min)\<lparr>args_target := t\<rparr>)) (ex_unknown t)\<rparr>)
         | (None, Some t') \<Rightarrow> Inr (Query \<lparr>query_meth = FindNode t', query_base = received_base (SockV4 1 2) (args_id ((args_builder u160_min)\<lparr>args_target := t\<rparr>)) (ex_unknown t)\<rparr>)
         | (None, None) \<Rightarrow> Inl MethodUnknown)" for t
    using from_kmsg_refusals [of "SockV4 1 2" "ex_unknown t" Generic "(args_builder u160_min)\<lparr>args_target := t\<rparr>" "''vote''"]
      k new by blast
  from this [of None] this [of "Some u160_max"] show ?thesis by (simp add: builders)
qed

text \<open>The four bytes of a client tag are recovered from the parsed client.\<close>

theorem client_roundtrip:
  assumes "length bs = 4"
  shows "client_to_bytes (client_from_bytes bs) = bs"
  by (rule client_bytes [OF assms])

theorem client_roundtrip_witness: "client_to_bytes (client_from_bytes [76, 84, 1, 2]) = [76, 84, 1, 2]"
  using client_roundtrip [of "[76, 84, 1, 2]"] by simp

end
