(* ===== verification/Service.thy ===== *)
theory Service
  imports Message
begin

text \<open>
  \<open>messenger/service.rs\<close> and the trait of \<open>messenger.rs\<close>: the queue of unanswered queries, what
  is sent, and what a received datagram leads to.  The socket is a parameter \<open>send_to\<close> that
  says whether a datagram could be sent; the datagrams sent are recorded in the ghost field
  \<open>sent\<close>.  A oneshot channel is the number of the caller that waits on it.  The tasks of one
  service are a step relation: each step is what the code does without giving up the lock of
  the queue, and the select of \<open>query_unbounded\<close> may take either branch when both are ready.
\<close>

subsection \<open>State\<close>

record outstanding_query =
  oq_transaction_id :: bytes
  oq_destination_addr :: socket_addr
  oq_return_value :: nat
  oq_timestamp_millis :: int

record service =
  queries_outbound :: "outstanding_query list"
  has_handler :: bool
  packet_num :: u64
  sent :: "(bytes \<times> socket_addr) list"

datatype send_error = NoQueryHandler | SerializeFailed | ToMyself | SendFailed

fun send_error_string :: "(send_error \<Rightarrow> string) \<Rightarrow> send_error \<Rightarrow> string" where
  "send_error_string wrapped NoQueryHandler = ''read only false but no query handler available''"
| "send_error_string wrapped ToMyself =
     ''You probably didn'' @ [CHR 0x27] @ ''t mean to message yourself like this''"
| "send_error_string wrapped SerializeFailed = wrapped SerializeFailed"
| "send_error_string wrapped SendFailed = wrapped SendFailed"

subsection \<open>Operations\<close>

definition remove_from_queue ::
  "service \<Rightarrow> bytes \<Rightarrow> socket_addr \<Rightarrow> outstanding_query option \<times> service" where
  "remove_from_queue s tid queried_addr =
     (let queue = queries_outbound s
      in case position (\<lambda>q. oq_transaction_id q = tid) queue of
           Some i \<Rightarrow> (Some (queue ! i), s\<lparr>queries_outbound := vec_remove queue i\<rparr>)
         | None \<Rightarrow>
             (case position (\<lambda>q. oq_destination_addr q = queried_addr) queue of
                Some i \<Rightarrow> (Some (queue ! i), s\<lparr>queries_outbound := vec_remove queue i\<rparr>)
              | None \<Rightarrow> (None, s)))"

definition send_message ::
  "(bval \<Rightarrow> 'e + bytes) \<Rightarrow> (bytes \<Rightarrow> socket_addr \<Rightarrow> bool) \<Rightarrow> service \<Rightarrow> message \<Rightarrow>
     (service \<times> (send_error + unit)) res" where
  "send_message bencode send_to s m =
     (if \<not> read_only (message_base_of m) \<and> \<not> has_handler s then Inr (s, Inl NoQueryHandler)
      else
        let s1 = s\<lparr>packet_num := packet_num s + 1\<rparr>
        in rbind (to_bytes bencode m) (\<lambda>r.
           case r of
             Inl e \<Rightarrow> Inr (s1, Inl SerializeFailed)
           | Inr bs \<Rightarrow>
               (case (case destination (message_base_of m) of
                        Node n \<Rightarrow> Some (node_addr n) | Addr a \<Rightarrow> Some a | ReceiverMe \<Rightarrow> None) of
                  None \<Rightarrow> Inr (s1, Inl ToMyself)
                | Some addr \<Rightarrow>
                    if send_to bs addr then Inr (s1\<lparr>sent := sent s1 @ [(bs, addr)]\<rparr>, Inr ())
                    else Inr (s1, Inl SendFailed))))"

text \<open>\<open>query_unbounded\<close> up to the select: the entry is queued under the lock, then the message is
  sent; \<open>None\<close> is a caller that now waits, \<open>Some\<close> a caller that has its result.\<close>

definition query_push :: "nat \<Rightarrow> int \<Rightarrow> service \<Rightarrow> query \<Rightarrow> service" where
  "query_push chan now s q =
     s\<lparr>queries_outbound := queries_outbound s @
        [\<lparr>oq_transaction_id = transaction_id (query_base q),
          oq_destination_addr = sender_addr (origin (query_base q)),
          oq_return_value = chan, oq_timestamp_millis = now\<rparr>]\<rparr>"

definition query_send ::
  "(bval \<Rightarrow> 'e + bytes) \<Rightarrow> (bytes \<Rightarrow> socket_addr \<Rightarrow> bool) \<Rightarrow> (send_error \<Rightarrow> string) \<Rightarrow>
     service \<Rightarrow> query \<Rightarrow> (service \<times> query_result option) res" where
  "query_send bencode send_to wrapped s q =
     rbind (send_message bencode send_to s (Query q)) (\<lambda>(s', r).
     Inr (s', case r of
                Inl e \<Rightarrow> Some (Inl (into_error_generic (query_base q) (send_error_string wrapped e)))
              | Inr _ \<Rightarrow> None))"

definition query_start ::
  "(bval \<Rightarrow> 'e + bytes) \<Rightarrow> (bytes \<Rightarrow> socket_addr \<Rightarrow> bool) \<Rightarrow> (send_error \<Rightarrow> string) \<Rightarrow> nat \<Rightarrow> int \<Rightarrow>
     service \<Rightarrow> query \<Rightarrow> (service \<times> query_result option) res" where
  "query_start bencode send_to wrapped chan now s q =
     query_send bencode send_to wrapped (query_push chan now s q) q"

text \<open>The timeout branch of the select; the second result is the channel whose sending half is
  dropped with the entry that \<open>remove_from_queue\<close> took out.\<close>

definition query_timeout :: "service \<Rightarrow> query \<Rightarrow> service \<times> nat option \<times> query_result" where
  "query_timeout s q =
     (case remove_from_queue s (transaction_id (query_base q)) (sender_addr (origin (query_base q))) of
        (dropped, s') \<Rightarrow>
          (s', map_option oq_return_value dropped, Inl (into_error_generic (query_base q) ''Timeout'')))"

text \<open>The other branch, on a value in the channel or on a channel whose sending half is gone;
  \<open>recv_error\<close> is the text of tokio's \<open>RecvError\<close>.\<close>

definition query_receive :: "string \<Rightarrow> query \<Rightarrow> query_result option \<Rightarrow> query_result" where
  "query_receive recv_error q m =
     (case m of None \<Rightarrow> Inl (into_error_generic (query_base q) recv_error) | Some r \<Rightarrow> r)"

text \<open>\<open>return_result\<close>: the channel the result is sent into, if a query waits for it.\<close>

definition return_result :: "service \<Rightarrow> query_result \<Rightarrow> service \<times> (nat \<times> query_result) option" where
  "return_result s result =
     (case remove_from_queue s (transaction_id (result_base result)) (sender_addr (origin (result_base result))) of
        (Some waiting, s') \<Rightarrow> (s', Some (oq_return_value waiting, result))
      | (None, s') \<Rightarrow> (s', None))"

subsection \<open>The handler of incoming queries\<close>

text \<open>The trait \<open>QueryHandler\<close>: what the service relies on is that an answer is addressed to the
  node that asked and repeats its transaction.\<close>

definition answers :: "bytes \<Rightarrow> socket_addr \<Rightarrow> message_base \<Rightarrow> bool" where
  "answers tid a b \<longleftrightarrow>
     transaction_id b = tid \<and> receiver_addr (destination b) = Some a \<and> \<not> read_only b"

text \<open>\<open>handle_received\<close> on a query; \<open>None\<close> is a service without a handler.\<close>

definition handle_received_query ::
  "(bval \<Rightarrow> 'e + bytes) \<Rightarrow> (bytes \<Rightarrow> socket_addr \<Rightarrow> bool) \<Rightarrow>
   ('h \<Rightarrow> query \<Rightarrow> ('h \<times> query_result) res) \<Rightarrow> 'h \<Rightarrow> service \<Rightarrow> query \<Rightarrow> ('h \<times> service) res" where
  "handle_received_query bencode send_to handle_query h s q =
     (if has_handler s
      then rbind (handle_query h q) (\<lambda>(h', r).
           rbind (send_message bencode send_to s (result_message r)) (\<lambda>(s', _). Inr (h', s')))
      else Inr (h, s))"

text \<open>One datagram in the loop of \<open>recv\<close>, together with the task it spawns; the second result is
  what goes into a channel.\<close>

definition recv_packet ::
  "(bval \<Rightarrow> 'e + bytes) \<Rightarrow> (bytes \<Rightarrow> bval option) \<Rightarrow> (bytes \<Rightarrow> socket_addr \<Rightarrow> bool) \<Rightarrow>
   ('h \<Rightarrow> query \<Rightarrow> ('h \<times> query_result) res) \<Rightarrow> ('h \<Rightarrow> bytes \<Rightarrow> socket_addr \<Rightarrow> known_error \<Rightarrow> error_msg) \<Rightarrow>
   'h \<Rightarrow> service \<Rightarrow> bytes \<Rightarrow> socket_addr \<Rightarrow> ('h \<times> service \<times> (nat \<times> query_result) option) res" where
  "recv_packet bencode bdecode send_to handle_query handle_error h s packet from_addr =
     (let s1 = s\<lparr>packet_num := packet_num s + 1\<rparr>
      in case receive bdecode packet from_addr of
           Inr (Query q) \<Rightarrow>
             rbind (handle_received_query bencode send_to handle_query h s1 q) (\<lambda>(h', s'). Inr (h', s', None))
         | Inr (Response r) \<Rightarrow> (case return_result s1 (Inr r) of (s', d) \<Rightarrow> Inr (h, s', d))
         | Inr (Error e) \<Rightarrow> (case return_result s1 (Inl e) of (s', d) \<Rightarrow> Inr (h, s', d))
         | Inl (Some raw, err) \<Rightarrow>
             if has_handler s1
             then rbind (send_message bencode send_to s1 (Error (handle_error h (k_transaction_id raw) from_addr err)))
                    (\<lambda>(s', _). Inr (h, s', None))
             else Inr (h, s1, None)
         | Inl (None, err) \<Rightarrow> Inr (h, s1, None))"

text \<open>One turn of the loop: the socket gives a datagram, nothing (\<open>WouldBlock\<close>) or an error, which is only
  logged.\<close>

datatype socket_read = Datagram bytes socket_addr | WouldBlock | ReadError

definition recv_turn ::
  "(bval \<Rightarrow> 'e + bytes) \<Rightarrow> (bytes \<Rightarrow> bval option) \<Rightarrow> (bytes \<Rightarrow> socket_addr \<Rightarrow> bool) \<Rightarrow>
   ('h \<Rightarrow> query \<Rightarrow> ('h \<times> query_result) res) \<Rightarrow> ('h \<Rightarrow> bytes \<Rightarrow> socket_addr \<Rightarrow> known_error \<Rightarrow> error_msg) \<Rightarrow>
   'h \<Rightarrow> service \<Rightarrow> socket_read \<Rightarrow> ('h \<times> service \<times> (nat \<times> query_result) option) res" where
  "recv_turn bencode bdecode send_to handle_query handle_error h s rd =
     (case rd of
        Datagram packet from_addr \<Rightarrow> recv_packet bencode bdecode send_to handle_query handle_error h s packet from_addr
      | WouldBlock \<Rightarrow> Inr (h, s, None)
      | ReadError \<Rightarrow> Inr (h, s, None))"

subsection \<open>Callers\<close>

text \<open>The calls of \<open>query\<close> and \<open>query_unbounded\<close> on one service: \<open>waiting\<close> holds the calls that have
  not returned with their query, \<open>unsent\<close> those of them that have not sent it yet, \<open>channels\<close> the
  results lying in channels, \<open>closed\<close> the channels whose sending half is gone.  \<open>permits\<close> is the
  semaphore \<open>max_q\<close>, \<open>holding\<close> the calls that have one of its permits.\<close>

record callers =
  svc :: service
  waiting :: "(nat \<times> query) list"
  unsent :: "nat list"
  channels :: "(nat \<times> query_result) list"
  closed :: "nat list"
  returned :: "(nat \<times> query \<times> query_result) list"
  next_chan :: nat
  permits :: nat
  holding :: "nat list"

definition put_channel :: "callers \<Rightarrow> service \<Rightarrow> (nat \<times> query_result) option \<Rightarrow> callers" where
  "put_channel n s d =
     (case d of
        None \<Rightarrow> n\<lparr>svc := s\<rparr>
      | Some (c, r) \<Rightarrow> if c \<in> fst ` set (waiting n) then n\<lparr>svc := s, channels := (c, r) # channels n\<rparr> else n\<lparr>svc := s\<rparr>)"

definition enter :: "callers \<Rightarrow> int \<Rightarrow> query \<Rightarrow> callers" where
  "enter n now q =
     n\<lparr>svc := query_push (next_chan n) now (svc n) q, waiting := (next_chan n, q) # waiting n,
       unsent := next_chan n # unsent n, next_chan := Suc (next_chan n)\<rparr>"

text \<open>A call that ends, in whatever way, drops its permit.\<close>

definition abandon :: "callers \<Rightarrow> nat \<Rightarrow> callers" where
  "abandon n c =
     n\<lparr>waiting := filter (\<lambda>w. fst w \<noteq> c) (waiting n), unsent := removeAll c (unsent n),
       permits := (if c \<in> set (holding n) then permits n + 1 else permits n),
       holding := removeAll c (holding n)\<rparr>"

definition leave :: "callers \<Rightarrow> nat \<Rightarrow> query \<Rightarrow> query_result \<Rightarrow> callers" where
  "leave n c q r = (abandon n c)\<lparr>returned := (c, q, r) # returned n\<rparr>"

inductive caller_step :: "callers \<Rightarrow> callers \<Rightarrow> bool" where
  cs_unbounded: "caller_step n (enter n now q)"
| cs_query: "0 < permits n \<Longrightarrow>
     caller_step n ((enter n now q)\<lparr>permits := permits n - 1, holding := next_chan n # holding n\<rparr>)"
| cs_sent: "(c, q) \<in> set (waiting n) \<Longrightarrow> c \<in> set (unsent n) \<Longrightarrow>
     query_send (bencode :: bval \<Rightarrow> unit + bytes) send_to wrapped (svc n) q = Inr (s', None) \<Longrightarrow>
     caller_step n (n\<lparr>svc := s', unsent := removeAll c (unsent n)\<rparr>)"
| cs_fail: "(c, q) \<in> set (waiting n) \<Longrightarrow> c \<in> set (unsent n) \<Longrightarrow>
     query_send (bencode :: bval \<Rightarrow> unit + bytes) send_to wrapped (svc n) q = Inr (s', Some r) \<Longrightarrow>
     caller_step n (leave (n\<lparr>svc := s'\<rparr>) c q r)"
| cs_panic: "(c, q) \<in> set (waiting n) \<Longrightarrow> c \<in> set (unsent n) \<Longrightarrow>
     query_send (bencode :: bval \<Rightarrow> unit + bytes) send_to wrapped (svc n) q = Inl f \<Longrightarrow>
     caller_step n (abandon n c)"
| cs_arrive: "return_result (svc n) result = (s', d) \<Longrightarrow> caller_step n (put_channel n s' d)"
| cs_send: "send_message (bencode :: bval \<Rightarrow> unit + bytes) send_to (svc n) m = Inr (s', r) \<Longrightarrow> caller_step n (n\<lparr>svc := s'\<rparr>)"
| cs_wake: "(c, q) \<in> set (waiting n) \<Longrightarrow> c \<notin> set (unsent n) \<Longrightarrow> (c, r) \<in> set (channels n) \<Longrightarrow>
     caller_step n (leave n c q (query_receive recv_error q (Some r)))"
| cs_closed: "(c, q) \<in> set (waiting n) \<Longrightarrow> c \<notin> set (unsent n) \<Longrightarrow> c \<in> set (closed n) \<Longrightarrow>
     caller_step n (leave n c q (query_receive recv_error q None))"
| cs_timeout: "(c, q) \<in> set (waiting n) \<Longrightarrow> c \<notin> set (unsent n) \<Longrightarrow> query_timeout (svc n) q = (s', dropped, r) \<Longrightarrow>
     caller_step n (leave (n\<lparr>svc := s', closed := (case dropped of None \<Rightarrow> [] | Some c' \<Rightarrow> [c']) @ closed n\<rparr>) c q r)"

definition service_new :: "bool \<Rightarrow> service" where
  "service_new handler = \<lparr>queries_outbound = [], has_handler = handler, packet_num = 0, sent = []\<rparr>"

definition callers_new :: "bool \<Rightarrow> u8 \<Rightarrow> callers" where
  "callers_new handler max_q =
     \<lparr>svc = service_new handler, waiting = [], unsent = [], channels = [], closed = [], returned = [],
      next_chan = 0, permits = unat max_q, holding = []\<rparr>"

inductive callers_reachable :: "bool \<Rightarrow> u8 \<Rightarrow> callers \<Rightarrow> bool" for handler :: bool and max_q :: u8 where
  cr_new: "callers_reachable handler max_q (callers_new handler max_q)"
| cr_step: "callers_reachable handler max_q n \<Longrightarrow> caller_step n n' \<Longrightarrow> callers_reachable handler max_q n'"

inductive_cases caller_stepE: "caller_step n n'"

subsection \<open>The queue\<close>

lemma remove_from_queue_spec:
  assumes "remove_from_queue s tid a = (w, s')"
  shows "s' = s\<lparr>queries_outbound := queries_outbound s'\<rparr> \<and>
    (case w of
       None \<Rightarrow> s' = s \<and> (\<forall>e\<in>set (queries_outbound s). oq_transaction_id e \<noteq> tid \<and> oq_destination_addr e \<noteq> a)
     | Some e \<Rightarrow>
         (\<exists>pre post. queries_outbound s = pre @ e # post \<and> queries_outbound s' = pre @ post \<and>
           (oq_transaction_id e = tid \<and> (\<forall>x\<in>set pre. oq_transaction_id x \<noteq> tid) \<or>
            (\<forall>x\<in>set (queries_outbound s). oq_transaction_id x \<noteq> tid) \<and> oq_destination_addr e = a \<and>
              (\<forall>x\<in>set pre. oq_destination_addr x \<noteq> a))))"
proof -
  let ?q = "queries_outbound s"
  have split: "\<exists>pre post. ?q = pre @ ?q ! i # post \<and> vec_remove ?q i = pre @ post \<and> (\<forall>x\<in>set pre. \<not> P x)"
    if p: "position P ?q = Some i" for P i
  proof -
    from position_Some [OF p] have i: "i < length ?q" "\<forall>j<i. \<not> P (?q ! j)" by auto
    then have "\<forall>x\<in>set (take i ?q). \<not> P x" by (auto simp: in_set_conv_nth)
    with id_take_nth_drop [OF i(1)] show ?thesis by (auto simp: vec_remove_def)
  qed
  show ?thesis
  proof (cases "position (\<lambda>q. oq_transaction_id q = tid) ?q")
    case (Some i)
    from split [OF Some] obtain pre post where "?q = pre @ ?q ! i # post" "vec_remove ?q i = pre @ post"
      "\<forall>x\<in>set pre. oq_transaction_id x \<noteq> tid" by blast
    moreover have "w = Some (?q ! i)" "s' = s\<lparr>queries_outbound := vec_remove ?q i\<rparr>" "oq_transaction_id (?q ! i) = tid"
      using assms Some position_Some [OF Some] by (auto simp: remove_from_queue_def Let_def)
    ultimately show ?thesis by (auto; metis)
  next
    case None
    then have no: "\<forall>x\<in>set ?q. oq_transaction_id x \<noteq> tid" by (simp add: position_None)
    show ?thesis
    proof (cases "position (\<lambda>q. oq_destination_addr q = a) ?q")
      case (Some i)
      from split [OF Some] obtain pre post where "?q = pre @ ?q ! i # post" "vec_remove ?q i = pre @ post"
        "\<forall>x\<in>set pre. oq_destination_addr x \<noteq> a" by blast
      moreover have "w = Some (?q ! i)" "s' = s\<lparr>queries_outbound := vec_remove ?q i\<rparr>" "oq_destination_addr (?q ! i) = a"
        using assms None Some position_Some [OF Some] by (auto simp: remove_from_queue_def Let_def)
      ultimately show ?thesis using no by (auto; metis)
    next
      case None': None
      with assms None None' no show ?thesis by (auto simp: remove_from_queue_def position_None)
    qed
  qed
qed

lemma remove_from_queue_subset:
  "remove_from_queue s tid a = (w, s') \<Longrightarrow> set (queries_outbound s') \<subseteq> set (queries_outbound s)"
  using remove_from_queue_spec [of s tid a w s'] by (cases w) auto

lemma remove_from_queue_Some:
  "remove_from_queue s tid a = (Some e, s') \<Longrightarrow>
     e \<in> set (queries_outbound s) \<and> (oq_transaction_id e = tid \<or> oq_destination_addr e = a)"
  using remove_from_queue_spec [of s tid a "Some e" s'] by auto

subsection \<open>Sending\<close>

lemma send_message_cases:
  assumes "send_message bencode send_to s m = Inr (s', r)"
  shows "s' = s \<and> r = Inl NoQueryHandler \<and> \<not> read_only (message_base_of m) \<and> \<not> has_handler s \<or>
    s' = s\<lparr>packet_num := packet_num s + 1\<rparr> \<and> isl r \<or>
    (\<exists>bs a. r = Inr () \<and> to_bytes bencode m = Inr (Inr bs) \<and> receiver_addr (destination (message_base_of m)) = Some a \<and>
       send_to bs a \<and> s' = s\<lparr>packet_num := packet_num s + 1, sent := sent s @ [(bs, a)]\<rparr>)"
proof (cases "\<not> read_only (message_base_of m) \<and> \<not> has_handler s")
  case True
  with assms show ?thesis by (simp add: send_message_def)
next
  case False
  with assms obtain x where x: "to_bytes bencode m = Inr x"
    by (cases "to_bytes bencode m") (simp_all add: send_message_def Let_def)
  from False x assms show ?thesis
    by (cases x; cases "destination (message_base_of m)")
      (auto simp: send_message_def Let_def split: if_split_asm)
qed

lemma send_message_queue:
  "send_message bencode send_to s m = Inr (s', r) \<Longrightarrow>
     queries_outbound s' = queries_outbound s \<and> has_handler s' = has_handler s"
  by (drule send_message_cases) auto

lemma query_send_cases:
  assumes "query_send bencode send_to wrapped s q = Inr (s', r)"
  shows "queries_outbound s' = queries_outbound s" "has_handler s' = has_handler s"
    "r = Some x \<Longrightarrow> \<exists>e. x = Inl e \<and> error_base e = query_base q"
proof -
  from assms obtain x' where x': "send_message bencode send_to s (Query q) = Inr (s', x')"
    and r: "r = (case x' of Inl e \<Rightarrow> Some (Inl (into_error_generic (query_base q) (send_error_string wrapped e))) | Inr _ \<Rightarrow> None)"
    by (auto simp: query_send_def)
  from send_message_queue [OF x'] show "queries_outbound s' = queries_outbound s" "has_handler s' = has_handler s"
    by simp_all
  from r show "r = Some x \<Longrightarrow> \<exists>e. x = Inl e \<and> error_base e = query_base q"
    by (auto simp: into_error_generic_def split: sum.split_asm)
qed

text \<open>Also when sending fails the entry stays in the queue.\<close>

lemma query_start_queue:
  assumes "query_start bencode send_to wrapped chan now s q = Inr (s', r)"
  shows "queries_outbound s' = queries_outbound s @
      [\<lparr>oq_transaction_id = transaction_id (query_base q), oq_destination_addr = sender_addr (origin (query_base q)),
        oq_return_value = chan, oq_timestamp_millis = now\<rparr>]"
  using query_send_cases(1) [OF assms [unfolded query_start_def]] by (simp add: query_push_def)

subsection \<open>Invariant of the callers\<close>

definition reply_matches :: "query \<Rightarrow> query_result \<Rightarrow> bool" where
  "reply_matches q r \<longleftrightarrow>
     transaction_id (result_base r) = transaction_id (query_base q) \<or>
     sender_addr (origin (result_base r)) = sender_addr (origin (query_base q))"

definition own_error :: "query \<Rightarrow> query_result \<Rightarrow> bool" where
  "own_error q r \<longleftrightarrow> (\<exists>e. r = Inl e \<and> error_base e = query_base q)"

definition entries_ok :: "callers \<Rightarrow> bool" where
  "entries_ok n \<longleftrightarrow> (\<forall>e\<in>set (queries_outbound (svc n)). oq_return_value e < next_chan n \<and>
     (\<forall>q. (oq_return_value e, q) \<in> set (waiting n) \<longrightarrow>
        oq_transaction_id e = transaction_id (query_base q) \<and>
        oq_destination_addr e = sender_addr (origin (query_base q))))"

definition waiting_ok :: "callers \<Rightarrow> bool" where
  "waiting_ok n \<longleftrightarrow> distinct (map fst (waiting n)) \<and> (\<forall>(c, q)\<in>set (waiting n). c < next_chan n)"

definition channels_ok :: "callers \<Rightarrow> bool" where
  "channels_ok n \<longleftrightarrow> (\<forall>(c, r)\<in>set (channels n). c < next_chan n \<and>
     (\<forall>q. (c, q) \<in> set (waiting n) \<longrightarrow> reply_matches q r))"

definition returned_ok :: "callers \<Rightarrow> bool" where
  "returned_ok n \<longleftrightarrow> distinct (map fst (returned n)) \<and>
     (\<forall>(c, q, r)\<in>set (returned n). c < next_chan n \<and> c \<notin> fst ` set (waiting n) \<and>
        (own_error q r \<or> reply_matches q r))"

definition callers_ok :: "callers \<Rightarrow> bool" where
  "callers_ok n \<longleftrightarrow> entries_ok n \<and> waiting_ok n \<and> channels_ok n \<and> returned_ok n"

lemmas callers_ok_defs = callers_ok_def entries_ok_def waiting_ok_def channels_ok_def returned_ok_def

lemma callers_ok_queue:
  assumes "callers_ok n" "set (queries_outbound s') \<subseteq> set (queries_outbound (svc n))"
  shows "callers_ok (n\<lparr>svc := s', closed := cl\<rparr>)" "callers_ok (n\<lparr>svc := s'\<rparr>)"
  using assms by (auto simp: callers_ok_defs subset_iff)

lemma callers_ok_abandon:
  assumes "callers_ok n"
  shows "callers_ok (abandon n c)"
proof -
  have parts: "entries_ok n" "waiting_ok n" "channels_ok n" "returned_ok n"
    using assms by (simp_all add: callers_ok_def)
  have "entries_ok (abandon n c)" using parts(1) by (auto simp: entries_ok_def abandon_def)
  moreover have "waiting_ok (abandon n c)"
    using parts(2) by (auto simp: waiting_ok_def abandon_def distinct_map_filter)
  moreover have "channels_ok (abandon n c)" using parts(3) by (auto simp: channels_ok_def abandon_def)
  moreover have "returned_ok (abandon n c)" using parts(4) by (auto simp: returned_ok_def abandon_def)
  ultimately show ?thesis by (simp add: callers_ok_def)
qed

lemma callers_ok_leave:
  assumes "callers_ok n" "(c, q) \<in> set (waiting n)" "own_error q r \<or> reply_matches q r"
  shows "callers_ok (leave n c q r)"
proof -
  have ok: "callers_ok (abandon n c)" by (rule callers_ok_abandon [OF assms(1)])
  have "waiting_ok n" "returned_ok n" using assms(1) by (simp_all add: callers_ok_def)
  then have "c < next_chan n" "c \<notin> fst ` set (returned n)"
    using assms(2) by (auto simp: waiting_ok_def) (force simp: returned_ok_def)
  then have "returned_ok (leave n c q r)"
    using ok assms(3) by (auto simp: callers_ok_def returned_ok_def leave_def abandon_def)
  with ok show ?thesis
    by (simp add: callers_ok_def leave_def entries_ok_def waiting_ok_def channels_ok_def)
qed

lemma callers_ok_enter:
  assumes "callers_ok n"
  shows "callers_ok (enter n now q)"
proof -
  have parts: "entries_ok n" "waiting_ok n" "channels_ok n" "returned_ok n"
    using assms by (simp_all add: callers_ok_def)
  have fresh: "(next_chan n, q') \<notin> set (waiting n)" for q' using parts(2) by (auto simp: waiting_ok_def)
  have "entries_ok (enter n now q)" using parts(1) fresh by (auto simp: entries_ok_def enter_def query_push_def)
  moreover have "waiting_ok (enter n now q)" using parts(2) by (auto simp: waiting_ok_def enter_def)
  moreover have "channels_ok (enter n now q)" using parts(3) by (auto simp: channels_ok_def enter_def)
  moreover have "returned_ok (enter n now q)" using parts(4) by (auto simp: returned_ok_def enter_def)
  ultimately show ?thesis by (simp add: callers_ok_def)
qed

lemma callers_ok_other:
  "callers_ok n \<Longrightarrow> callers_ok (n\<lparr>permits := p, holding := h\<rparr>)"
  "callers_ok n \<Longrightarrow> callers_ok (n\<lparr>unsent := u\<rparr>)"
  by (simp_all add: callers_ok_defs)

lemma callers_ok_arrive:
  assumes "callers_ok n" "return_result (svc n) result = (s', d)"
  shows "callers_ok (put_channel n s' d)"
proof -
  let ?rm = "remove_from_queue (svc n) (transaction_id (result_base result)) (sender_addr (origin (result_base result)))"
  obtain w s1 where rm: "?rm = (w, s1)" by fastforce
  with assms(2) have s': "s' = s1" by (auto simp: return_result_def split: option.splits)
  have ok: "callers_ok (n\<lparr>svc := s'\<rparr>)"
    using callers_ok_queue [OF assms(1)] remove_from_queue_subset [OF rm] s' by blast
  show ?thesis
  proof (cases w)
    case None
    with assms(2) rm have "d = None" by (simp add: return_result_def)
    with ok show ?thesis by (simp add: put_channel_def)
  next
    case (Some e)
    with assms(2) rm have d: "d = Some (oq_return_value e, result)" by (simp add: return_result_def)
    from remove_from_queue_Some [OF rm [unfolded Some]] assms(1)
    have "oq_return_value e < next_chan n"
      "\<forall>q. (oq_return_value e, q) \<in> set (waiting n) \<longrightarrow> reply_matches q result"
      by (auto simp: callers_ok_defs reply_matches_def)
    with ok show ?thesis by (auto simp: d put_channel_def callers_ok_defs)
  qed
qed

lemma caller_step_ok:
  assumes "caller_step n n'" "callers_ok n"
  shows "callers_ok n'"
  using assms(1)
proof cases
  case (cs_query now q)
  then show ?thesis using callers_ok_other(1) [OF callers_ok_enter [OF assms(2)]] by simp
next
  case (cs_sent c q bencode send_to wrapped s')
  then show ?thesis
    using callers_ok_queue(2) [OF assms(2), of s'] query_send_cases(1) [OF cs_sent(4)]
      callers_ok_other(2) [of "n\<lparr>svc := s'\<rparr>"] by simp
next
  case (cs_fail c q bencode send_to wrapped s' r)
  have "callers_ok (n\<lparr>svc := s'\<rparr>)"
    using callers_ok_queue(2) [OF assms(2), of s'] query_send_cases(1) [OF cs_fail(4)] by simp
  moreover have "own_error q r" using query_send_cases(3) [OF cs_fail(4) refl] by (simp add: own_error_def)
  ultimately show ?thesis using callers_ok_leave [of "n\<lparr>svc := s'\<rparr>" c q r] cs_fail(1,2) by simp
next
  case (cs_send bencode send_to m s' r)
  then show ?thesis using callers_ok_queue(2) [OF assms(2), of s'] send_message_queue [OF cs_send(2)] by simp
next
  case (cs_wake c q r recv_error)
  moreover have "reply_matches q r" using assms(2) cs_wake by (auto simp: callers_ok_defs)
  ultimately show ?thesis using callers_ok_leave [OF assms(2)] by (simp add: query_receive_def)
next
  case (cs_closed c q recv_error)
  then show ?thesis
    using callers_ok_leave [OF assms(2)] by (simp add: query_receive_def own_error_def into_error_generic_def)
next
  case (cs_timeout c q s' dropped r)
  obtain w where "remove_from_queue (svc n) (transaction_id (query_base q)) (sender_addr (origin (query_base q))) = (w, s')"
    and r: "own_error q r"
    using cs_timeout(4) by (auto simp: query_timeout_def own_error_def into_error_generic_def split: prod.splits)
  then have "callers_ok (n\<lparr>svc := s', closed := (case dropped of None \<Rightarrow> [] | Some c' \<Rightarrow> [c']) @ closed n\<rparr>)"
    using callers_ok_queue(1) [OF assms(2)] remove_from_queue_subset by blast
  from callers_ok_leave [OF this, of c q r] r cs_timeout(1,2) show ?thesis by simp
qed (use callers_ok_enter callers_ok_abandon callers_ok_arrive assms(2) in blast)+

lemma callers_reachable_ok: "callers_reachable handler max_q n \<Longrightarrow> callers_ok n"
proof (induction rule: callers_reachable.induct)
  case cr_new
  then show ?case by (simp add: callers_ok_defs callers_new_def service_new_def)
next
  case (cr_step n n')
  then show ?case using caller_step_ok by blast
qed

subsection \<open>Permits\<close>

definition permits_ok :: "nat \<Rightarrow> callers \<Rightarrow> bool" where
  "permits_ok max_q n \<longleftrightarrow> permits n + length (holding n) = max_q \<and> distinct (holding n) \<and>
     set (holding n) \<subseteq> fst ` set (waiting n) \<and> set (unsent n) \<subseteq> fst ` set (waiting n) \<and>
     (\<forall>c\<in>fst ` set (waiting n). c < next_chan n)"

lemma permits_ok_abandon:
  assumes "permits_ok max_q n"
  shows "permits_ok max_q (abandon n c)"
proof -
  have "length (holding n) = length (removeAll c (holding n)) + (if c \<in> set (holding n) then 1 else 0)"
  proof (cases "c \<in> set (holding n)")
    case True
    moreover have "removeAll c (holding n) = remove1 c (holding n)"
      using assms by (simp add: permits_ok_def distinct_remove1_removeAll)
    moreover have "0 < length (holding n)" using True by (cases "holding n") simp_all
    ultimately show ?thesis by (simp add: length_remove1)
  qed (simp add: removeAll_id)
  then have "permits (abandon n c) + length (holding (abandon n c)) = permits n + length (holding n)"
    by (simp add: abandon_def)
  with assms show ?thesis by (fastforce simp: permits_ok_def abandon_def distinct_removeAll)
qed

lemma permits_ok_leave: "permits_ok max_q n \<Longrightarrow> permits_ok max_q (leave n c q r)"
  using permits_ok_abandon [of max_q n c] by (simp add: leave_def permits_ok_def)

lemma permits_ok_svc:
  "permits_ok max_q (n\<lparr>svc := s\<rparr>) = permits_ok max_q n"
  "permits_ok max_q (n\<lparr>svc := s, closed := cl\<rparr>) = permits_ok max_q n"
  "permits_ok max_q (put_channel n s d) = permits_ok max_q n"
  by (auto simp: permits_ok_def put_channel_def split: option.splits)

lemma permits_ok_enter: "permits_ok max_q n \<Longrightarrow> permits_ok max_q (enter n now q)"
  by (fastforce simp: permits_ok_def enter_def)

lemma permits_ok_query:
  assumes "permits_ok max_q n" "0 < permits n"
  shows "permits_ok max_q ((enter n now q)\<lparr>permits := permits n - 1, holding := next_chan n # holding n\<rparr>)"
proof -
  have "next_chan n \<notin> fst ` set (waiting n)" "set (holding n) \<subseteq> fst ` set (waiting n)"
    using assms(1) by (auto simp: permits_ok_def)
  then have "next_chan n \<notin> set (holding n)" by blast
  with assms permits_ok_enter [OF assms(1), of now q] show ?thesis
    by (auto simp: permits_ok_def enter_def)
qed

lemma caller_step_permits:
  assumes "caller_step n n'" "permits_ok max_q n"
  shows "permits_ok max_q n'"
  using assms(1)
proof cases
  case (cs_sent c q bencode send_to wrapped s')
  then show ?thesis using assms(2) by (auto simp: permits_ok_def)
qed (use assms(2) permits_ok_leave permits_ok_abandon permits_ok_enter permits_ok_query permits_ok_svc in metis)+

lemma callers_reachable_permits: "callers_reachable handler max_q n \<Longrightarrow> permits_ok (unat max_q) n"
proof (induction rule: callers_reachable.induct)
  case cr_new
  then show ?case by (simp add: permits_ok_def callers_new_def)
next
  case (cr_step n n')
  then show ?case using caller_step_permits by blast
qed

lemma remove_from_queue_sent:
  assumes "remove_from_queue s tid a = (w, s')"
  shows "sent s' = sent s" "has_handler s' = has_handler s"
proof -
  have "s' = s\<lparr>queries_outbound := queries_outbound s'\<rparr>" using remove_from_queue_spec [OF assms] by blast
  from arg_cong [OF this, of sent] arg_cong [OF this, of has_handler]
  show "sent s' = sent s" "has_handler s' = has_handler s" by simp_all
qed

lemma return_result_sent: "return_result s r = (s', x) \<Longrightarrow> sent s' = sent s"
  by (auto simp: return_result_def dest: remove_from_queue_sent(1) split: prod.split_asm option.split_asm)

subsection \<open>Contract of a query handler\<close>

text \<open>What a service with a handler sends in reaction to a datagram, for any handler that keeps
  the contract.\<close>

locale query_handler =
  fixes handle_query :: "'h \<Rightarrow> query \<Rightarrow> ('h \<times> query_result) res"
    and handle_error :: "'h \<Rightarrow> bytes \<Rightarrow> socket_addr \<Rightarrow> known_error \<Rightarrow> error_msg"
  assumes query_answers: "handle_query h q = Inr (h', r) \<Longrightarrow>
      answers (transaction_id (query_base q)) (sender_addr (origin (query_base q))) (result_base r)"
    and error_answers: "answers tid a (error_base (handle_error h tid a e))"
begin

lemma result_message_base: "message_base_of (result_message r) = result_base r"
  by (cases r) simp_all

lemma reply_sent:
  assumes "send_message bencode send_to s m = Inr (s', x)" "answers tid a (message_base_of m)"
  shows "sent s' = sent s \<or>
    (\<exists>bs. has_handler s \<and> to_bytes bencode m = Inr (Inr bs) \<and> sent s' = sent s @ [(bs, a)])"
proof -
  have "has_handler s \<or> sent s' = sent s"
    using assms by (auto simp: send_message_def answers_def split: if_split_asm)
  with send_message_cases [OF assms(1)] assms(2) show ?thesis by (auto simp: answers_def)
qed

lemma query_reaction:
  assumes "handle_received_query bencode send_to handle_query h s q = Inr (h', s')"
  shows "sent s' = sent s \<or>
    (\<exists>bs m. has_handler s \<and> transaction_id (message_base_of m) = transaction_id (query_base q) \<and>
       to_bytes bencode m = Inr (Inr bs) \<and> sent s' = sent s @ [(bs, sender_addr (origin (query_base q)))])"
proof (cases "has_handler s")
  case True
  with assms obtain r x where hq: "handle_query h q = Inr (h', r)"
    and sm: "send_message bencode send_to s (result_message r) = Inr (s', x)"
    by (auto simp: handle_received_query_def rbind_eq_Inr)
  have ans: "answers (transaction_id (query_base q)) (sender_addr (origin (query_base q)))
      (message_base_of (result_message r))"
    using query_answers [OF hq] by (simp add: result_message_base)
  then have "transaction_id (message_base_of (result_message r)) = transaction_id (query_base q)"
    by (simp add: answers_def)
  with reply_sent [OF sm ans] show ?thesis by blast
next
  case False
  with assms show ?thesis by (simp add: handle_received_query_def)
qed

lemma recv_error_reaction:
  assumes "recv_packet bencode bdecode send_to handle_query handle_error h s packet a = Inr (h', s', d)"
    and "receive bdecode packet a = Inl (k, e)"
  shows "sent s' = sent s \<or>
    (\<exists>bs m k. has_handler s \<and> Option.bind (bdecode packet) kmessage_deserialize = Some k \<and>
       transaction_id (message_base_of m) = k_transaction_id k \<and>
       to_bytes bencode m = Inr (Inr bs) \<and> sent s' = sent s @ [(bs, a)])"
proof (cases k)
  case None
  with assms show ?thesis by (auto simp: recv_packet_def Let_def)
next
  case (Some raw)
  with assms(2) have raw: "Option.bind (bdecode packet) kmessage_deserialize = Some raw"
    by (auto simp: receive_def split: option.splits sum.splits)
  let ?m = "Error (handle_error h (k_transaction_id raw) a e)"
  have ans: "answers (k_transaction_id raw) a (message_base_of ?m)" by (simp add: error_answers)
  then have tid: "transaction_id (message_base_of ?m) = k_transaction_id raw" by (simp add: answers_def)
  show ?thesis
  proof (cases "has_handler s")
    case True
    with Some assms obtain x where
      "send_message bencode send_to (s\<lparr>packet_num := packet_num s + 1\<rparr>) ?m = Inr (s', x)"
      by (auto simp: recv_packet_def Let_def rbind_eq_Inr)
    from reply_sent [OF this ans] have "sent s' = sent s \<or>
        (\<exists>bs. has_handler s \<and> to_bytes bencode ?m = Inr (Inr bs) \<and> sent s' = sent s @ [(bs, a)])" by simp
    with raw tid show ?thesis by blast
  next
    case False
    with Some assms show ?thesis by (auto simp: recv_packet_def Let_def)
  qed
qed

lemma recv_reaction:
  assumes "recv_packet bencode bdecode send_to handle_query handle_error h s packet a = Inr (h', s', d)"
  shows "sent s' = sent s \<or>
    (\<exists>bs m k. has_handler s \<and> Option.bind (bdecode packet) kmessage_deserialize = Some k \<and>
       transaction_id (message_base_of m) = k_transaction_id k \<and>
       to_bytes bencode m = Inr (Inr bs) \<and> sent s' = sent s @ [(bs, a)])"
proof (cases "receive bdecode packet a")
  case (Inl p)
  with recv_error_reaction [OF assms] show ?thesis by (cases p) blast
next
  case (Inr m)
  then obtain k where k: "Option.bind (bdecode packet) kmessage_deserialize = Some k"
    and fk: "from_kmsg a k = Inr m"
    by (auto simp: receive_def split: option.split_asm sum.split_asm)
  have base: "transaction_id (message_base_of m) = k_transaction_id k" "sender_addr (origin (message_base_of m)) = a"
    using from_kmsg_base [OF fk] by (auto simp: received_base_def)
  show ?thesis
  proof (cases m)
    case (Query q)
    with Inr assms have "handle_received_query bencode send_to handle_query h (s\<lparr>packet_num := packet_num s + 1\<rparr>) q = Inr (h', s')"
      by (auto simp: recv_packet_def Let_def rbind_eq_Inr)
    from query_reaction [OF this] base Query k show ?thesis by auto
  next
    case (Response r)
    with Inr assms show ?thesis
      by (auto simp: recv_packet_def Let_def dest: return_result_sent split: prod.split_asm)
  next
    case (Error e)
    with Inr assms show ?thesis
      by (auto simp: recv_packet_def Let_def dest: return_result_sent split: prod.split_asm)
  qed
qed

end

subsection \<open>Properties\<close>

text \<open>C9: in every interleaving of calls, arrivals, sends and timeouts, each call of
  \<open>query_unbounded\<close> returns at most once and not while it still waits, and what it returns is
  either an error about its own query or a reply that carries the query's transaction or comes
  from the address the query was sent from.\<close>

theorem callers_get_own_reply:
  assumes "callers_reachable handler max_q n"
  shows "distinct (map fst (returned n)) \<and>
    (\<forall>(c, q, r)\<in>set (returned n). c \<notin> fst ` set (waiting n) \<and>
       ((\<exists>e. r = Inl e \<and> error_base e = query_base q) \<or>
        transaction_id (result_base r) = transaction_id (query_base q) \<or>
        sender_addr (origin (result_base r)) = sender_addr (origin (query_base q))))"
  using callers_reachable_ok [OF assms]
  by (auto simp: callers_ok_def returned_ok_def own_error_def reply_matches_def)

definition ex_query :: query where
  "ex_query = into_query
     \<lparr>origin = Me \<lparr>node_id = u160_max, node_addr = SockV4 1 2\<rparr>, destination = ReceiverMe,
      requestor_addr = None, transaction_id = [6, 5, 4], read_only = True, base_client = None\<rparr> Ping"

definition ex_entry :: outstanding_query where
  "ex_entry = \<lparr>oq_transaction_id = [6, 5, 4], oq_destination_addr = SockV4 1 2, oq_return_value = 0, oq_timestamp_millis = 0\<rparr>"

text \<open>A query addressed to oneself cannot be sent: the call returns at once, and its entry stays
  in the queue.\<close>

lemma ex_query_send:
  "query_send (\<lambda>t. Inr [] :: unit + bytes) (\<lambda>bs a. True) (\<lambda>e. [])
     \<lparr>queries_outbound = es, has_handler = True, packet_num = 0, sent = []\<rparr> ex_query =
   Inr (\<lparr>queries_outbound = es, has_handler = True, packet_num = 1, sent = []\<rparr>,
        Some (Inl (into_error_generic (query_base ex_query) (send_error_string (\<lambda>e. []) ToMyself))))"
  by (simp add: query_send_def send_message_def ex_query_def into_query_def to_bytes_def
      to_kmsg_def kmessage_serialize_def map_opt_res_def kmessage_builder_def Let_def)

definition ex_entered :: callers where
  "ex_entered = \<lparr>svc = \<lparr>queries_outbound = [ex_entry], has_handler = True, packet_num = 0, sent = []\<rparr>,
     waiting = [(0, ex_query)], unsent = [0], channels = [], closed = [], returned = [],
     next_chan = 1, permits = 7, holding = [0]\<rparr>"

definition ex_callers :: callers where
  "ex_callers = \<lparr>svc = \<lparr>queries_outbound = [ex_entry], has_handler = True, packet_num = 1, sent = []\<rparr>,
     waiting = [], unsent = [], channels = [], closed = [],
     returned = [(0, ex_query, Inl (into_error_generic (query_base ex_query) (send_error_string (\<lambda>e. []) ToMyself)))],
     next_chan = 1, permits = 8, holding = []\<rparr>"

lemma entered_reachable: "callers_reachable True 8 ex_entered"
proof -
  have "caller_step (callers_new True 8) ex_entered"
    using cs_query [of "callers_new True 8" 0 ex_query]
    by (simp add: callers_new_def service_new_def ex_entered_def enter_def query_push_def ex_entry_def ex_query_def into_query_def)
  from cr_step [OF cr_new this] show ?thesis .
qed

lemma failed_reachable: "callers_reachable True 8 ex_callers"
proof -
  have "caller_step ex_entered ex_callers"
    using cs_fail [of 0 ex_query ex_entered "\<lambda>t. Inr []" "\<lambda>bs a. True" "\<lambda>e. []"]
    by (simp add: ex_entered_def ex_callers_def leave_def abandon_def ex_query_send)
  from cr_step [OF entered_reachable this] show ?thesis .
qed

theorem callers_get_own_reply_witness:
  "distinct (map fst (returned ex_callers)) \<and> map fst (returned ex_callers) = [0] \<and> 0 \<notin> fst ` set (waiting ex_callers)"
  using callers_get_own_reply [OF failed_reachable] by (simp add: ex_callers_def)



text \<open>A reply or a timeout takes out of the queue the oldest query with the given transaction;
  only when there is none, the oldest query sent from the given address; when there is neither,
  the queue is unchanged.\<close>

theorem queue_removal:
  assumes "remove_from_queue s tid a = (w, s')"
  shows "s' = s\<lparr>queries_outbound := queries_outbound s'\<rparr> \<and>
    (case w of
       None \<Rightarrow> s' = s \<and> (\<forall>e\<in>set (queries_outbound s). oq_transaction_id e \<noteq> tid \<and> oq_destination_addr e \<noteq> a)
     | Some e \<Rightarrow>
         (\<exists>pre post. queries_outbound s = pre @ e # post \<and> queries_outbound s' = pre @ post \<and>
           (oq_transaction_id e = tid \<and> (\<forall>x\<in>set pre. oq_transaction_id x \<noteq> tid) \<or>
            (\<forall>x\<in>set (queries_outbound s). oq_transaction_id x \<noteq> tid) \<and> oq_destination_addr e = a \<and>
              (\<forall>x\<in>set pre. oq_destination_addr x \<noteq> a))))"
  by (rule remove_from_queue_spec [OF assms])

theorem queue_removal_witness:
  "\<exists>pre post. [ex_entry] = pre @ ex_entry # post \<and> [] = pre @ post \<and> (\<forall>x\<in>set pre. oq_transaction_id x \<noteq> [6, 5, 4])"
  using queue_removal [of "\<lparr>queries_outbound = [ex_entry], has_handler = True, packet_num = 1, sent = []\<rparr>"
      "[6, 5, 4]" "SockV4 9 9" "Some ex_entry" "\<lparr>queries_outbound = [], has_handler = True, packet_num = 1, sent = []\<rparr>"]
  by (simp add: remove_from_queue_def vec_remove_def ex_entry_def)

text \<open>The entry that \<open>query_unbounded\<close> queues for a query names the address the query comes
  from, not the one it goes to.  So once a reply has taken the entry of a query out, its timeout
  (which the select may still choose) takes the oldest other query of this node out of the
  queue and closes its channel: that call fails although its reply may still come.\<close>

theorem timeout_drops_other_query:
  assumes "\<forall>e\<in>set (queries_outbound s). oq_transaction_id e \<noteq> transaction_id (query_base q)"
    "queries_outbound s = e # es" "oq_destination_addr e = sender_addr (origin (query_base q))"
  shows "query_timeout s q =
    (s\<lparr>queries_outbound := es\<rparr>, Some (oq_return_value e), Inl (into_error_generic (query_base q) ''Timeout''))"
proof -
  have "position (\<lambda>q'. oq_transaction_id q' = transaction_id (query_base q)) (queries_outbound s) = None"
    using assms(1) by (simp add: position_None)
  with assms(2,3) show ?thesis
    by (simp add: query_timeout_def remove_from_queue_def vec_remove_def Let_def)
qed

theorem timeout_drops_other_query_witness:
  "query_timeout \<lparr>queries_outbound = [ex_entry], has_handler = True, packet_num = 1, sent = []\<rparr>
     (ex_query\<lparr>query_base := (query_base ex_query)\<lparr>transaction_id := [1]\<rparr>\<rparr>) =
   (\<lparr>queries_outbound = [], has_handler = True, packet_num = 1, sent = []\<rparr>, Some 0,
    Inl (into_error_generic ((query_base ex_query)\<lparr>transaction_id := [1]\<rparr>) ''Timeout''))"
  using timeout_drops_other_query [of "\<lparr>queries_outbound = [ex_entry], has_handler = True, packet_num = 1, sent = []\<rparr>"
      "ex_query\<lparr>query_base := (query_base ex_query)\<lparr>transaction_id := [1]\<rparr>\<rparr>" ex_entry "[]"]
  by (simp add: ex_entry_def ex_query_def into_query_def)

text \<open>\<open>send_message\<close> sends exactly one datagram, the serialized message to its destination, when
  it reports success, and none when it reports an error; a message that is not read-only is
  refused by a service without a handler; it panics only where serializing panics.\<close>

theorem send_message_correct:
  "(case send_message bencode send_to s m of
      Inl f \<Rightarrow> isl (kmessage_serialize (to_kmsg m))
    | Inr (s', r) \<Rightarrow> queries_outbound s' = queries_outbound s \<and>
        (if isl r then sent s' = sent s
         else (\<exists>bs a. to_bytes bencode m = Inr (Inr bs) \<and> receiver_addr (destination (message_base_of m)) = Some a \<and>
                 send_to bs a \<and> sent s' = sent s @ [(bs, a)] \<and>
                 (read_only (message_base_of m) \<or> has_handler s))))"
proof (cases "send_message bencode send_to s m")
  case (Inl f)
  then have "isl (to_bytes bencode m)"
    by (cases "to_bytes bencode m")
      (auto simp: send_message_def Let_def split: if_split_asm sum.split_asm option.split_asm receiver.split_asm)
  with Inl show ?thesis by (simp add: to_bytes_def)
next
  case (Inr p)
  obtain s' r where p: "p = (s', r)" by fastforce
  have "read_only (message_base_of m) \<or> has_handler s" if "\<not> isl r"
    using that Inr p by (auto simp: send_message_def split: if_split_asm)
  with send_message_cases [OF Inr [unfolded p]] send_message_queue [OF Inr [unfolded p]] show ?thesis
    by (auto simp: Inr p)
qed

end
