(* ===== verification/Server.thy ===== *)
theory Server
  imports Router Token Service
begin

text \<open>
  The server half of \<open>node.rs\<close>: what a node answers to a query.  The crates it calls are the
  fields of \<open>env\<close>: the database \<open>sled\<close> (one tree of peers, its value the state \<open>'d\<close>; the tree's
  operations may fail with an \<open>'e\<close>), \<open>bt_bencode\<close>, \<open>crc32c\<close>, \<open>chacha20\<close>, the random draws
  and the clock.  \<open>handle_query\<close> is one task run without interruption.
\<close>

subsection \<open>State and environment\<close>

record ('d, 'e) env =
  crc32c :: "bytes \<Rightarrow> u32"
  apply_keystream :: keystream
  clock :: "u64 option"
  token_rand :: bytes
  rnd_ms :: u128
  rnd_ls :: u32
  open_tree :: "'d \<Rightarrow> 'e + unit"
  tree_get :: "'d \<Rightarrow> bytes \<Rightarrow> 'e + bytes option"
  tree_update :: "'d \<Rightarrow> bytes \<Rightarrow> (bytes option \<Rightarrow> bytes option res) \<Rightarrow> ('e + 'd) res"
  tree_keys :: "'d \<Rightarrow> ('e + bytes) list"
  choose_multiple :: "nat \<Rightarrow> u160 list \<Rightarrow> u160 list"
  bencode :: "bval \<Rightarrow> 'e + bytes"
  bdecode :: "bytes \<Rightarrow> bval option"

record server =
  srv_router :: router
  srv_transaction :: u64
  srv_read_only :: bool
  srv_me :: node_info
  srv_tokens :: token_generator

subsection \<open>Slices of a fixed size\<close>

text \<open>\<open>MySliceExt\<close> of \<open>utils.rs\<close>.\<close>

definition to_sized :: "nat \<Rightarrow> 'a list \<Rightarrow> unit + 'a list" where
  "to_sized n xs = (if length xs = n then Inr xs else Inl ())"

definition to_sized_or_fill :: "nat \<Rightarrow> 'a list \<Rightarrow> 'a \<Rightarrow> 'a list" where
  "to_sized_or_fill n xs fill = (if length xs = n then xs else replicate n fill)"

definition to_sized_or_else_fill :: "nat \<Rightarrow> 'a list \<Rightarrow> (nat \<Rightarrow> 'a) \<Rightarrow> 'a list" where
  "to_sized_or_else_fill n xs fill = (if length xs = n then xs else map fill [0..<n])"

text \<open>\<open>LogErrExt\<close>: the lines it logs, \<open>debug\<close> being the text of an error, and what it returns.\<close>

definition log_with :: "('e \<Rightarrow> string) \<Rightarrow> string \<Rightarrow> 'e + 'a \<Rightarrow> string list" where
  "log_with debug s r = (case r of Inl e \<Rightarrow> [s @ '' '' @ debug e] | Inr t \<Rightarrow> [])"

definition ok_or_log :: "'e + 'a \<Rightarrow> 'a option" where
  "ok_or_log r = (case r of Inl e \<Rightarrow> None | Inr t \<Rightarrow> Some t)"

subsection \<open>Handlers\<close>

definition response_base :: "server \<Rightarrow> bytes \<Rightarrow> receiver \<Rightarrow> message_base" where
  "response_base s tid to =
     \<lparr>origin = Me (srv_me s), destination = to, requestor_addr = receiver_addr to, transaction_id = tid,
      read_only = False, base_client = None\<rparr>"

definition parse_peers :: "('d, 'e) env \<Rightarrow> bytes \<Rightarrow> socket_addr_wrapper list res" where
  "parse_peers E bs =
     (case Option.bind (bdecode E bs) (de_list de_addr) of None \<Rightarrow> Inl UnwrapErr | Some ws \<Rightarrow> Inr ws)"

definition announce_update :: "('d, 'e) env \<Rightarrow> socket_addr_wrapper \<Rightarrow> bytes option \<Rightarrow> bytes option res" where
  "announce_update E wrap p =
     rbind (case p of None \<Rightarrow> Inr [] | Some bs \<Rightarrow> parse_peers E bs) (\<lambda>socks.
     let socks' = (if wrap \<notin> set socks then socks @ [wrap] else socks)
     in case bencode E (BList (map ser_addr socks')) of Inl e \<Rightarrow> Inl UnwrapErr | Inr bs \<Rightarrow> Inr (Some bs))"

definition handle_announce ::
  "('d, 'e) env \<Rightarrow> server \<Rightarrow> 'd \<Rightarrow> message_base \<Rightarrow> node_info \<Rightarrow> u160 \<Rightarrow> u16 \<Rightarrow> bytes \<Rightarrow> ('d \<times> query_result) res" where
  "handle_announce E s d base from_node info_hash port token =
     rbind (token_validate (crc32c E) (apply_keystream E) (clock E) (srv_tokens s) token
              (sock_ip (node_addr from_node))) (\<lambda>valid.
     if \<not> valid then Inr (d, Inl (into_error base Protocol))
     else if \<not> node_validate (crc32c E) (rnd_ms E) (rnd_ls E) from_node
     then Inr (d, Inl (into_error base InvalidNodeId))
     else (case open_tree E d of
             Inl e \<Rightarrow> Inr (d, Inl (into_error base Server))
           | Inr _ \<Rightarrow>
               rbind (tree_update E d (u160_to_be_bytes info_hash)
                 (announce_update E \<lparr>socket_addr = Some (sock_new (sock_ip (node_addr from_node)) port)\<rparr>)) (\<lambda>r.
               case r of
                 Inl e \<Rightarrow> Inr (d, Inl (into_error base Server))
               | Inr d' \<Rightarrow> Inr (d', Inr (into_response base Ok)))))"

definition handle_get_peers ::
  "('d, 'e) env \<Rightarrow> server \<Rightarrow> 'd \<Rightarrow> message_base \<Rightarrow> node_info \<Rightarrow> u160 \<Rightarrow> query_result res" where
  "handle_get_peers E s d base from_node info_hash =
     rbind (token_generate (crc32c E) (apply_keystream E) (token_rand E) (clock E) (srv_tokens s)
              (sock_ip (node_addr from_node))) (\<lambda>token.
     case open_tree E d of
       Inl e \<Rightarrow> Inr (Inl (into_error base Server))
     | Inr _ \<Rightarrow>
         (case tree_get E d (u160_to_be_bytes info_hash) of
            Inl e \<Rightarrow> Inr (Inl (into_error base Server))
          | Inr (Some bs) \<Rightarrow>
              rbind (parse_peers E bs) (\<lambda>ws.
              rbind (map_res (\<lambda>a. case socket_addr a of None \<Rightarrow> Inl UnwrapNone | Some p \<Rightarrow> Inr p) ws) (\<lambda>peers.
              rbind (router_lookup (srv_router s) info_hash) (\<lambda>ns.
              Inr (Inr (into_response base (Peers peers token (Some ns)))))))
          | Inr None \<Rightarrow>
              rbind (router_lookup (srv_router s) info_hash) (\<lambda>ns.
              Inr (Inr (into_response base (KNearest ns (Some token)))))))"

definition MAX_SAMPLES :: nat where
  "MAX_SAMPLES = 65535 div 20 - 10"

definition handle_sample ::
  "('d, 'e) env \<Rightarrow> server \<Rightarrow> 'd \<Rightarrow> message_base \<Rightarrow> u160 \<Rightarrow> query_result res" where
  "handle_sample E s d base target =
     (case open_tree E d of
        Inl e \<Rightarrow> Inr (Inl (into_error base Server))
      | Inr _ \<Rightarrow>
          let available = of_nat (length (tree_keys E d));
              samples = choose_multiple E MAX_SAMPLES
                (List.map_filter (\<lambda>k. Option.bind (ok_or_log k) (\<lambda>bs.
                   map_option u160_from_be_bytes (ok_or_log (to_sized 20 bs)))) (tree_keys E d))
          in rbind (router_lookup (srv_router s) target) (\<lambda>ns.
             Inr (Inr (into_response base (Samples ns samples available 0)))))"

text \<open>The match of \<open>handle_query\<close> on the method.\<close>

definition serve ::
  "('d, 'e) env \<Rightarrow> server \<Rightarrow> 'd \<Rightarrow> message_base \<Rightarrow> query \<Rightarrow> ((server \<times> 'd) \<times> query_result) res" where
  "serve E s d base q =
     (case query_meth q of
        Ping \<Rightarrow> Inr ((s, d), Inr (into_response base Ok))
      | FindNode n \<Rightarrow>
          rbind (router_lookup (srv_router s) n) (\<lambda>ns. Inr ((s, d), Inr (into_response base (KNearest ns None))))
      | GetPeers info_hash \<Rightarrow>
          rbind (handle_get_peers E s d base (sender_node (origin (query_base q))) info_hash) (\<lambda>x. Inr ((s, d), x))
      | AnnouncePeer info_hash port token \<Rightarrow>
          rbind (handle_announce E s d base (sender_node (origin (query_base q))) info_hash port token) (\<lambda>(d', x).
          Inr ((s, d'), x))
      | Put _ \<Rightarrow> Inr ((s, d), Inl (into_error base MethodUnknown))
      | Get \<Rightarrow> Inr ((s, d), Inl (into_error base MethodUnknown))
      | SampleInfohashes target \<Rightarrow> rbind (handle_sample E s d base target) (\<lambda>x. Inr ((s, d), x)))"

definition handle_query ::
  "('d, 'e) env \<Rightarrow> server \<times> 'd \<Rightarrow> query \<Rightarrow> ((server \<times> 'd) \<times> query_result) res" where
  "handle_query E h q =
     (case h of (s, d) \<Rightarrow>
      if srv_read_only s then Inl AssertFailed
      else
        let from_sender = origin (query_base q);
            base = response_base s (transaction_id (query_base q)) (sender_receiver from_sender)
        in
        if sender_id from_sender = node_id (srv_me s) then Inr ((s, d), Inl (into_error_generic base ''Echo!''))
        else rbind (if \<not> read_only (query_base q) then router_add (srv_router s) (sender_node from_sender)
                    else Inr (srv_router s)) (\<lambda>r.
             serve E (s\<lparr>srv_router := r\<rparr>) d base q))"

definition handle_error :: "server \<times> 'd \<Rightarrow> bytes \<Rightarrow> socket_addr \<Rightarrow> known_error \<Rightarrow> error_msg" where
  "handle_error h tid source_addr e = into_error (response_base (fst h) tid (Addr source_addr)) e"

subsection \<open>Answers\<close>

lemma handle_announce_base:
  "handle_announce E s d base n h port token = Inr (d', r) \<Longrightarrow> result_base r = base"
  by (auto simp: handle_announce_def into_error_def into_response_def
      split: if_split_asm sum.split_asm)

lemma handle_get_peers_base:
  "handle_get_peers E s d base n h = Inr r \<Longrightarrow> result_base r = base"
  by (auto simp: handle_get_peers_def into_error_def into_response_def
      split: sum.split_asm option.split_asm)

lemma handle_sample_base: "handle_sample E s d base t = Inr r \<Longrightarrow> result_base r = base"
  by (auto simp: handle_sample_def Let_def into_error_def into_response_def split: sum.split_asm)

definition served_router :: "server \<Rightarrow> query \<Rightarrow> router res" where
  "served_router s q =
     (if \<not> read_only (query_base q) then router_add (srv_router s) (sender_node (origin (query_base q)))
      else Inr (srv_router s))"

definition query_reply_base :: "server \<Rightarrow> query \<Rightarrow> message_base" where
  "query_reply_base s q = response_base s (transaction_id (query_base q)) (sender_receiver (origin (query_base q)))"

lemma handle_query_split:
  "handle_query E (s, d) q =
     (if srv_read_only s then Inl AssertFailed
      else if sender_id (origin (query_base q)) = node_id (srv_me s)
      then Inr ((s, d), Inl (into_error_generic (query_reply_base s q) ''Echo!''))
      else rbind (served_router s q) (\<lambda>rt. serve E (s\<lparr>srv_router := rt\<rparr>) d (query_reply_base s q) q))"
  unfolding handle_query_def served_router_def query_reply_base_def serve_def Let_def by simp

lemma serve_base:
  assumes "serve E s d base q = Inr ((s', d'), r)"
  shows "s' = s" "result_base r = base"
    "d' = d \<or> (\<exists>h port token. query_meth q = AnnouncePeer h port token \<and>
       handle_announce E s d base (sender_node (origin (query_base q))) h port token = Inr (d', r))"
proof -
  have "s' = s \<and> result_base r = base \<and>
    (d' = d \<or> (\<exists>h port token. query_meth q = AnnouncePeer h port token \<and>
       handle_announce E s d base (sender_node (origin (query_base q))) h port token = Inr (d', r)))"
  proof (cases "query_meth q")
    case (AnnouncePeer h port token)
    with assms show ?thesis by (auto simp: serve_def handle_announce_base)
  qed (use assms in \<open>auto simp: serve_def into_error_def into_response_def handle_get_peers_base handle_sample_base\<close>)
  then show "s' = s" "result_base r = base"
    "d' = d \<or> (\<exists>h port token. query_meth q = AnnouncePeer h port token \<and>
       handle_announce E s d base (sender_node (origin (query_base q))) h port token = Inr (d', r))"
    by simp_all
qed

lemma handle_query_base:
  assumes "handle_query E (s, d) q = Inr (h', r)"
  shows "result_base r = query_reply_base s q"
  using assms serve_base(2)
  by (cases h') (auto simp: handle_query_split into_error_generic_def split: if_split_asm)

lemma receiver_addr_sender [simp]: "receiver_addr (sender_receiver x) = Some (sender_addr x)"
  by (cases x) simp_all

interpretation server: query_handler "handle_query E" "handle_error :: server \<times> 'd \<Rightarrow> bytes \<Rightarrow> socket_addr \<Rightarrow> known_error \<Rightarrow> error_msg"
  for E :: "('d, 'e) env"
proof
  fix h h' :: "server \<times> 'd" and q r
  assume "handle_query E h q = Inr (h', r)"
  then show "answers (transaction_id (query_base q)) (sender_addr (origin (query_base q))) (result_base r)"
    using handle_query_base [of E "fst h" "snd h" q h' r] by (simp add: answers_def query_reply_base_def response_base_def)
qed (simp add: answers_def handle_error_def into_error_def response_base_def)

subsection \<open>Router of the server\<close>

lemma handle_query_router:
  assumes "handle_query E (s, d) q = Inr ((s', d'), r)" "router_ok (srv_router s)"
  shows "router_ok (srv_router s') \<and> banned_ids (srv_router s') = banned_ids (srv_router s) \<and>
    capacity (buckets (srv_router s')) = capacity (buckets (srv_router s)) \<and>
    (read_only (query_base q) \<longrightarrow> srv_router s' = srv_router s) \<and> s' = s\<lparr>srv_router := srv_router s'\<rparr>"
proof (cases "sender_id (origin (query_base q)) = node_id (srv_me s)")
  case True
  with assms show ?thesis by (auto simp: handle_query_split split: if_split_asm)
next
  case False
  with assms(1) obtain rt where rt: "served_router s q = Inr rt"
    and sv: "serve E (s\<lparr>srv_router := rt\<rparr>) d (query_reply_base s q) q = Inr ((s', d'), r)"
    by (auto simp: handle_query_split split: if_split_asm)
  from rt assms(2) have "router_ok rt \<and> banned_ids rt = banned_ids (srv_router s) \<and>
      capacity (buckets rt) = capacity (buckets (srv_router s)) \<and> (read_only (query_base q) \<longrightarrow> rt = srv_router s)"
    using router_add_ok [OF assms(2), of "sender_node (origin (query_base q))" rt]
    by (auto simp: served_router_def split: if_split_asm)
  with serve_base(1) [OF sv] show ?thesis by simp
qed

subsection \<open>The peer store\<close>

definition wrap_addr :: "socket_addr \<Rightarrow> socket_addr_wrapper" where
  "wrap_addr p = \<lparr>socket_addr = Some p\<rparr>"

definition peer_tree :: "socket_addr list \<Rightarrow> bval" where
  "peer_tree ps = BList (map ser_addr (map wrap_addr ps))"

text \<open>What the tree of \<open>sled\<close> promises: each operation may fail; a read that succeeds sees the
  contents, an update that succeeds stores what the function makes of the current contents,
  and a panic comes from the function.\<close>

definition tree_laws :: "('d, 'e) env \<Rightarrow> ('d \<Rightarrow> bytes \<Rightarrow> bytes option) \<Rightarrow> bool" where
  "tree_laws E contents \<longleftrightarrow>
     (\<forall>d k v. tree_get E d k = Inr v \<longrightarrow> v = contents d k) \<and>
     (\<forall>d k f x. tree_update E d k f = Inl x \<longrightarrow> f (contents d k) = Inl x) \<and>
     (\<forall>d k f d'. tree_update E d k f = Inr (Inr d') \<longrightarrow>
        (\<exists>v. f (contents d k) = Inr v \<and> contents d' = (contents d)(k := v)))"

text \<open>What \<open>bt_bencode\<close> promises: a list of byte strings can be written and reads back.\<close>

definition codec_laws :: "('d, 'e) env \<Rightarrow> bool" where
  "codec_laws E \<longleftrightarrow> (\<forall>bss. \<exists>bs. bencode E (BList (map BStr bss)) = Inr bs \<and> bdecode E bs = Some (BList (map BStr bss)))"

definition stored :: "('d, 'e) env \<Rightarrow> ('d \<Rightarrow> bytes \<Rightarrow> bytes option) \<Rightarrow> 'd \<Rightarrow> u160 \<Rightarrow> socket_addr list \<Rightarrow> bool" where
  "stored E contents d h ps \<longleftrightarrow> (\<forall>p\<in>set ps. plain_addr p) \<and>
     (case contents d (u160_to_be_bytes h) of
        None \<Rightarrow> ps = []
      | Some bs \<Rightarrow> bdecode E bs = Some (peer_tree ps))"

lemma peer_tree_codec:
  assumes "codec_laws E"
  shows "\<exists>bs. bencode E (peer_tree ps) = Inr bs \<and> bdecode E bs = Some (peer_tree ps)"
proof -
  have "peer_tree ps = BList (map BStr (map (addr_serialize \<circ> wrap_addr) ps))"
    by (simp add: peer_tree_def ser_addr_def)
  with assms show ?thesis unfolding codec_laws_def by metis
qed

lemma parse_peers_tree:
  assumes "bdecode E bs = Some (peer_tree ps)" "\<forall>p\<in>set ps. plain_addr p"
  shows "parse_peers E bs = Inr (map wrap_addr ps)"
proof -
  have "de_list de_addr (peer_tree ps) = Some (map wrap_addr ps)"
    unfolding peer_tree_def by (rule de_list_ser, rule de_addr_ser) (use assms(2) in \<open>auto simp: wrap_addr_def\<close>)
  with assms(1) show ?thesis by (simp add: parse_peers_def)
qed

definition insert_peer :: "socket_addr \<Rightarrow> socket_addr list \<Rightarrow> socket_addr list" where
  "insert_peer p ps = (if p \<in> set ps then ps else ps @ [p])"

lemma wrap_addr_mem: "\<lparr>socket_addr = Some p\<rparr> \<in> set (map wrap_addr ps) \<longleftrightarrow> p \<in> set ps"
  by (auto simp: wrap_addr_def)

lemma announce_update_ok:
  assumes "codec_laws E" "stored E contents d h ps"
  shows "\<exists>bs. announce_update E \<lparr>socket_addr = Some p\<rparr> (contents d (u160_to_be_bytes h)) = Inr (Some bs) \<and>
    bdecode E bs = Some (peer_tree (insert_peer p ps))"
proof -
  let ?old = "case contents d (u160_to_be_bytes h) of None \<Rightarrow> Inr [] | Some bs \<Rightarrow> parse_peers E bs"
  have old: "?old = Inr (map wrap_addr ps)"
    using assms(2) parse_peers_tree by (auto simp: stored_def split: option.split_asm)
  have new: "(if \<lparr>socket_addr = Some p\<rparr> \<notin> set (map wrap_addr ps) then map wrap_addr ps @ [\<lparr>socket_addr = Some p\<rparr>]
      else map wrap_addr ps) = map wrap_addr (insert_peer p ps)"
    unfolding wrap_addr_mem insert_peer_def by (simp add: wrap_addr_def)
  from peer_tree_codec [OF assms(1), of "insert_peer p ps"] obtain bs where
    "bencode E (peer_tree (insert_peer p ps)) = Inr bs" "bdecode E bs = Some (peer_tree (insert_peer p ps))" by blast
  then show ?thesis unfolding announce_update_def old peer_tree_def by (simp only: rbind.simps new Let_def) simp
qed

declare u160_to_be_bytes_inj [simp]

lemma handle_announce_success:
  assumes "handle_announce E s d base n h port token = Inr (d', r)"
  shows "d' = d \<and> isl r \<or>
    token_validate (crc32c E) (apply_keystream E) (clock E) (srv_tokens s) token (sock_ip (node_addr n)) = Inr True \<and>
    node_validate (crc32c E) (rnd_ms E) (rnd_ls E) n \<and>
    tree_update E d (u160_to_be_bytes h)
      (announce_update E \<lparr>socket_addr = Some (sock_new (sock_ip (node_addr n)) port)\<rparr>) = Inr (Inr d') \<and>
    r = Inr (into_response base Ok)"
  using assms by (auto simp: handle_announce_def split: if_split_asm sum.split_asm)

lemma served_announce:
  assumes "handle_query E (s, d) q = Inr ((s', d'), r)" "query_meth q = AnnouncePeer h port token"
  shows "d' = d \<and> isl r \<or>
    token_validate (crc32c E) (apply_keystream E) (clock E) (srv_tokens s) token (sock_ip (sender_addr (origin (query_base q)))) = Inr True \<and>
    node_validate (crc32c E) (rnd_ms E) (rnd_ls E) (sender_node (origin (query_base q))) \<and>
    tree_update E d (u160_to_be_bytes h)
      (announce_update E \<lparr>socket_addr = Some (sock_new (sock_ip (sender_addr (origin (query_base q)))) port)\<rparr>) = Inr (Inr d') \<and>
    r = Inr (into_response (query_reply_base s q) Ok)"
proof (cases "sender_id (origin (query_base q)) = node_id (srv_me s)")
  case True
  with assms show ?thesis by (auto simp: handle_query_split split: if_split_asm)
next
  case False
  have addr: "node_addr (sender_node x) = sender_addr x" for x by (cases x) simp_all
  from False assms obtain rt where
    "handle_announce E (s\<lparr>srv_router := rt\<rparr>) d (query_reply_base s q) (sender_node (origin (query_base q))) h port token = Inr (d', r)"
    by (auto simp: handle_query_split serve_def split: if_split_asm)
  from handle_announce_success [OF this] show ?thesis by (simp add: addr)
qed

lemma only_announce_writes:
  assumes "handle_query E (s, d) q = Inr ((s', d'), r)" "d' \<noteq> d"
  shows "\<exists>h port token. query_meth q = AnnouncePeer h port token"
  using assms serve_base(3) by (fastforce simp: handle_query_split split: if_split_asm)

lemma announce_contents:
  assumes laws: "tree_laws E contents" "codec_laws E" and st: "stored E contents d h ps"
    and upd: "tree_update E d (u160_to_be_bytes h) (announce_update E \<lparr>socket_addr = Some p\<rparr>) = Inr (Inr d')"
    and p: "plain_addr p"
  shows "stored E contents d' h (insert_peer p ps)"
    "h' \<noteq> h \<Longrightarrow> contents d' (u160_to_be_bytes h') = contents d (u160_to_be_bytes h')"
proof -
  from announce_update_ok [OF laws(2) st, of p] obtain bs where
    "announce_update E \<lparr>socket_addr = Some p\<rparr> (contents d (u160_to_be_bytes h)) = Inr (Some bs)"
    and bs: "bdecode E bs = Some (peer_tree (insert_peer p ps))" by blast
  then have c: "contents d' = (contents d)(u160_to_be_bytes h \<mapsto> bs)"
    using laws(1) upd unfolding tree_laws_def by fastforce
  with bs st p show "stored E contents d' h (insert_peer p ps)"
    by (auto simp: stored_def insert_peer_def)
  show "h' \<noteq> h \<Longrightarrow> contents d' (u160_to_be_bytes h') = contents d (u160_to_be_bytes h')"
    by (simp add: c)
qed

lemma unwrap_peers:
  "map_res (\<lambda>a. case socket_addr a of None \<Rightarrow> Inl UnwrapNone | Some p \<Rightarrow> Inr p) (map wrap_addr ps) = Inr ps"
  by (induction ps) (simp_all add: wrap_addr_def)

lemma handle_get_peers_stored:
  assumes "tree_laws E contents" "stored E contents d h ps"
    "handle_get_peers E s d base n h = Inr (Inr resp)"
  shows "\<exists>token ns. token_generate (crc32c E) (apply_keystream E) (token_rand E) (clock E) (srv_tokens s)
      (sock_ip (node_addr n)) = Inr token \<and> router_lookup (srv_router s) h = Inr ns \<and>
    resp_kind resp = (if contents d (u160_to_be_bytes h) = None then KNearest ns (Some token)
                      else Peers ps token (Some ns))"
proof -
  from assms(3) obtain token where token: "token_generate (crc32c E) (apply_keystream E) (token_rand E) (clock E)
      (srv_tokens s) (sock_ip (node_addr n)) = Inr token"
    by (auto simp: handle_get_peers_def)
  from assms(3) token obtain v where v: "tree_get E d (u160_to_be_bytes h) = Inr v" and op: "open_tree E d = Inr ()"
    by (auto simp: handle_get_peers_def split: sum.split_asm)
  then have c: "contents d (u160_to_be_bytes h) = v" using assms(1) unfolding tree_laws_def by blast
  show ?thesis
  proof (cases v)
    case None
    with assms(3) token v op c show ?thesis by (auto simp: handle_get_peers_def into_response_def)
  next
    case (Some bs)
    with assms(2) c have "parse_peers E bs = Inr (map wrap_addr ps)"
      by (auto simp: stored_def parse_peers_tree)
    with Some assms(3) token v op c show ?thesis
      by (auto simp: handle_get_peers_def into_response_def unwrap_peers)
  qed
qed

subsection \<open>No panics\<close>

definition db_ok :: "('d, 'e) env \<Rightarrow> ('d \<Rightarrow> bytes \<Rightarrow> bytes option) \<Rightarrow> 'd \<Rightarrow> bool" where
  "db_ok E contents d \<longleftrightarrow> (\<forall>h. \<exists>ps. stored E contents d h ps)"

lemma handle_get_peers_total:
  assumes "tree_laws E contents" "db_ok E contents d" "clock E = Some now" "router_ok (srv_router s)"
  shows "\<exists>r. handle_get_peers E s d base n h = Inr r"
proof -
  obtain ns where ns: "router_lookup (srv_router s) h = Inr ns"
    using bucket.lookup_ok [of "buckets (srv_router s)" h] assms(4) by (auto simp: router_ok_def router_lookup_def)
  obtain ps where ps: "stored E contents d h ps" using assms(2) by (auto simp: db_ok_def)
  have "parse_peers E bs = Inr (map wrap_addr ps)" if "tree_get E d (u160_to_be_bytes h) = Inr (Some bs)" for bs
  proof -
    have "contents d (u160_to_be_bytes h) = Some bs" using assms(1) that unfolding tree_laws_def by metis
    with ps show ?thesis by (auto simp: stored_def parse_peers_tree)
  qed
  then show ?thesis
    using ns by (auto simp: handle_get_peers_def token_generate_def assms(3) Let_def unwrap_peers split: sum.split option.split)
qed

lemma handle_announce_total:
  assumes "tree_laws E contents" "codec_laws E" "db_ok E contents d" "clock E = Some now" "unat now + 120 < 2 ^ 64"
  shows "\<exists>r. handle_announce E s d base n h port token = Inr r"
proof -
  obtain ok where ok: "token_validate (crc32c E) (apply_keystream E) (Some now) (srv_tokens s) token (sock_ip (node_addr n)) = Inr ok"
    using token_validate_total [OF assms(5)] by blast
  obtain ps where ps: "stored E contents d h ps" using assms(3) by (auto simp: db_ok_def)
  have "\<exists>r. tree_update E d (u160_to_be_bytes h) (announce_update E \<lparr>socket_addr = Some p\<rparr>) = Inr r" for p
  proof (cases "tree_update E d (u160_to_be_bytes h) (announce_update E \<lparr>socket_addr = Some p\<rparr>)")
    case (Inl x)
    then have "announce_update E \<lparr>socket_addr = Some p\<rparr> (contents d (u160_to_be_bytes h)) = Inl x"
      using assms(1) unfolding tree_laws_def by blast
    with announce_update_ok [OF assms(2) ps, of p] show ?thesis by simp
  qed simp
  then obtain r where "tree_update E d (u160_to_be_bytes h)
      (announce_update E \<lparr>socket_addr = Some (sock_new (sock_ip (node_addr n)) port)\<rparr>) = Inr r" by blast
  with ok show ?thesis by (auto simp: handle_announce_def assms(4) split: sum.split)
qed

lemma handle_sample_total:
  assumes "router_ok (srv_router s)"
  shows "\<exists>r. handle_sample E s d base t = Inr r"
  using bucket.lookup_ok [of "buckets (srv_router s)" t] assms
  by (auto simp: handle_sample_def router_ok_def router_lookup_def Let_def split: sum.split)

lemma handle_query_total:
  assumes "tree_laws E contents" "codec_laws E" "db_ok E contents d" "clock E = Some now" "unat now + 120 < 2 ^ 64"
    "router_ok (srv_router s)" "\<not> srv_read_only s"
  shows "\<exists>x. handle_query E (s, d) q = Inr x"
proof -
  obtain rt where rt: "served_router s q = Inr rt" and ok: "router_ok rt"
    using router_add_total [OF assms(6), of "sender_node (origin (query_base q))"] router_add_ok [OF assms(6)] assms(6)
    by (cases "read_only (query_base q)") (auto simp: served_router_def)
  have "\<exists>x. serve E (s\<lparr>srv_router := rt\<rparr>) d base q = Inr x" for base
  proof (cases "query_meth q")
    case (FindNode t)
    then show ?thesis using bucket.lookup_ok [of "buckets rt" t] ok
      by (auto simp: serve_def router_lookup_def router_ok_def)
  next
    case (GetPeers h)
    then show ?thesis
      using handle_get_peers_total [OF assms(1,3,4), of "s\<lparr>srv_router := rt\<rparr>" base "sender_node (origin (query_base q))" h] ok
      by (auto simp: serve_def)
  next
    case (AnnouncePeer h port token)
    then show ?thesis
      using handle_announce_total [OF assms(1-5), of "s\<lparr>srv_router := rt\<rparr>" base "sender_node (origin (query_base q))" h port token]
      by (auto simp: serve_def)
  next
    case (SampleInfohashes t)
    then show ?thesis
      using handle_sample_total [of "s\<lparr>srv_router := rt\<rparr>" E d base t] ok by (auto simp: serve_def)
  qed (simp_all add: serve_def)
  with rt assms(7) show ?thesis by (auto simp: handle_query_split)
qed

subsection \<open>An environment\<close>

text \<open>A database that is a map, the format of the theory \<open>Bencode\<close>, a constant checksum and the
  stream cipher of the theory \<open>Token\<close>: the witnesses evaluate in it.\<close>

definition ex_env :: "(bytes \<Rightarrow> bytes option, unit) env" where
  "ex_env =
     \<lparr>crc32c = (\<lambda>_. 0), apply_keystream = xor_stream, clock = Some 1000, token_rand = replicate 8 0,
      rnd_ms = 0, rnd_ls = 0, open_tree = (\<lambda>d. Inr ()), tree_get = (\<lambda>d k. Inr (d k)),
      tree_update = (\<lambda>d k f. rbind (f (d k)) (\<lambda>v. Inr (Inr (d(k := v))))),
      tree_keys = (\<lambda>d. []), choose_multiple = take, bencode = benc, bdecode = bdec\<rparr>"

lemma ex_codec_laws: "codec_laws ex_env"
proof -
  have "canon (BList (map BStr bss)) = BList (map BStr bss)" for bss by (simp add: comp_def)
  then have "benc (BList (map BStr bss)) = Inr (emit (BList (map BStr bss)))" for bss by (simp only: benc_def)
  moreover have "bencode ex_env = benc" "bdecode ex_env = bdec" by (simp_all add: ex_env_def)
  ultimately show ?thesis using bdec_emit unfolding codec_laws_def by metis
qed

lemma rbind_eq_Inl_Inr: "rbind m (\<lambda>v. Inr (f v)) = Inl x \<longleftrightarrow> m = Inl x"
  by (cases m) simp_all

lemma ex_tree_laws: "tree_laws ex_env (\<lambda>d. d)"
  by (auto simp: tree_laws_def ex_env_def rbind_eq_Inl_Inr)

definition ex_server :: server where
  "ex_server =
     \<lparr>srv_router = \<lparr>buckets = root u160_max K_SIZE, banned_ids = []\<rparr>, srv_transaction = 0, srv_read_only = False,
      srv_me = \<lparr>node_id = u160_max, node_addr = SockV4 9 9\<rparr>, srv_tokens = \<lparr>token_key = []\<rparr>\<rparr>"

definition ex_ask :: "query_method \<Rightarrow> query" where
  "ex_ask m = into_query
     \<lparr>origin = Remote \<lparr>node_id = u160_min, node_addr = SockV4 1 2\<rparr>, destination = ReceiverMe,
      requestor_addr = None, transaction_id = [6, 5], read_only = False, base_client = None\<rparr> m"

definition ex_token :: bytes where
  "ex_token = to_be_bytes 4 (0 :: u32) @ replicate 8 0 @ xor_stream [] [] (to_be_bytes 8 (1000 :: u64))"

lemma ex_router_ok: "router_ok (srv_router ex_server)"
  by (simp add: ex_server_def router_ok_new)

lemma ex_db_ok: "db_ok ex_env (\<lambda>d. d) (\<lambda>k. None)"
  by (simp add: db_ok_def stored_def)

lemma ex_token_valid: "token_validate (\<lambda>_. 0) xor_stream (Some 1000) \<lparr>token_key = []\<rparr> ex_token ip = Inr True"
proof -
  have "token_generate (\<lambda>_. 0) xor_stream (replicate 8 0) (Some 1000) \<lparr>token_key = []\<rparr> ip = Inr ex_token"
    by (simp add: token_generate_def ex_token_def xor_stream_def)
  from token_validate_generated [OF xor_stream_cipher _ _ this] show ?thesis by simp
qed

lemma ex_node_valid: "node_validate (\<lambda>_. 0) 0 0 \<lparr>node_id = u160_min, node_addr = a\<rparr>"
  by (simp add: node_validate_def u160_validate_iff u160_min_def bep42_prefix_def split: ip_addr.split)

lemma ex_announce:
  "\<exists>s' d'. handle_query ex_env (ex_server, \<lambda>k. None) (ex_ask (AnnouncePeer u160_max 77 ex_token)) =
     Inr ((s', d'), Inr (into_response (query_reply_base ex_server (ex_ask Ping)) Ok)) \<and>
     stored ex_env (\<lambda>d. d) d' u160_max [SockV4 1 77] \<and> d' \<noteq> (\<lambda>k. None)"
proof -
  let ?q = "ex_ask (AnnouncePeer u160_max 77 ex_token)"
  let ?base = "query_reply_base ex_server (ex_ask Ping)"
  let ?d = "(\<lambda>k. None) :: bytes \<Rightarrow> bytes option"
  have base: "query_reply_base ex_server ?q = ?base" by (simp add: query_reply_base_def ex_ask_def into_query_def)
  have me: "sender_id (origin (query_base ?q)) \<noteq> node_id (srv_me ex_server)" "\<not> srv_read_only ex_server"
    by (simp_all add: ex_ask_def into_query_def ex_server_def u160_min_def u160_max_def)
  obtain rt where rt: "served_router ex_server ?q = Inr rt"
    using router_add_total [OF ex_router_ok, of "sender_node (origin (query_base ?q))"]
    by (cases "read_only (query_base ?q)") (auto simp: served_router_def)
  have empty: "stored ex_env (\<lambda>d. d) ?d u160_max []" by (simp add: stored_def)
  from announce_update_ok [OF ex_codec_laws empty, of "SockV4 1 77"] obtain bs where
    v: "announce_update ex_env \<lparr>socket_addr = Some (SockV4 1 77)\<rparr> None = Inr (Some bs)"
    and bs: "bdecode ex_env bs = Some (peer_tree [SockV4 1 77])"
    by (auto simp: insert_peer_def)
  have env: "crc32c ex_env = (\<lambda>_. 0)" "apply_keystream ex_env = xor_stream" "clock ex_env = Some 1000"
    "rnd_ms ex_env = 0" "rnd_ls ex_env = 0" "open_tree ex_env ?d = Inr ()"
    "tree_update ex_env ?d k f = rbind (f None) (\<lambda>v. Inr (Inr (?d(k := v))))" for k f
    by (simp_all add: ex_env_def)
  have "handle_announce ex_env (ex_server\<lparr>srv_router := rt\<rparr>) ?d ?base
      \<lparr>node_id = u160_min, node_addr = SockV4 1 2\<rparr> u160_max 77 ex_token =
    Inr (?d(u160_to_be_bytes u160_max := Some bs), Inr (into_response ?base Ok))"
    using v by (simp add: handle_announce_def env ex_token_valid ex_node_valid ex_server_def)
  then have "serve ex_env (ex_server\<lparr>srv_router := rt\<rparr>) ?d ?base ?q =
      Inr ((ex_server\<lparr>srv_router := rt\<rparr>, ?d(u160_to_be_bytes u160_max := Some bs)), Inr (into_response ?base Ok))"
    by (simp add: serve_def ex_ask_def into_query_def)
  moreover have "?d(u160_to_be_bytes u160_max := Some bs) \<noteq> ?d" by (auto simp: fun_eq_iff)
  ultimately show ?thesis using rt me base bs by (simp add: handle_query_split stored_def)
qed

lemma ex_get_peers:
  assumes "stored ex_env (\<lambda>d. d) d h ps"
  shows "\<exists>s' resp. handle_query ex_env (ex_server, d) (ex_ask (GetPeers h)) = Inr ((s', d), Inr resp)"
proof -
  let ?q = "ex_ask (GetPeers h)"
  have me: "sender_id (origin (query_base ?q)) \<noteq> node_id (srv_me ex_server)" "\<not> srv_read_only ex_server"
    by (simp_all add: ex_ask_def into_query_def ex_server_def u160_min_def u160_max_def)
  obtain rt where rt: "served_router ex_server ?q = Inr rt" and ok: "router_ok rt"
    using router_add_total [OF ex_router_ok, of "sender_node (origin (query_base ?q))"]
      router_add_ok [OF ex_router_ok] ex_router_ok
    by (cases "read_only (query_base ?q)") (auto simp: served_router_def)
  obtain ns where ns: "router_lookup rt h = Inr ns"
    using bucket.lookup_ok [of "buckets rt" h] ok by (auto simp: router_ok_def router_lookup_def)
  have "parse_peers ex_env bs = Inr (map wrap_addr ps)" if "d (u160_to_be_bytes h) = Some bs" for bs
    using assms that by (simp add: stored_def parse_peers_tree)
  then have gp: "\<exists>resp. handle_get_peers ex_env (ex_server\<lparr>srv_router := rt\<rparr>) d base n h = Inr (Inr resp)" for base n
    using ns by (cases "d (u160_to_be_bytes h)")
      (auto simp: handle_get_peers_def token_generate_def unwrap_peers ex_env_def Let_def)
  have sv: "\<exists>resp. serve ex_env (ex_server\<lparr>srv_router := rt\<rparr>) d base ?q =
      Inr ((ex_server\<lparr>srv_router := rt\<rparr>, d), Inr resp)" for base
    using gp [of base "sender_node (origin (query_base ?q))"] by (auto simp: serve_def ex_ask_def into_query_def)
  from sv [of "query_reply_base ex_server ?q"] obtain resp where
    "serve ex_env (ex_server\<lparr>srv_router := rt\<rparr>) d (query_reply_base ex_server ?q) ?q =
      Inr ((ex_server\<lparr>srv_router := rt\<rparr>, d), Inr resp)" by blast
  with rt me show ?thesis by (simp add: handle_query_split)
qed


lemma find_node_answer:
  assumes "handle_query E (s, d) q = Inr ((s', d'), r)" "router_ok (srv_router s)"
  shows "\<forall>t ns token base. query_meth q = FindNode t \<and> r = Inr (into_response base (KNearest ns token)) \<longrightarrow>
       length ns \<le> capacity (buckets (srv_router s)) \<and> (\<forall>n\<in>set ns. node_id n \<notin> set (banned_ids (srv_router s)))"
proof (intro allI impI)
  fix t ns token base
  assume "query_meth q = FindNode t \<and> r = Inr (into_response base (KNearest ns token))"
  with assms(1) have ns: "router_lookup (srv_router s') t = Inr ns"
    by (auto simp: handle_query_split serve_def into_response_def split: if_split_asm)
  have s': "router_ok (srv_router s')" "banned_ids (srv_router s') = banned_ids (srv_router s)"
    "capacity (buckets (srv_router s')) = capacity (buckets (srv_router s))"
    using handle_query_router [OF assms] by simp_all
  with bucket.lookup_ok [of "buckets (srv_router s')" t] bucket.lookup_avoids [of "buckets (srv_router s')" _ t ns] ns
  show "length ns \<le> capacity (buckets (srv_router s)) \<and> (\<forall>n\<in>set ns. node_id n \<notin> set (banned_ids (srv_router s)))"
    by (auto simp: router_ok_def router_lookup_def)
qed

subsection \<open>Properties\<close>



text \<open>C25: a server that is not read-only, whose table is well-formed, whose stored peer lists are
  readable and whose clock is set answers every query: no branch of \<open>handle_query\<close> panics, also
  when the database fails.\<close>

theorem handle_query_never_panics:
  assumes "tree_laws E contents" "codec_laws E" "db_ok E contents d" "clock E = Some now" "unat now + 120 < 2 ^ 64"
    "router_ok (srv_router s)" "\<not> srv_read_only s"
  shows "\<exists>x. handle_query E (s, d) q = Inr x"
  by (rule handle_query_total [OF assms])

theorem handle_query_never_panics_witness:
  "\<exists>x. handle_query ex_env (ex_server, \<lambda>k. None) (ex_ask (GetPeers u160_max)) = Inr x"
proof (rule handle_query_never_panics [OF ex_tree_laws ex_codec_laws ex_db_ok _ _ ex_router_ok])
  show "clock ex_env = Some 1000" by (simp add: ex_env_def)
  show "\<not> srv_read_only ex_server" by (simp add: ex_server_def)
qed simp

text \<open>C6: a query changes the stored peers only if it is an announcement with a token that this
  server accepts for the sender's address at this moment, from a sender whose identifier is
  valid for its address, and then it is acknowledged.\<close>

theorem only_valid_announce_stores:
  assumes "handle_query E (s, d) q = Inr ((s', d'), r)" "d' \<noteq> d"
  shows "\<exists>h port token. query_meth q = AnnouncePeer h port token \<and>
    token_validate (crc32c E) (apply_keystream E) (clock E) (srv_tokens s) token
      (sock_ip (sender_addr (origin (query_base q)))) = Inr True \<and>
    node_validate (crc32c E) (rnd_ms E) (rnd_ls E) (sender_node (origin (query_base q))) \<and>
    r = Inr (into_response (query_reply_base s q) Ok)"
  using only_announce_writes [OF assms] served_announce [OF assms(1)] assms(2) by blast

theorem only_valid_announce_stores_witness:
  "node_validate (crc32c ex_env) (rnd_ms ex_env) (rnd_ls ex_env) \<lparr>node_id = u160_min, node_addr = SockV4 1 2\<rparr>"
proof -
  from ex_announce obtain s' d' where
    "handle_query ex_env (ex_server, \<lambda>k. None) (ex_ask (AnnouncePeer u160_max 77 ex_token)) =
      Inr ((s', d'), Inr (into_response (query_reply_base ex_server (ex_ask Ping)) Ok))" "d' \<noteq> (\<lambda>k. None)" by blast
  from only_valid_announce_stores [OF this] show ?thesis by (auto simp: ex_ask_def into_query_def)
qed

text \<open>C5: an acknowledged announcement adds the sender's address with the announced port to the peers
  stored for the info hash, once, and leaves all other info hashes alone.\<close>

theorem announce_stored:
  assumes "tree_laws E contents" "codec_laws E" "stored E contents d h ps"
    "query_meth q = AnnouncePeer h port token" "handle_query E (s, d) q = Inr ((s', d'), Inr resp)"
  shows "stored E contents d' h (insert_peer (sock_new (sock_ip (sender_addr (origin (query_base q)))) port) ps) \<and>
    (\<forall>h'. h' \<noteq> h \<longrightarrow> contents d' (u160_to_be_bytes h') = contents d (u160_to_be_bytes h'))"
proof -
  have "tree_update E d (u160_to_be_bytes h)
      (announce_update E \<lparr>socket_addr = Some (sock_new (sock_ip (sender_addr (origin (query_base q)))) port)\<rparr>) = Inr (Inr d')"
    using served_announce [OF assms(5,4)] by simp
  from announce_contents [OF assms(1-3) this] show ?thesis by simp
qed

theorem announce_stored_witness:
  "\<exists>s' d' r. handle_query ex_env (ex_server, \<lambda>k. None) (ex_ask (AnnouncePeer u160_max 77 ex_token)) = Inr ((s', d'), r) \<and>
     stored ex_env (\<lambda>d. d) d' u160_max [SockV4 1 77]"
proof -
  from ex_announce obtain s' d' where
    a: "handle_query ex_env (ex_server, \<lambda>k. None) (ex_ask (AnnouncePeer u160_max 77 ex_token)) =
      Inr ((s', d'), Inr (into_response (query_reply_base ex_server (ex_ask Ping)) Ok))" by blast
  have "stored ex_env (\<lambda>d. d) (\<lambda>k. None) u160_max []" by (simp add: stored_def)
  from announce_stored [OF ex_tree_laws ex_codec_laws this _ a] a show ?thesis
    by (auto simp: ex_ask_def into_query_def insert_peer_def)
qed

text \<open>C32: the answer to \<open>get_peers\<close> lists exactly the stored peers, with a token issued for the
  asking address and the nodes of the table nearest to the info hash; when nothing was ever
  stored it has only the token and the nodes.\<close>

theorem get_peers_lists_stored:
  assumes "tree_laws E contents" "stored E contents d h ps" "query_meth q = GetPeers h"
    "sender_id (origin (query_base q)) \<noteq> node_id (srv_me s)"
    "handle_query E (s, d) q = Inr ((s', d'), Inr resp)"
  shows "\<exists>token ns. token_generate (crc32c E) (apply_keystream E) (token_rand E) (clock E) (srv_tokens s)
      (sock_ip (sender_addr (origin (query_base q)))) = Inr token \<and> router_lookup (srv_router s') h = Inr ns \<and>
    resp_kind resp = (if contents d (u160_to_be_bytes h) = None then KNearest ns (Some token)
                      else Peers ps token (Some ns))"
proof -
  from assms(3-5) obtain rt where gp: "handle_get_peers E (s\<lparr>srv_router := rt\<rparr>) d (query_reply_base s q)
      (sender_node (origin (query_base q))) h = Inr (Inr resp)" and s': "s' = s\<lparr>srv_router := rt\<rparr>"
    by (auto simp: handle_query_split serve_def split: if_split_asm)
  have "node_addr (sender_node x) = sender_addr x" for x by (cases x) simp_all
  with handle_get_peers_stored [OF assms(1,2) gp] s' show ?thesis by simp
qed

theorem get_peers_lists_stored_witness:
  "\<exists>s' d' resp token ns. stored ex_env (\<lambda>d. d) d' u160_max [SockV4 1 77] \<and>
     handle_query ex_env (ex_server, d') (ex_ask (GetPeers u160_max)) = Inr ((s', d'), Inr resp) \<and>
     resp_kind resp = Peers [SockV4 1 77] token (Some ns)"
proof -
  from ex_announce obtain d' where d': "stored ex_env (\<lambda>d. d) d' u160_max [SockV4 1 77]" by blast
  then have some: "d' (u160_to_be_bytes u160_max) \<noteq> None"
    by (cases "d' (u160_to_be_bytes u160_max)") (simp_all add: stored_def)
  from ex_get_peers [OF d'] obtain s' resp where
    hq: "handle_query ex_env (ex_server, d') (ex_ask (GetPeers u160_max)) = Inr ((s', d'), Inr resp)" by blast
  have "\<exists>token ns. resp_kind resp = Peers [SockV4 1 77] token (Some ns)"
    using get_peers_lists_stored [OF ex_tree_laws d' _ _ hq] some
    by (auto simp: ex_ask_def into_query_def ex_server_def u160_min_def u160_max_def)
  with d' hq show ?thesis by blast
qed

text \<open>Answering a query keeps the routing table well-formed and the bans in force; a querier that
  declares itself read-only is not entered in the table; and a \<open>find_node\<close> answer has at most
  as many nodes as a bucket, none of them banned.\<close>

theorem handle_query_keeps_router:
  assumes "handle_query E (s, d) q = Inr ((s', d'), r)" "router_ok (srv_router s)"
  shows "router_ok (srv_router s') \<and> banned_ids (srv_router s') = banned_ids (srv_router s) \<and>
    (read_only (query_base q) \<longrightarrow> srv_router s' = srv_router s) \<and>
    (\<forall>t ns token base. query_meth q = FindNode t \<and> r = Inr (into_response base (KNearest ns token)) \<longrightarrow>
       length ns \<le> capacity (buckets (srv_router s)) \<and> (\<forall>n\<in>set ns. node_id n \<notin> set (banned_ids (srv_router s))))"
  using handle_query_router [OF assms] find_node_answer [OF assms] by blast

theorem handle_query_keeps_router_witness:
  "\<exists>s' d' r. handle_query ex_env (ex_server, \<lambda>k. None) (ex_ask Ping) = Inr ((s', d'), r) \<and> router_ok (srv_router s')"
proof -
  have "\<exists>x. handle_query ex_env (ex_server, \<lambda>k. None) (ex_ask Ping) = Inr x"
  proof (rule handle_query_total [OF ex_tree_laws ex_codec_laws ex_db_ok _ _ ex_router_ok])
    show "clock ex_env = Some 1000" by (simp add: ex_env_def)
    show "\<not> srv_read_only ex_server" by (simp add: ex_server_def)
  qed simp
  then obtain s' d' r where hq: "handle_query ex_env (ex_server, \<lambda>k. None) (ex_ask Ping) = Inr ((s', d'), r)" by auto
  from handle_query_keeps_router [OF hq ex_router_ok] hq show ?thesis by blast
qed

end
