(* ===== verification/Find.thy ===== *)
theory Find
  imports Server
begin

text \<open>
  The client half of \<open>node.rs\<close>: queries are numbered and sent, and \<open>find_n_starting_at\<close> walks
  towards a target.  The walk is a step relation: a step is one turn of its \<open>while\<close> loop, in
  which some pending task finishes (\<open>select_all\<close> may pick any) and its result is worked in.
  What the messenger returns for a query is any \<open>query_result\<close>.
\<close>

subsection \<open>Numbered queries\<close>

definition build_query :: "server \<Rightarrow> receiver \<Rightarrow> query_method \<Rightarrow> query \<times> server" where
  "build_query s to meth =
     (into_query
        \<lparr>origin = Me (srv_me s), destination = to, requestor_addr = Some (node_addr (srv_me s)),
         transaction_id = to_be_bytes 2 (ucast (srv_transaction s) :: u16),
         read_only = srv_read_only s, base_client = None\<rparr> meth,
      s\<lparr>srv_transaction := srv_transaction s + 1\<rparr>)"

subsection \<open>State of a walk\<close>

datatype one_result =
    FoundSome "node_info list"
  | RemoveOne node_info
  | FoundPeers "socket_addr list" "node_info list option"

datatype found = KClosest "node_info list" | PeerSet "socket_addr set"

datatype find_task = StartTask "node_info list" | SendFind node_info

record walk =
  wk_router :: router
  wk_tasks :: "find_task list"
  wk_seen :: "(u160 \<times> node_info) list"
  wk_ignore :: "node_info set"
  wk_peers :: "socket_addr set"
  wk_answered :: "node_info list"

text \<open>\<open>wk_answered\<close> is a ghost field: the nodes whose task ended without being ignored.\<close>

definition note_answer :: "node_info \<Rightarrow> one_result \<Rightarrow> walk \<Rightarrow> walk" where
  "note_answer n one w = (case one of RemoveOne _ \<Rightarrow> w | _ \<Rightarrow> w\<lparr>wk_answered := n # wk_answered w\<rparr>)"

text \<open>\<open>send_find\<close> once the messenger has returned.\<close>

definition send_find :: "router \<Rightarrow> node_info \<Rightarrow> bool \<Rightarrow> query_result \<Rightarrow> (router \<times> one_result) res" where
  "send_find r to find_peers result =
     (case result of
        Inr resp \<Rightarrow>
          rbind (router_add r (sender_node (origin (resp_base resp)))) (\<lambda>r'.
          Inr (r', case resp_kind resp of
                     KNearest ns token \<Rightarrow> FoundSome ns
                   | Peers ps token ns \<Rightarrow> if find_peers then FoundPeers ps ns else RemoveOne to
                   | _ \<Rightarrow> RemoveOne to))
      | Inl e \<Rightarrow> Inr (ban_id r (node_id to), RemoveOne to))"

text \<open>The body of the \<open>for\<close> loop over the nodes of a result.  \<open>seen\<close> is a \<open>BTreeSet\<close> ordered and
  compared by the distance alone.\<close>

definition consider_node :: "(node_info \<Rightarrow> bool) \<Rightarrow> u160 \<Rightarrow> node_info \<Rightarrow> walk \<Rightarrow> walk" where
  "consider_node valid target n w =
     (let d = distance target (node_id n); seen = wk_seen w in
      if (length seen \<le> unat (K_SIZE * 2) \<or> d < fst (seen ! unat (K_SIZE * 2))) \<and> d \<notin> fst ` set seen
      then let w' = w\<lparr>wk_seen := insort_key fst (d, n) seen\<rparr>
           in if valid n then w'\<lparr>wk_tasks := add_task (wk_tasks w') (SendFind n)\<rparr> else w'
      else w)"

definition work_in :: "(node_info \<Rightarrow> bool) \<Rightarrow> u160 \<Rightarrow> one_result \<Rightarrow> walk \<Rightarrow> walk" where
  "work_in valid target r w =
     (case r of
        FoundSome ns \<Rightarrow> fold (consider_node valid target) ns w
      | RemoveOne n \<Rightarrow> w\<lparr>wk_ignore := insert n (wk_ignore w)\<rparr>
      | FoundPeers ps ns \<Rightarrow>
          fold (consider_node valid target) (case ns of None \<Rightarrow> [] | Some ns \<Rightarrow> ns)
            (w\<lparr>wk_peers := wk_peers w \<union> set ps\<rparr>))"

inductive walk_step :: "(node_info \<Rightarrow> bool) \<Rightarrow> bool \<Rightarrow> u160 \<Rightarrow> walk \<Rightarrow> walk \<Rightarrow> bool"
  for valid :: "node_info \<Rightarrow> bool" and find_peers :: bool and target :: u160 where
  ws_start: "get_next_result i (wk_tasks w) = Some (StartTask ns, rest) \<Longrightarrow>
     walk_step valid find_peers target w (work_in valid target (FoundSome ns) (w\<lparr>wk_tasks := rest\<rparr>))"
| ws_reply: "get_next_result i (wk_tasks w) = Some (SendFind n, rest) \<Longrightarrow>
     send_find (wk_router w) n find_peers result = Inr (r', one) \<Longrightarrow>
     walk_step valid find_peers target w
       (work_in valid target one (note_answer n one (w\<lparr>wk_tasks := rest, wk_router := r'\<rparr>)))"

inductive_cases walk_stepE: "walk_step valid find_peers target w w'"

definition walk_start :: "router \<Rightarrow> node_info list \<Rightarrow> walk" where
  "walk_start r ns = \<lparr>wk_router = r, wk_tasks = [StartTask ns], wk_seen = [], wk_ignore = {}, wk_peers = {},
     wk_answered = []\<rparr>"

inductive walk_reachable :: "(node_info \<Rightarrow> bool) \<Rightarrow> bool \<Rightarrow> u160 \<Rightarrow> router \<Rightarrow> node_info list \<Rightarrow> nat \<Rightarrow> walk \<Rightarrow> bool"
  for valid :: "node_info \<Rightarrow> bool" and find_peers :: bool and target :: u160 and r :: router and ns :: "node_info list" where
  wr_start: "walk_reachable valid find_peers target r ns 0 (walk_start r ns)"
| wr_step: "walk_reachable valid find_peers target r ns k w \<Longrightarrow> walk_step valid find_peers target w w' \<Longrightarrow>
     walk_reachable valid find_peers target r ns (Suc k) w'"

text \<open>The value returned when no task is left; \<open>None\<close> while one is.\<close>

definition walk_result :: "u8 \<Rightarrow> walk \<Rightarrow> found option" where
  "walk_result k w =
     (if wk_tasks w \<noteq> [] then None
      else if wk_peers w \<noteq> {} then Some (PeerSet (wk_peers w))
      else Some (KClosest (take (unat k) (filter (\<lambda>n. n \<notin> wk_ignore w) (map snd (wk_seen w))))))"

text \<open>\<open>find_nodes\<close> and its variants on the result of a walk that does not ask for peers.\<close>

definition k_closest :: "found \<Rightarrow> node_info list res" where
  "k_closest f = (case f of KClosest ns \<Rightarrow> Inr ns | PeerSet ps \<Rightarrow> Inl ExplicitPanic)"

subsection \<open>Transactions\<close>

lemma build_query_tid:
  "transaction_id (query_base (fst (build_query s to meth))) = to_be_bytes 2 (ucast (srv_transaction s) :: u16)"
  by (simp add: build_query_def into_query_def)

text \<open>The queries that a node builds one after the other.\<close>

fun build_queries :: "server \<Rightarrow> (receiver \<times> query_method) list \<Rightarrow> query list" where
  "build_queries s [] = []"
| "build_queries s ((to, m) # xs) = (case build_query s to m of (q, s') \<Rightarrow> q # build_queries s' xs)"

lemma build_queries_tid:
  "i < length xs \<Longrightarrow> transaction_id (query_base (build_queries s xs ! i)) =
     to_be_bytes 2 (ucast (srv_transaction s + of_nat i) :: u16)"
proof (induction xs arbitrary: s i)
  case (Cons x xs)
  obtain to m where x: "x = (to, m)" by fastforce
  show ?case
  proof (cases i)
    case 0
    then show ?thesis by (simp add: x build_query_def into_query_def)
  next
    case (Suc j)
    then have "j < length xs" using Cons.prems by simp
    from Cons.IH [OF this, of "snd (build_query s to m)"] Suc show ?thesis
      by (simp add: x build_query_def add_ac)
  qed
qed simp

lemma length_build_queries [simp]: "length (build_queries s xs) = length xs"
  by (induction s xs rule: build_queries.induct) (simp_all split: prod.split)

lemma unat_ucast_add_16: "unat (ucast (a + of_nat i :: u64) :: u16) = (unat a + i) mod 2 ^ 16"
proof -
  have "unat (a + of_nat i) = (unat a + i) mod 2 ^ 64"
    by (simp add: unat_word_ariths unat_of_nat mod_add_right_eq)
  then show ?thesis by (simp add: unsigned_ucast_eq take_bit_eq_mod mod_mod_cancel)
qed

lemma tids_window:
  assumes "i < j" "j < length xs" "j - i < 65536"
  shows "transaction_id (query_base (build_queries s xs ! i)) \<noteq> transaction_id (query_base (build_queries s xs ! j))"
proof
  assume "transaction_id (query_base (build_queries s xs ! i)) = transaction_id (query_base (build_queries s xs ! j))"
  then have "(ucast (srv_transaction s + of_nat i) :: u16) = ucast (srv_transaction s + of_nat j)"
    using assms by (simp add: build_queries_tid) (rule to_be_bytes_inj [of 2], simp_all)
  then have "(unat (srv_transaction s) + i) mod 2 ^ 16 = (unat (srv_transaction s) + j) mod 2 ^ 16"
    by (metis unat_ucast_add_16)
  then have "(2 ^ 16 :: nat) dvd (unat (srv_transaction s) + j) - (unat (srv_transaction s) + i)"
    using assms(1) by (metis mod_eq_dvd_iff_nat nat_add_left_cancel_le less_imp_le)
  then have "65536 dvd j - i" by simp
  with assms(1,3) show False by (auto dest: dvd_imp_le)
qed

subsection \<open>One turn of the loop\<close>

definition task_nodes :: "find_task list \<Rightarrow> node_info list" where
  "task_nodes ts = List.map_filter (\<lambda>t. case t of SendFind n \<Rightarrow> Some n | StartTask ns \<Rightarrow> None) ts"

lemma task_nodes_simps [simp]:
  "task_nodes [] = []"
  "task_nodes (ts @ us) = task_nodes ts @ task_nodes us"
  "task_nodes (SendFind n # ts) = n # task_nodes ts"
  "task_nodes (StartTask ns # ts) = task_nodes ts"
  by (simp_all add: task_nodes_def List.map_filter_def)

definition dist_to :: "u160 \<Rightarrow> node_info \<Rightarrow> u160" where
  "dist_to target n = distance target (node_id n)"

definition seen_ok :: "u160 \<Rightarrow> walk \<Rightarrow> bool" where
  "seen_ok target w \<longleftrightarrow> sorted (map fst (wk_seen w)) \<and> distinct (map fst (wk_seen w)) \<and>
     (\<forall>(d, n)\<in>set (wk_seen w). d = dist_to target n)"

definition handled :: "walk \<Rightarrow> node_info set" where
  "handled w = set (task_nodes (wk_tasks w)) \<union> set (wk_answered w) \<union> wk_ignore w"

definition asked_ok :: "(node_info \<Rightarrow> bool) \<Rightarrow> walk \<Rightarrow> bool" where
  "asked_ok valid w \<longleftrightarrow>
     distinct (task_nodes (wk_tasks w) @ wk_answered w) \<and>
     (set (task_nodes (wk_tasks w)) \<union> set (wk_answered w)) \<inter> wk_ignore w = {} \<and>
     handled w = {n \<in> snd ` set (wk_seen w). valid n}"

text \<open>The potential of a walk: its tasks and the distances it has not seen.\<close>

definition id_count :: nat where
  "id_count = 2 ^ 160"

definition potential :: "walk \<Rightarrow> nat" where
  "potential w = length (wk_tasks w) + (id_count - length (wk_seen w))"

lemma distances_bound:
  assumes "distinct (ds :: u160 list)"
  shows "length ds \<le> id_count"
proof -
  have "distinct (map u160_word ds)" using assms by (simp add: distinct_map inj_on_def)
  then have "length (map u160_word ds) \<le> card (UNIV :: 160 word set)"
    by (metis distinct_card card_mono finite subset_UNIV)
  then show ?thesis by (simp add: card_word id_count_def)
qed

lemma consider_cases:
  obtains (skip) "consider_node valid target n w = w"
    | (take) "dist_to target n \<notin> fst ` set (wk_seen w)"
      "consider_node valid target n w =
         w\<lparr>wk_seen := insort_key fst (dist_to target n, n) (wk_seen w),
           wk_tasks := wk_tasks w @ (if valid n then [SendFind n] else [])\<rparr>"
proof (cases "(length (wk_seen w) \<le> unat (K_SIZE * 2) \<or> dist_to target n < fst (wk_seen w ! unat (K_SIZE * 2))) \<and>
    dist_to target n \<notin> fst ` set (wk_seen w)")
  case True
  with take show thesis by (simp add: consider_node_def Let_def dist_to_def)
next
  case False
  then have "consider_node valid target n w = w"
    unfolding consider_node_def Let_def dist_to_def by (simp only: if_False)
  with skip show thesis .
qed

lemma insort_key_map_fst: "map fst (insort_key fst x xs) = insort (fst x) (map fst xs)"
  by (induction xs) auto

lemma consider_seen_ok: "seen_ok target w \<Longrightarrow> seen_ok target (consider_node valid target n w)"
  by (cases rule: consider_cases [of valid target n w])
    (auto simp: seen_ok_def insort_key_map_fst sorted_insort distinct_insort set_insort_key)

lemma consider_potential:
  assumes "seen_ok target w"
  shows "potential (consider_node valid target n w) \<le> potential w"
proof (cases rule: consider_cases [of valid target n w])
  case take
  have "seen_ok target (consider_node valid target n w)" by (rule consider_seen_ok [OF assms])
  then have "length (map fst (wk_seen (consider_node valid target n w))) \<le> id_count"
    by (intro distances_bound) (simp add: seen_ok_def)
  then show ?thesis by (simp add: take(2) potential_def) arith
qed simp

lemma consider_asked_ok:
  assumes "seen_ok target w" "asked_ok valid w"
  shows "asked_ok valid (consider_node valid target n w)"
proof (cases rule: consider_cases [of valid target n w])
  case take
  have "(d, n) \<notin> set (wk_seen w)" for d
    using assms(1) take(1) by (force simp: seen_ok_def)
  then have "n \<notin> handled w" using assms(2) by (auto simp: asked_ok_def)
  with assms(2) show ?thesis
    by (auto simp: take(2) asked_ok_def handled_def set_insort_key)
qed (simp add: assms(2))

lemma consider_other [simp]:
  "wk_peers (consider_node valid target n w) = wk_peers w"
  "wk_ignore (consider_node valid target n w) = wk_ignore w"
  "wk_answered (consider_node valid target n w) = wk_answered w"
  "wk_router (consider_node valid target n w) = wk_router w"
  by (simp_all add: consider_node_def Let_def)

definition walk_inv :: "(node_info \<Rightarrow> bool) \<Rightarrow> u160 \<Rightarrow> walk \<Rightarrow> bool" where
  "walk_inv valid target w \<longleftrightarrow> seen_ok target w \<and> asked_ok valid w"

lemma fold_consider:
  assumes "walk_inv valid target w"
  shows "walk_inv valid target (fold (consider_node valid target) ns w) \<and>
    potential (fold (consider_node valid target) ns w) \<le> potential w \<and>
    wk_peers (fold (consider_node valid target) ns w) = wk_peers w \<and>
    wk_router (fold (consider_node valid target) ns w) = wk_router w"
  using assms
proof (induction ns arbitrary: w)
  case (Cons n ns)
  have "walk_inv valid target (consider_node valid target n w)"
    using Cons.prems consider_seen_ok consider_asked_ok by (auto simp: walk_inv_def)
  with Cons.IH [OF this] consider_potential [of target w valid n] Cons.prems show ?case
    by (auto simp: walk_inv_def)
qed simp

lemma send_find_result:
  assumes "send_find r n find_peers result = Inr (r', one)"
  shows "one = RemoveOne m \<Longrightarrow> m = n" "one = FoundPeers ps ns \<Longrightarrow> find_peers"
    "router_ok r \<Longrightarrow> router_ok r'"
  using assms router_add_ok ban_id_ok
  by (auto simp: send_find_def split: sum.split_asm response_kind.split_asm if_split_asm)

lemma send_find_total: "router_ok r \<Longrightarrow> \<exists>r' one. send_find r n find_peers result = Inr (r', one)"
  using router_add_total [of r "sender_node (origin (resp_base (projr result)))"]
  by (cases result) (auto simp: send_find_def)

lemma walk_start_inv: "walk_inv valid target (walk_start r ns)"
  by (simp add: walk_inv_def seen_ok_def asked_ok_def handled_def walk_start_def)

lemma drop_start_task:
  assumes "walk_inv valid target w" "wk_tasks w = pre @ StartTask ns # post"
  shows "walk_inv valid target (w\<lparr>wk_tasks := pre @ post\<rparr>)"
  using assms by (simp add: walk_inv_def seen_ok_def asked_ok_def handled_def)

lemma answer_task:
  assumes "walk_inv valid target w" "wk_tasks w = pre @ SendFind n # post"
  shows "walk_inv valid target (w\<lparr>wk_tasks := pre @ post, wk_router := r', wk_answered := n # wk_answered w\<rparr>)"
    "walk_inv valid target (w\<lparr>wk_tasks := pre @ post, wk_router := r', wk_ignore := insert n (wk_ignore w)\<rparr>)"
  using assms by (auto simp: walk_inv_def seen_ok_def asked_ok_def handled_def)

lemma work_in_inv:
  assumes "walk_inv valid target w" "\<And>m. one \<noteq> RemoveOne m"
  shows "walk_inv valid target (work_in valid target one w) \<and>
    potential (work_in valid target one w) \<le> potential w \<and>
    wk_router (work_in valid target one w) = wk_router w \<and>
    ((\<forall>ps ns. one \<noteq> FoundPeers ps ns) \<longrightarrow> wk_peers (work_in valid target one w) = wk_peers w)"
proof (cases one)
  case (FoundSome ns)
  with fold_consider [OF assms(1), of ns] show ?thesis by (simp add: work_in_def)
next
  case (RemoveOne m)
  with assms(2) [of m] show ?thesis by blast
next
  case (FoundPeers ps ns)
  let ?w = "w\<lparr>wk_peers := wk_peers w \<union> set ps\<rparr>"
  have "walk_inv valid target ?w" using assms(1) by (simp add: walk_inv_def seen_ok_def asked_ok_def handled_def)
  from fold_consider [OF this] FoundPeers show ?thesis by (simp add: work_in_def potential_def)
qed

lemma walk_step_inv:
  assumes "walk_step valid find_peers target w w'" "walk_inv valid target w"
  shows "walk_inv valid target w' \<and> potential w' < potential w \<and>
    (\<not> find_peers \<longrightarrow> wk_peers w' = wk_peers w) \<and> (router_ok (wk_router w) \<longrightarrow> router_ok (wk_router w'))"
  using assms(1)
proof cases
  case (ws_start i ns rest)
  then obtain pre post where t: "wk_tasks w = pre @ StartTask ns # post" "rest = pre @ post"
    using get_next_result_split [OF ws_start(2)] by blast
  then have "potential (w\<lparr>wk_tasks := pre @ post\<rparr>) < potential w" by (simp add: potential_def)
  with work_in_inv [OF drop_start_task [OF assms(2) t(1)], of "FoundSome ns"] ws_start(1) t(2) show ?thesis by simp
next
  case (ws_reply i n rest result r' one)
  then obtain pre post where t: "wk_tasks w = pre @ SendFind n # post" "rest = pre @ post"
    using get_next_result_split [OF ws_reply(2)] by blast
  note sf = send_find_result [OF ws_reply(3)]
  show ?thesis
  proof (cases one)
    case (RemoveOne m)
    with sf(1) have "one = RemoveOne n" by simp
    then have "w' = w\<lparr>wk_tasks := pre @ post, wk_router := r', wk_ignore := insert n (wk_ignore w)\<rparr>"
      using ws_reply t(2) by (simp add: work_in_def note_answer_def)
    with answer_task(2) [OF assms(2) t(1), of r'] t(1) sf(3) show ?thesis by (simp add: potential_def)
  next
    case (FoundSome ns)
    let ?w = "w\<lparr>wk_tasks := pre @ post, wk_router := r', wk_answered := n # wk_answered w\<rparr>"
    from FoundSome have "w' = work_in valid target one ?w" using ws_reply t(2) by (simp add: note_answer_def)
    with work_in_inv [OF answer_task(1) [OF assms(2) t(1), of r'], of one] FoundSome t(1) sf(3)
    show ?thesis by (auto simp: potential_def)
  next
    case (FoundPeers ps ns)
    let ?w = "w\<lparr>wk_tasks := pre @ post, wk_router := r', wk_answered := n # wk_answered w\<rparr>"
    from FoundPeers have "w' = work_in valid target one ?w" using ws_reply t(2) by (simp add: note_answer_def)
    with work_in_inv [OF answer_task(1) [OF assms(2) t(1), of r'], of one] FoundPeers t(1) sf(2,3)
    show ?thesis by (auto simp: potential_def)
  qed
qed

interpretation walk: bounded_system "walk_step valid find_peers target" "walk_inv valid target" potential
  by unfold_locales (use walk_step_inv in blast)+

lemma walk_reachable_relpow:
  "walk_reachable valid find_peers target r ns k w \<Longrightarrow> (walk_step valid find_peers target ^^ k) (walk_start r ns) w"
  by (induction rule: walk_reachable.induct) auto

lemma walk_reachable_inv:
  assumes "walk_reachable valid find_peers target r ns k w"
  shows "walk_inv valid target w \<and> k + potential w \<le> Suc id_count \<and>
    (\<not> find_peers \<longrightarrow> wk_peers w = {}) \<and> (router_ok r \<longrightarrow> router_ok (wk_router w))"
proof -
  have inv: "walk_inv valid target w \<and> k + potential w \<le> Suc id_count" if "walk_reachable valid find_peers target r ns k w" for k w
    using walk.run_bound [OF walk_reachable_relpow [OF that] walk_start_inv] by (simp add: walk_start_def potential_def)
  have "(\<not> find_peers \<longrightarrow> wk_peers w = {}) \<and> (router_ok r \<longrightarrow> router_ok (wk_router w))"
    using assms
  proof induction
    case (wr_step k w w')
    then show ?case using walk_step_inv [OF wr_step(2)] inv [OF wr_step(1)] by auto
  qed (simp add: walk_start_def)
  with inv [OF assms] show ?thesis by blast
qed

lemma walk_can_step:
  assumes "wk_tasks w \<noteq> []" "router_ok (wk_router w)"
  shows "\<exists>w'. walk_step valid find_peers target w w'"
proof -
  obtain t ts where "wk_tasks w = t # ts" using assms(1) by (cases "wk_tasks w") auto
  then have next_task: "get_next_result 0 (wk_tasks w) = Some (t, ts)" by simp
  show ?thesis
  proof (cases t)
    case (StartTask ns)
    with next_task ws_start show ?thesis by metis
  next
    case (SendFind n)
    obtain r' one where "send_find (wk_router w) n find_peers (Inl undefined) = Inr (r', one)"
      using send_find_total [OF assms(2)] by blast
    with next_task SendFind ws_reply show ?thesis by metis
  qed
qed

lemma walk_result_shape:
  assumes "walk_result k w = Some (KClosest ns)"
  shows "wk_tasks w = []" "ns = take (unat k) (filter (\<lambda>n. n \<notin> wk_ignore w) (map snd (wk_seen w)))"
  using assms by (auto simp: walk_result_def split: if_split_asm)

lemma seen_nodes_sorted:
  assumes "seen_ok target w"
  shows "map (dist_to target) (map snd (wk_seen w)) = map fst (wk_seen w)"
  using assms by (auto simp: seen_ok_def)

lemma kept_sorted:
  assumes "seen_ok target w" "ms = filter P (map snd (wk_seen w))"
  shows "sorted (map (dist_to target) ms)" "distinct (map (dist_to target) ms)"
proof -
  have eq: "map (dist_to target) (map snd (wk_seen w)) = map fst (wk_seen w)" by (rule seen_nodes_sorted [OF assms(1)])
  have "sorted (map (dist_to target) (map snd (wk_seen w)))" "distinct (map (dist_to target) (map snd (wk_seen w)))"
    unfolding eq using assms(1) by (simp_all add: seen_ok_def)
  then show "sorted (map (dist_to target) ms)" "distinct (map (dist_to target) ms)"
    unfolding assms(2) by (simp_all add: sorted_filter distinct_map_filter del: map_map)
qed

lemma walk_result_nodes:
  assumes "walk_inv valid target w" "walk_result k w = Some (KClosest ns)"
  shows "length ns \<le> unat k" "sorted (map (dist_to target) ns)" "distinct (map (dist_to target) ns)"
    "\<forall>n\<in>set ns. n \<in> set (wk_answered w) \<or> \<not> valid n"
    "\<forall>m\<in>snd ` set (wk_seen w). m \<in> wk_ignore w \<or> m \<in> set ns \<or>
       length ns = unat k \<and> (\<forall>n\<in>set ns. dist_to target n \<le> dist_to target m)"
proof -
  note shape = walk_result_shape [OF assms(2)]
  let ?ms = "filter (\<lambda>n. n \<notin> wk_ignore w) (map snd (wk_seen w))"
  have seen: "seen_ok target w" using assms(1) by (simp add: walk_inv_def)
  note ms = kept_sorted [OF seen refl, of "\<lambda>n. n \<notin> wk_ignore w"]
  have split: "map (dist_to target) ?ms = map (dist_to target) ns @ map (dist_to target) (drop (unat k) ?ms)"
    unfolding shape(2) by (simp only: map_append [symmetric] append_take_drop_id)
  show "length ns \<le> unat k" by (simp add: shape(2))
  show "sorted (map (dist_to target) ns)" "distinct (map (dist_to target) ns)"
    using ms unfolding split by (simp_all add: sorted_append)
  have sub: "set ns \<subseteq> set ?ms" unfolding shape(2) by (rule set_take_subset)
  show "\<forall>n\<in>set ns. n \<in> set (wk_answered w) \<or> \<not> valid n"
  proof
    fix n assume "n \<in> set ns"
    with sub have n: "n \<in> snd ` set (wk_seen w)" "n \<notin> wk_ignore w" by auto
    moreover have "handled w = {n \<in> snd ` set (wk_seen w). valid n}"
      using assms(1) by (simp add: walk_inv_def asked_ok_def)
    ultimately show "n \<in> set (wk_answered w) \<or> \<not> valid n" using shape(1) by (auto simp: handled_def)
  qed
  show "\<forall>m\<in>snd ` set (wk_seen w). m \<in> wk_ignore w \<or> m \<in> set ns \<or>
       length ns = unat k \<and> (\<forall>n\<in>set ns. dist_to target n \<le> dist_to target m)"
  proof (intro ballI)
    fix m assume m: "m \<in> snd ` set (wk_seen w)"
    show "m \<in> wk_ignore w \<or> m \<in> set ns \<or>
       length ns = unat k \<and> (\<forall>n\<in>set ns. dist_to target n \<le> dist_to target m)"
    proof (cases "m \<in> wk_ignore w \<or> m \<in> set ns")
      case False
      with m have "m \<in> set ?ms" by auto
      then have d: "m \<in> set (drop (unat k) ?ms)"
        using False shape(2) by (metis append_take_drop_id Un_iff set_append)
      then have "length ns = unat k" unfolding shape(2) by (cases "unat k \<le> length ?ms") auto
      with d ms(1) show ?thesis unfolding split by (auto simp: sorted_append)
    qed blast
  qed
qed

subsection \<open>Properties\<close>

text \<open>Of the queries a node builds, any two with fewer than 65536 others between them have different
  transaction identifiers.\<close>

theorem transactions_distinct:
  assumes "i < j" "j < length xs" "j - i < 65536"
  shows "transaction_id (query_base (build_queries s xs ! i)) \<noteq> transaction_id (query_base (build_queries s xs ! j))"
  by (rule tids_window [OF assms])

theorem transactions_distinct_witness:
  "transaction_id (query_base (build_queries ex_server [(ReceiverMe, Ping), (ReceiverMe, Ping)] ! 0)) \<noteq>
   transaction_id (query_base (build_queries ex_server [(ReceiverMe, Ping), (ReceiverMe, Ping)] ! 1))"
  using transactions_distinct [of 0 1 "[(ReceiverMe, Ping), (ReceiverMe, Ping)]" ex_server] by simp


lemma ex_walk:
  "walk_reachable valid find_peers target r ns 0 (walk_start r ns)"
  by (rule wr_start)


text \<open>During a walk no node is asked twice, a node is asked only if its identifier is valid for its
  address, and every valid node that was seen is waiting for its answer, has answered, or is
  ignored because it did not.\<close>

theorem walk_asks_once:
  assumes "walk_reachable valid find_peers target r ns k w"
  shows "distinct (task_nodes (wk_tasks w) @ wk_answered w) \<and>
    (set (task_nodes (wk_tasks w)) \<union> set (wk_answered w)) \<inter> wk_ignore w = {} \<and>
    set (task_nodes (wk_tasks w)) \<union> set (wk_answered w) \<union> wk_ignore w = {n \<in> snd ` set (wk_seen w). valid n}"
  using walk_reachable_inv [OF assms] by (simp add: walk_inv_def asked_ok_def handled_def)

definition ex_walk_node :: node_info where
  "ex_walk_node = \<lparr>node_id = u160_min, node_addr = SockV4 1 2\<rparr>"

text \<open>A walk that is given one node: it is entered in \<open>seen\<close>, and asked if it is valid.\<close>

definition ex_walked :: "bool \<Rightarrow> walk" where
  "ex_walked v = \<lparr>wk_router = srv_router ex_server, wk_tasks = (if v then [SendFind ex_walk_node] else []),
     wk_seen = [(u160_max, ex_walk_node)], wk_ignore = {}, wk_peers = {}, wk_answered = []\<rparr>"

lemma ex_walked_reachable:
  "walk_reachable (\<lambda>_. v) False u160_max (srv_router ex_server) [ex_walk_node] 1 (ex_walked v)"
proof -
  have d: "distance u160_max u160_min = u160_max"
    by (simp add: distance_def bitxor_def u160_max_def u160_min_def u160_new_def)
  let ?w = "walk_start (srv_router ex_server) [ex_walk_node]"
  have "get_next_result 0 (wk_tasks ?w) = Some (StartTask [ex_walk_node], [])" by (simp add: walk_start_def)
  from ws_start [OF this, of "\<lambda>_. v" False u160_max]
  have "walk_step (\<lambda>_. v) False u160_max ?w (ex_walked v)"
    by (cases v) (simp_all add: work_in_def consider_node_def Let_def walk_start_def ex_walked_def ex_walk_node_def d)
  from wr_step [OF wr_start this] show ?thesis by simp
qed

theorem walk_asks_once_witness:
  "set (task_nodes (wk_tasks (ex_walked True))) = {n \<in> snd ` set (wk_seen (ex_walked True)). True}"
  using walk_asks_once [OF ex_walked_reachable [of True]] by (simp add: ex_walked_def)

text \<open>C7: the nodes a finished walk returns are at most \<open>k\<close>, in order of their distance to the target and
  without repetition; each of them has answered or has an identifier that is not valid for its
  address (such nodes are returned though they were never asked); and every other node that was
  seen is ignored or at least as far as all \<open>k\<close> of them.\<close>

theorem walk_returns_nearest:
  assumes "walk_reachable valid find_peers target r ns0 i w" "walk_result k w = Some (KClosest ns)"
  shows "length ns \<le> unat k \<and> sorted (map (\<lambda>n. distance target (node_id n)) ns) \<and>
    distinct (map (\<lambda>n. distance target (node_id n)) ns) \<and>
    (\<forall>n\<in>set ns. n \<in> set (wk_answered w) \<or> \<not> valid n) \<and>
    (\<forall>m\<in>snd ` set (wk_seen w). m \<in> wk_ignore w \<or> m \<in> set ns \<or>
       length ns = unat k \<and> (\<forall>n\<in>set ns. distance target (node_id n) \<le> distance target (node_id m)))"
proof -
  have inv: "walk_inv valid target w" using walk_reachable_inv [OF assms(1)] by blast
  have d: "dist_to target = (\<lambda>n. distance target (node_id n))" by (simp add: dist_to_def fun_eq_iff)
  show ?thesis using walk_result_nodes [OF inv assms(2)] unfolding d by blast
qed

theorem walk_returns_nearest_witness:
  "walk_result 8 (ex_walked False) = Some (KClosest [ex_walk_node]) \<and> wk_answered (ex_walked False) = [] \<and>
   length [ex_walk_node] \<le> unat (8 :: u8)"
proof -
  have r: "walk_result 8 (ex_walked False) = Some (KClosest [ex_walk_node])"
    by (simp add: walk_result_def ex_walked_def)
  from walk_returns_nearest [OF ex_walked_reachable r] r show ?thesis by (simp add: ex_walked_def)
qed

text \<open>A walk that does not ask for peers never ends with peers, so the branch of \<open>find_nodes\<close> and its
  variants that is declared unreachable is not reached.\<close>

theorem find_nodes_reachable_branch:
  assumes "walk_reachable valid False target r ns i w" "walk_result k w = Some f"
  shows "\<exists>ms. k_closest f = Inr ms"
  using walk_reachable_inv [OF assms(1)] assms(2) by (auto simp: walk_result_def k_closest_def split: if_split_asm)

theorem find_nodes_reachable_branch_witness: "\<exists>ms. k_closest (KClosest [ex_walk_node]) = Inr ms"
proof -
  have "walk_result 8 (ex_walked False) = Some (KClosest [ex_walk_node])"
    by (simp add: walk_result_def ex_walked_def)
  from find_nodes_reachable_branch [OF ex_walked_reachable this] show ?thesis .
qed

end
