(* ===== verification/Sweep.thy ===== *)
theory Sweep
  imports Find
begin

text \<open>
  \<open>infohash_sweep\<close> of \<open>node.rs\<close>: a walk through the whole identifier space that asks every node it
  learns of for samples of its info hashes.  The loop, its tasks and the backfill task it may spawn
  share \<open>to_send\<close> and \<open>queried\<close>; the sweep is a step relation whose steps are what one of them
  does while it holds these locks.  The results of the searches it starts with and of the backfill
  are those of walks of the theory \<open>Find\<close>; the replies of the nodes asked are any.
\<close>

subsection \<open>State\<close>

text \<open>Where the loop stands: in the \<open>for\<close> loop at the beginning, waiting for a result, before the test
  whether a backfill is needed, before the last \<open>query_next\<close> of a turn.\<close>

datatype sweep_pc = SwStart nat | SwWait | SwGap u160 bool | SwNext

datatype backfill = BfIdle | BfStarted u160 | BfWalking u160 "node_info list"

text \<open>\<open>sw_asked\<close> and \<open>sw_late\<close> are ghost fields: the nodes a task was started for, and those that a
  backfill queued when the loop had already ended.\<close>

record sweep =
  sw_to_send :: "node_info list"
  sw_queried :: "u160 set"
  sw_tasks :: "node_info list"
  sw_pc :: sweep_pc
  sw_backfill :: backfill
  sw_rx_open :: bool
  sw_sent :: "u160 list"
  sw_asked :: "node_info list"
  sw_late :: "node_info set"

subsection \<open>Operations\<close>

text \<open>\<open>next_highest\<close> and the bound of \<open>large_gap\<close>.\<close>

definition NEXT_HIGHEST :: u160 where
  "NEXT_HIGHEST = u160_new 0x000007ffffffffffffffffffffffffff 0xffffffff"

definition LARGE_GAP :: u160 where
  "LARGE_GAP = u160_new 0x00003fffffffffffffffffffffffffff 0xffffffff"

definition sweep_target :: "node_info \<Rightarrow> u160" where
  "sweep_target n = bitor (node_id n) NEXT_HIGHEST"

text \<open>\<open>query_one\<close> when its first query (\<open>SampleInfohashes\<close> of the target) is answered by \<open>r1\<close> and its
  second (\<open>FindNode\<close>, sent unless the first brought samples) by \<open>r2\<close>.\<close>

definition query_one :: "node_info \<Rightarrow> query_result \<Rightarrow> query_result \<Rightarrow> u160 \<times> node_info list \<times> u160 list option" where
  "query_one n r1 r2 =
     (case map_sum id resp_kind r1 of
        Inr (Samples ns samples available interval) \<Rightarrow> (node_id n, ns, Some samples)
      | _ \<Rightarrow>
          (case map_sum id resp_kind r2 of
             Inr (KNearest ns token) \<Rightarrow> (node_id n, ns, None)
           | _ \<Rightarrow> (node_id n, [], None)))"

definition query_one_asks :: "node_info \<Rightarrow> query_result \<Rightarrow> query_method list" where
  "query_one_asks n r1 =
     SampleInfohashes (sweep_target n) #
     (case map_sum id resp_kind r1 of Inr (Samples _ _ _ _) \<Rightarrow> [] | _ \<Rightarrow> [FindNode (sweep_target n)])"

definition queue_node :: "node_info \<Rightarrow> sweep \<Rightarrow> sweep" where
  "queue_node n w =
     (if node_id n \<notin> sw_queried w
      then w\<lparr>sw_queried := insert (node_id n) (sw_queried w), sw_to_send := snd (btree_insert n (sw_to_send w))\<rparr>
      else w)"

definition add_to_send_queue :: "u160 \<Rightarrow> node_info list \<Rightarrow> sweep \<Rightarrow> sweep" where
  "add_to_send_queue target ns w = fold queue_node (filter (\<lambda>n. target < node_id n) ns) w"

definition query_next :: "sweep \<Rightarrow> sweep" where
  "query_next w =
     (case sw_to_send w of
        [] \<Rightarrow> w
      | n # rest \<Rightarrow> w\<lparr>sw_to_send := rest, sw_tasks := add_task (sw_tasks w) n, sw_asked := sw_asked w @ [n]\<rparr>)"

definition large_gap :: "u160 \<Rightarrow> sweep \<Rightarrow> bool" where
  "large_gap target w = (case sw_to_send w of [] \<Rightarrow> False | q # _ \<Rightarrow> LARGE_GAP < distance (node_id q) target)"

text \<open>The samples go into the channel \<open>tx\<close> one by one; once its receiver is gone (here after \<open>k\<close> of
  them) sending fails and is logged.\<close>

definition send_samples :: "u160 list \<Rightarrow> nat \<Rightarrow> sweep \<Rightarrow> sweep" where
  "send_samples samples k w =
     (if sw_rx_open w then w\<lparr>sw_sent := sw_sent w @ take k samples, sw_rx_open := length samples \<le> k\<rparr> else w)"

definition sweep_start :: "node_info list \<Rightarrow> node_info list \<Rightarrow> sweep" where
  "sweep_start a b =
     \<lparr>sw_to_send = fold (\<lambda>n xs. snd (btree_insert n xs)) (a @ b) [], sw_queried = node_id ` set (a @ b), sw_tasks = [],
      sw_pc = SwStart 200, sw_backfill = BfIdle, sw_rx_open = True, sw_sent = [], sw_asked = [], sw_late = {}\<rparr>"

definition sweep_done :: "sweep \<Rightarrow> bool" where
  "sweep_done w \<longleftrightarrow> sw_pc w = SwWait \<and> sw_tasks w = []"

text \<open>What \<open>find_n_nodes_starting_at\<close> may return.\<close>

definition walk_finds :: "(node_info \<Rightarrow> bool) \<Rightarrow> u160 \<Rightarrow> u8 \<Rightarrow> node_info list \<Rightarrow> node_info list \<Rightarrow> bool" where
  "walk_finds valid target k ns found \<longleftrightarrow>
     (\<exists>r i w. walk_reachable valid False target r ns i w \<and> walk_result k w = Some (KClosest found))"

inductive sweep_step :: "(node_info \<Rightarrow> bool) \<Rightarrow> sweep \<Rightarrow> sweep \<Rightarrow> bool" for valid :: "node_info \<Rightarrow> bool" where
  ss_start: "sw_pc w = SwStart (Suc k) \<Longrightarrow> sweep_step valid w ((query_next w)\<lparr>sw_pc := SwStart k\<rparr>)"
| ss_started: "sw_pc w = SwStart 0 \<Longrightarrow> sweep_step valid w (w\<lparr>sw_pc := SwWait\<rparr>)"
| ss_result: "sw_pc w = SwWait \<Longrightarrow> get_next_result i (sw_tasks w) = Some (n, rest) \<Longrightarrow>
     query_one n r1 r2 = (target, ns, samples) \<Longrightarrow>
     w1 = send_samples (case samples of None \<Rightarrow> [] | Some xs \<Rightarrow> xs) k (w\<lparr>sw_tasks := rest\<rparr>) \<Longrightarrow>
     sweep_step valid w
       (if ns = [] then w1\<lparr>sw_pc := SwGap target (large_gap target w1)\<rparr>
        else (add_to_send_queue target ns w1)\<lparr>sw_pc := SwNext\<rparr>)"
| ss_gap: "sw_pc w = SwGap target gap \<Longrightarrow>
     sweep_step valid w
       (if gap \<and> sw_backfill w = BfIdle then w\<lparr>sw_backfill := BfStarted target, sw_pc := SwNext\<rparr>
        else w\<lparr>sw_pc := SwNext\<rparr>)"
| ss_next: "sw_pc w = SwNext \<Longrightarrow> sweep_step valid w ((query_next w)\<lparr>sw_pc := SwWait\<rparr>)"
| ss_backfill_read: "sw_backfill w = BfStarted target \<Longrightarrow>
     sweep_step valid w (w\<lparr>sw_backfill := BfWalking target (take 8 (sw_to_send w))\<rparr>)"
| ss_backfill_done: "sw_backfill w = BfWalking target ns \<Longrightarrow> walk_finds valid target 255 ns found \<Longrightarrow>
     w1 = add_to_send_queue target found w \<Longrightarrow>
     sweep_step valid w
       (w1\<lparr>sw_backfill := BfIdle,
           sw_late := (if sweep_done w then sw_late w \<union> (set (sw_to_send w1) - set (sw_to_send w)) else sw_late w)\<rparr>)"

inductive sweep_reachable :: "(node_info \<Rightarrow> bool) \<Rightarrow> node_info list \<Rightarrow> node_info list \<Rightarrow> nat \<Rightarrow> sweep \<Rightarrow> bool"
  for valid :: "node_info \<Rightarrow> bool" and a :: "node_info list" and b :: "node_info list" where
  sr_start: "walk_finds valid u160_min 255 nsa a \<Longrightarrow> walk_finds valid (u160_not u160_min) 255 nsb b \<Longrightarrow>
     sweep_reachable valid a b 0 (sweep_start a b)"
| sr_step: "sweep_reachable valid a b j w \<Longrightarrow> sweep_step valid w w' \<Longrightarrow> sweep_reachable valid a b (Suc j) w'"

inductive_cases sweep_stepE: "sweep_step valid w w'"

subsection \<open>The queue\<close>

definition queue_ok :: "node_info set \<Rightarrow> sweep \<Rightarrow> bool" where
  "queue_ok initial w \<longleftrightarrow> distinct (sw_asked w @ sw_to_send w) \<and> sorted (sw_to_send w) \<and>
     set (sw_tasks w) \<subseteq> set (sw_asked w) \<and>
     sw_queried w = node_id ` (set (sw_asked w) \<union> set (sw_to_send w)) \<and>
     (\<forall>m\<in>set (sw_asked w) \<union> set (sw_to_send w). \<forall>n\<in>set (sw_asked w) \<union> set (sw_to_send w).
        node_id m = node_id n \<longrightarrow> m = n \<or> m \<in> initial \<and> n \<in> initial)"

lemma queue_node_new:
  assumes "queue_ok initial w" "node_id n \<notin> sw_queried w"
  shows "queue_node n w = w\<lparr>sw_queried := insert (node_id n) (sw_queried w), sw_to_send := insort n (sw_to_send w)\<rparr>"
    "n \<notin> set (sw_asked w) \<union> set (sw_to_send w)"
proof -
  show new: "n \<notin> set (sw_asked w) \<union> set (sw_to_send w)" using assms by (auto simp: queue_ok_def)
  then show "queue_node n w = w\<lparr>sw_queried := insert (node_id n) (sw_queried w), sw_to_send := insort n (sw_to_send w)\<rparr>"
    using assms(2) by (simp add: queue_node_def btree_insert_def)
qed

lemma queue_node_ok:
  assumes ok: "queue_ok initial w"
  shows "queue_ok initial (queue_node n w)"
proof (cases "node_id n \<in> sw_queried w")
  case False
  let ?K = "set (sw_asked w) \<union> set (sw_to_send w)"
  from ok have parts: "distinct (sw_asked w @ sw_to_send w)" "sorted (sw_to_send w)"
      "set (sw_tasks w) \<subseteq> set (sw_asked w)" "sw_queried w = node_id ` ?K"
    and one: "\<forall>m\<in>?K. \<forall>n\<in>?K. node_id m = node_id n \<longrightarrow> m = n \<or> m \<in> initial \<and> n \<in> initial"
    unfolding queue_ok_def by blast+
  note new = queue_node_new [OF ok False]
  have other: "node_id m \<noteq> node_id n" "node_id n \<noteq> node_id m" if "m \<in> ?K" for m
    using False parts(4) that by (metis imageI)+
  have "\<forall>m\<in>insert n ?K. \<forall>l\<in>insert n ?K. node_id m = node_id l \<longrightarrow> m = l \<or> m \<in> initial \<and> l \<in> initial"
  proof (intro ballI impI)
    fix m l assume "m \<in> insert n ?K" "l \<in> insert n ?K" "node_id m = node_id l"
    with one other show "m = l \<or> m \<in> initial \<and> l \<in> initial" by (metis insertE)
  qed
  moreover have "set (insort n (sw_to_send w)) = insert n (set (sw_to_send w))" by (rule set_insort_key)
  ultimately show ?thesis using parts new(2)
    unfolding queue_ok_def new(1) by (simp add: sorted_insort distinct_insort Un_insert_right)
qed (use ok in \<open>simp add: queue_node_def\<close>)

lemma queue_node_other [simp]:
  "sw_tasks (queue_node n w) = sw_tasks w" "sw_pc (queue_node n w) = sw_pc w"
  "sw_backfill (queue_node n w) = sw_backfill w" "sw_asked (queue_node n w) = sw_asked w"
  "sw_late (queue_node n w) = sw_late w"
  by (simp_all add: queue_node_def)

lemma add_to_send_queue_Nil [simp]: "add_to_send_queue target [] w = w"
  by (simp add: add_to_send_queue_def)

lemma add_to_send_queue_Cons [simp]:
  "add_to_send_queue target (n # ns) w =
     add_to_send_queue target ns (if target < node_id n then queue_node n w else w)"
  by (simp add: add_to_send_queue_def)

lemma add_to_send_queue_other [simp]:
  "sw_tasks (add_to_send_queue target ns w) = sw_tasks w" "sw_pc (add_to_send_queue target ns w) = sw_pc w"
  "sw_backfill (add_to_send_queue target ns w) = sw_backfill w" "sw_asked (add_to_send_queue target ns w) = sw_asked w"
  "sw_late (add_to_send_queue target ns w) = sw_late w"
  by (induction ns arbitrary: w) simp_all

lemma add_to_send_queue_ok: "queue_ok initial w \<Longrightarrow> queue_ok initial (add_to_send_queue target ns w)"
  by (induction ns arbitrary: w) (simp_all add: queue_node_ok)

lemma query_next_ok: "queue_ok initial w \<Longrightarrow> queue_ok initial (query_next w)"
  by (cases "sw_to_send w") (auto simp: queue_ok_def query_next_def)

lemma query_next_other [simp]:
  "sw_pc (query_next w) = sw_pc w" "sw_backfill (query_next w) = sw_backfill w" "sw_late (query_next w) = sw_late w"
  "sw_queried (query_next w) = sw_queried w"
  by (simp_all add: query_next_def split: list.split)

lemma send_samples_other [simp]:
  "sw_to_send (send_samples xs k w) = sw_to_send w" "sw_queried (send_samples xs k w) = sw_queried w"
  "sw_tasks (send_samples xs k w) = sw_tasks w" "sw_pc (send_samples xs k w) = sw_pc w"
  "sw_backfill (send_samples xs k w) = sw_backfill w" "sw_asked (send_samples xs k w) = sw_asked w"
  "sw_late (send_samples xs k w) = sw_late w"
  by (simp_all add: send_samples_def)

lemma queue_ok_cong:
  "queue_ok initial (w\<lparr>sw_pc := pc\<rparr>) = queue_ok initial w"
  "queue_ok initial (w\<lparr>sw_backfill := bf\<rparr>) = queue_ok initial w"
  "queue_ok initial (w\<lparr>sw_backfill := bf, sw_pc := pc\<rparr>) = queue_ok initial w"
  "queue_ok initial (w\<lparr>sw_backfill := bf, sw_late := l\<rparr>) = queue_ok initial w"
  "queue_ok initial (send_samples xs k w) = queue_ok initial w"
  by (simp_all add: queue_ok_def)

lemma sweep_step_queue:
  assumes "sweep_step valid w w'" "queue_ok initial w"
  shows "queue_ok initial w'"
  using assms(1)
proof cases
  case (ss_result i n rest r1 r2 target ns samples w1 k)
  have "queue_ok initial (w\<lparr>sw_tasks := rest\<rparr>)"
    using assms(2) get_next_result_props(2) [OF ss_result(3)] by (auto simp: queue_ok_def)
  then have "queue_ok initial w1" by (simp add: ss_result(5) queue_ok_cong)
  then show ?thesis by (simp add: ss_result(1) queue_ok_cong add_to_send_queue_ok)
qed (use assms(2) in \<open>simp_all add: queue_ok_cong query_next_ok add_to_send_queue_ok\<close>)

lemma fold_btree_insert:
  assumes "sorted xs" "distinct xs"
  shows "sorted (fold (\<lambda>n xs. snd (btree_insert n xs)) ns xs)" "distinct (fold (\<lambda>n xs. snd (btree_insert n xs)) ns xs)"
    "set (fold (\<lambda>n xs. snd (btree_insert n xs)) ns xs) = set xs \<union> set ns"
    "length (fold (\<lambda>n xs. snd (btree_insert n xs)) ns xs) \<le> length xs + length ns"
proof -
  have "sorted (fold (\<lambda>n xs. snd (btree_insert n xs)) ns xs) \<and> distinct (fold (\<lambda>n xs. snd (btree_insert n xs)) ns xs) \<and>
    set (fold (\<lambda>n xs. snd (btree_insert n xs)) ns xs) = set xs \<union> set ns \<and>
    length (fold (\<lambda>n xs. snd (btree_insert n xs)) ns xs) \<le> length xs + length ns"
    using assms
  proof (induction ns arbitrary: xs)
    case (Cons n ns)
    note step = btree_insert_ok [OF Cons.prems, of n]
    from Cons.IH [OF step(1,2)] step(3) length_btree_insert [of n xs] show ?case by auto
  qed simp
  then show "sorted (fold (\<lambda>n xs. snd (btree_insert n xs)) ns xs)" "distinct (fold (\<lambda>n xs. snd (btree_insert n xs)) ns xs)"
    "set (fold (\<lambda>n xs. snd (btree_insert n xs)) ns xs) = set xs \<union> set ns"
    "length (fold (\<lambda>n xs. snd (btree_insert n xs)) ns xs) \<le> length xs + length ns" by simp_all
qed

lemma sweep_start_queue: "queue_ok (set (a @ b)) (sweep_start a b)"
  using fold_btree_insert [of "[]" "a @ b"] by (auto simp: queue_ok_def sweep_start_def)

lemma sweep_reachable_queue: "sweep_reachable valid a b j w \<Longrightarrow> queue_ok (set (a @ b)) w"
proof (induction rule: sweep_reachable.induct)
  case (sr_start nsa nsb)
  show ?case by (rule sweep_start_queue)
next
  case (sr_step j w w')
  then show ?case using sweep_step_queue by blast
qed

subsection \<open>Queries in flight\<close>

fun flight_ok :: "sweep_pc \<Rightarrow> nat \<Rightarrow> bool \<Rightarrow> bool" where
  "flight_ok (SwStart k) tasks clear \<longleftrightarrow> tasks + k \<le> 200 \<and> (tasks = 0 \<and> k < 200 \<longrightarrow> clear)"
| "flight_ok SwWait tasks clear \<longleftrightarrow> tasks \<le> 200 \<and> (tasks = 0 \<longrightarrow> clear)"
| "flight_ok (SwGap target gap) tasks clear \<longleftrightarrow> tasks < 200"
| "flight_ok SwNext tasks clear \<longleftrightarrow> tasks < 200"

definition sweep_inv :: "sweep \<Rightarrow> bool" where
  "sweep_inv w \<longleftrightarrow> flight_ok (sw_pc w) (length (sw_tasks w)) (set (sw_to_send w) \<subseteq> sw_late w) \<and>
     (\<forall>k. sw_pc w = SwStart k \<longrightarrow> sw_backfill w = BfIdle) \<and> (sw_pc w \<noteq> SwWait \<or> sw_tasks w \<noteq> [] \<longrightarrow> sw_late w = {})"

lemma sweep_step_inv:
  assumes "sweep_step valid w w'" "sweep_inv w"
  shows "sweep_inv w'"
  using assms(1)
proof cases
  case (ss_start k)
  with assms(2) show ?thesis
    by (cases "sw_to_send w") (auto simp: sweep_inv_def query_next_def)
next
  case ss_started
  with assms(2) show ?thesis by (auto simp: sweep_inv_def)
next
  case (ss_result i n rest r1 r2 target ns samples w1 k)
  have "sw_late w = {}" "length rest < 200"
    using assms(2) ss_result(2) get_next_result_props [OF ss_result(3)] by (auto simp: sweep_inv_def)
  with ss_result show ?thesis by (auto simp: sweep_inv_def)
next
  case (ss_gap target gap)
  with assms(2) show ?thesis by (auto simp: sweep_inv_def)
next
  case ss_next
  with assms(2) show ?thesis by (cases "sw_to_send w") (auto simp: sweep_inv_def query_next_def)
next
  case (ss_backfill_read target)
  with assms(2) show ?thesis by (auto simp: sweep_inv_def)
next
  case (ss_backfill_done target ns found w1)
  with assms(2) show ?thesis
    by (cases "sw_pc w") (auto simp: sweep_inv_def sweep_done_def)
qed

lemma sweep_reachable_inv: "sweep_reachable valid a b j w \<Longrightarrow> sweep_inv w"
proof (induction rule: sweep_reachable.induct)
  case (sr_start nsa nsb)
  show ?case by (simp add: sweep_inv_def sweep_start_def)
next
  case (sr_step j w w')
  then show ?case using sweep_step_inv by blast
qed

subsection \<open>Termination\<close>

fun pc_weight :: "sweep_pc \<Rightarrow> nat" where
  "pc_weight (SwStart k) = Suc k"
| "pc_weight SwWait = 0"
| "pc_weight (SwGap target gap) = 4"
| "pc_weight SwNext = 1"

fun backfill_weight :: "backfill \<Rightarrow> nat" where
  "backfill_weight BfIdle = 0"
| "backfill_weight (BfStarted target) = 2"
| "backfill_weight (BfWalking target ns) = 1"

text \<open>The identifiers that can still be queued, and the nodes that are.\<close>

definition reserve :: "sweep \<Rightarrow> nat" where
  "reserve w = id_count - card (sw_queried w) + length (sw_to_send w)"

definition sweep_potential :: "sweep \<Rightarrow> nat" where
  "sweep_potential w =
     5 * reserve w + 5 * length (sw_tasks w) + pc_weight (sw_pc w) + backfill_weight (sw_backfill w)"

lemma card_ids: "card (S :: u160 set) \<le> id_count"
proof (cases "finite S")
  case True
  then obtain xs where "set xs = S" "distinct xs" using finite_distinct_list by blast
  with distances_bound [of xs] show ?thesis by (simp add: distinct_card [symmetric])
qed simp

lemma queue_node_reserve:
  assumes "finite (sw_queried w)"
  shows "reserve (queue_node n w) \<le> reserve w" "finite (sw_queried (queue_node n w))"
proof -
  have "Suc (card (sw_queried w)) \<le> id_count" if "node_id n \<notin> sw_queried w"
    using card_ids [of "insert (node_id n) (sw_queried w)"] that assms by simp
  then show "reserve (queue_node n w) \<le> reserve w"
    using length_btree_insert [of n "sw_to_send w"] assms by (auto simp: reserve_def queue_node_def)
  show "finite (sw_queried (queue_node n w))" using assms by (simp add: queue_node_def)
qed

lemma add_to_send_queue_reserve:
  "finite (sw_queried w) \<Longrightarrow> reserve (add_to_send_queue target ns w) \<le> reserve w"
proof (induction ns arbitrary: w)
  case (Cons n ns)
  then show ?case using queue_node_reserve [OF Cons.prems, of n] by (auto intro: le_trans)
qed simp

lemma query_next_potential:
  "5 * reserve (query_next w) + 5 * length (sw_tasks (query_next w)) = 5 * reserve w + 5 * length (sw_tasks w)"
  by (simp add: query_next_def reserve_def split: list.split)

lemma reserve_cong [simp]:
  "reserve (w\<lparr>sw_pc := pc\<rparr>) = reserve w" "reserve (w\<lparr>sw_backfill := bf\<rparr>) = reserve w"
  "reserve (w\<lparr>sw_backfill := bf, sw_pc := pc\<rparr>) = reserve w" "reserve (w\<lparr>sw_backfill := bf, sw_late := l\<rparr>) = reserve w"
  "reserve (w\<lparr>sw_tasks := ts\<rparr>) = reserve w" "reserve (send_samples xs k w) = reserve w"
  by (simp_all add: reserve_def)

lemma sweep_step_potential:
  assumes "sweep_step valid w w'" "finite (sw_queried w)"
  shows "sweep_potential w' < sweep_potential w"
  using assms(1)
proof cases
  case (ss_start k)
  then show ?thesis using query_next_potential [of w] by (simp add: sweep_potential_def)
next
  case (ss_result i n rest r1 r2 target ns samples w1 k)
  have "reserve (add_to_send_queue target ns w1) \<le> reserve w1"
    by (rule add_to_send_queue_reserve) (simp add: ss_result(5) assms(2))
  with ss_result get_next_result_props(3) [OF ss_result(3)] show ?thesis by (simp add: sweep_potential_def)
next
  case ss_next
  then show ?thesis using query_next_potential [of w] by (simp add: sweep_potential_def)
next
  case (ss_backfill_done target ns found w1)
  then show ?thesis using add_to_send_queue_reserve [OF assms(2), of target found] by (simp add: sweep_potential_def)
qed (simp_all add: sweep_potential_def)

lemma walk_finds_length: "walk_finds valid target k ns found \<Longrightarrow> length found \<le> unat k"
  using walk_reachable_inv walk_result_nodes(1) by (fastforce simp: walk_finds_def)

lemma sweep_start_potential:
  assumes "length a \<le> 255" "length b \<le> 255"
  shows "sweep_potential (sweep_start a b) \<le> 5 * id_count + 2751"
proof -
  have "length (sw_to_send (sweep_start a b)) \<le> 510"
    using fold_btree_insert(4) [of "[]" "a @ b"] assms by (simp add: sweep_start_def)
  then show ?thesis by (simp add: sweep_potential_def reserve_def sweep_start_def)
qed

interpretation sweep: bounded_system "sweep_step valid" "queue_ok initial" sweep_potential
proof unfold_locales
  fix w w'
  assume w: "sweep_step valid w w'" "queue_ok initial w"
  show "queue_ok initial w'" by (rule sweep_step_queue [OF w])
  have "finite (sw_queried w)" using w(2) by (simp add: queue_ok_def)
  then show "sweep_potential w' < sweep_potential w" by (rule sweep_step_potential [OF w(1)])
qed

lemma sweep_reachable_start:
  "sweep_reachable valid a b j w \<Longrightarrow> (sweep_step valid ^^ j) (sweep_start a b) w \<and> length a \<le> 255 \<and> length b \<le> 255"
proof (induction rule: sweep_reachable.induct)
  case (sr_start nsa nsb)
  then show ?case using walk_finds_length by fastforce
qed auto

lemma sweep_reachable_potential: "sweep_reachable valid a b j w \<Longrightarrow> j + sweep_potential w \<le> 5 * id_count + 2751"
  using sweep.run_bound [OF _ sweep_start_queue, of j valid a b w] sweep_reachable_start [of valid a b j w]
    sweep_start_potential [of a b] by fastforce

lemma sweep_can_step:
  assumes "\<not> sweep_done w"
  shows "\<exists>w'. sweep_step valid w w'"
proof (cases "sw_pc w")
  case (SwStart k)
  then show ?thesis using ss_start ss_started by (cases k) blast+
next
  case SwWait
  with assms obtain n ts where t: "get_next_result 0 (sw_tasks w) = Some (n, ts)"
    by (cases "sw_tasks w") (auto simp: sweep_done_def)
  obtain target ns samples where "query_one n (Inl undefined) (Inl undefined) = (target, ns, samples)"
    using prod_cases3 by blast
  from ss_result [OF SwWait t this refl] show ?thesis by blast
next
  case (SwGap target gap)
  from ss_gap [OF this] show ?thesis by blast
next
  case SwNext
  from ss_next [OF this] show ?thesis by blast
qed

lemma sweep_done_asked:
  assumes "queue_ok initial w" "sweep_inv w" "sweep_done w" "i \<in> sw_queried w"
  shows "i \<in> node_id ` set (sw_asked w) \<or> i \<in> node_id ` sw_late w"
  using assms by (auto simp: queue_ok_def sweep_inv_def sweep_done_def)

lemma add_to_send_queue_spec:
  assumes "queue_ok initial w"
  shows "sw_queried (add_to_send_queue target ns w) = sw_queried w \<union> node_id ` {n \<in> set ns. target < node_id n} \<and>
    set (sw_to_send w) \<subseteq> set (sw_to_send (add_to_send_queue target ns w)) \<and>
    set (sw_to_send (add_to_send_queue target ns w)) \<subseteq>
      set (sw_to_send w) \<union> {n \<in> set ns. target < node_id n \<and> node_id n \<notin> sw_queried w}"
  using assms
proof (induction ns arbitrary: w)
  case (Cons n ns)
  show ?case
  proof (cases "target < node_id n")
    case True
    note ih = Cons.IH [OF queue_node_ok [OF Cons.prems, of n]]
    show ?thesis
    proof (cases "node_id n \<in> sw_queried w")
      case False
      with ih True show ?thesis
        unfolding add_to_send_queue_Cons queue_node_new(1) [OF Cons.prems False]
        by (auto simp: set_insort_key)
    next
      case known: True
      then have "queue_node n w = w" by (simp add: queue_node_def)
      with ih True known show ?thesis by auto
    qed
  next
    case False
    with Cons.IH [OF Cons.prems] show ?thesis by auto
  qed
qed simp

subsection \<open>An example run\<close>

text \<open>A sweep that starts with one node, which does not answer.\<close>

lemma walk_finds_nothing: "walk_finds valid target k [] []"
proof -
  let ?w = "walk_start r []"
  have "get_next_result 0 (wk_tasks ?w) = Some (StartTask [], [])" by (simp add: walk_start_def)
  from wr_step [OF wr_start ws_start [OF this]]
  have "walk_reachable valid False target r [] 1 (?w\<lparr>wk_tasks := []\<rparr>)" by (simp add: work_in_def)
  moreover have "walk_result k (?w\<lparr>wk_tasks := []\<rparr>) = Some (KClosest [])"
    by (simp add: walk_result_def walk_start_def)
  ultimately show ?thesis unfolding walk_finds_def by blast
qed

lemma walk_finds_one: "walk_finds (\<lambda>_. False) (u160_not u160_min) 255 [ex_walk_node] [ex_walk_node]"
proof -
  have "u160_not u160_min = u160_max" by (simp add: u160_not_def u160_min_def u160_max_def u160_new_def)
  moreover have "walk_result 255 (ex_walked False) = Some (KClosest [ex_walk_node])"
    by (simp add: walk_result_def ex_walked_def)
  ultimately show ?thesis using ex_walked_reachable [of False] unfolding walk_finds_def by auto
qed

definition ex_sweep :: "sweep_pc \<Rightarrow> node_info list \<Rightarrow> sweep" where
  "ex_sweep pc ts =
     \<lparr>sw_to_send = [], sw_queried = {u160_min}, sw_tasks = ts, sw_pc = pc, sw_backfill = BfIdle, sw_rx_open = True,
      sw_sent = [], sw_asked = [ex_walk_node], sw_late = {}\<rparr>"

lemma ex_sweep_asked: "sweep_reachable (\<lambda>_. False) [] [ex_walk_node] 1 (ex_sweep (SwStart 199) [ex_walk_node])"
proof -
  let ?w = "sweep_start [] [ex_walk_node]"
  have w: "(query_next ?w)\<lparr>sw_pc := SwStart 199\<rparr> = ex_sweep (SwStart 199) [ex_walk_node]"
    by (simp add: sweep_start_def query_next_def ex_sweep_def btree_insert_def ex_walk_node_def)
  have "sw_pc ?w = SwStart (Suc 199)" by (simp add: sweep_start_def)
  from sr_step [OF sr_start [OF walk_finds_nothing walk_finds_one] ss_start [OF this]] w show ?thesis by simp
qed

lemma ex_sweep_waiting:
  assumes "sweep_reachable (\<lambda>_. False) [] [ex_walk_node] j (ex_sweep (SwStart k) ts)"
  shows "sweep_reachable (\<lambda>_. False) [] [ex_walk_node] (j + k + 1) (ex_sweep SwWait ts)"
  using assms
proof (induction k arbitrary: j)
  case 0
  have "sw_pc (ex_sweep (SwStart 0) ts) = SwStart 0" by (simp add: ex_sweep_def)
  from sr_step [OF 0 ss_started [OF this]] show ?case by (simp add: ex_sweep_def)
next
  case (Suc k)
  have "sw_pc (ex_sweep (SwStart (Suc k)) ts) = SwStart (Suc k)" by (simp add: ex_sweep_def)
  from sr_step [OF Suc.prems ss_start [OF this]]
  have "sweep_reachable (\<lambda>_. False) [] [ex_walk_node] (Suc j) (ex_sweep (SwStart k) ts)"
    by (simp add: ex_sweep_def query_next_def)
  from Suc.IH [OF this] show ?case by simp
qed

lemma ex_sweep_finished: "sweep_reachable (\<lambda>_. False) [] [ex_walk_node] 204 (ex_sweep SwWait [])"
proof -
  have wait: "sweep_reachable (\<lambda>_. False) [] [ex_walk_node] 201 (ex_sweep SwWait [ex_walk_node])"
    using ex_sweep_waiting [OF ex_sweep_asked] by simp
  have q: "query_one ex_walk_node (Inl e) (Inl e) = (u160_min, [], None)" for e
    by (simp add: query_one_def ex_walk_node_def)
  have "sw_pc (ex_sweep SwWait [ex_walk_node]) = SwWait" "get_next_result 0 (sw_tasks (ex_sweep SwWait [ex_walk_node])) = Some (ex_walk_node, [])"
    by (simp_all add: ex_sweep_def)
  from sr_step [OF wait ss_result [OF this q refl, where k = 0]]
  have gap: "sweep_reachable (\<lambda>_. False) [] [ex_walk_node] 202 (ex_sweep (SwGap u160_min False) [])"
    by (simp add: ex_sweep_def send_samples_def large_gap_def)
  have "sw_pc (ex_sweep (SwGap u160_min False) []) = SwGap u160_min False" by (simp add: ex_sweep_def)
  from sr_step [OF gap ss_gap [OF this]]
  have nxt: "sweep_reachable (\<lambda>_. False) [] [ex_walk_node] 203 (ex_sweep SwNext [])" by (simp add: ex_sweep_def)
  have "sw_pc (ex_sweep SwNext []) = SwNext" by (simp add: ex_sweep_def)
  from sr_step [OF nxt ss_next [OF this]] show ?thesis by (simp add: ex_sweep_def query_next_def)
qed

subsection \<open>Properties\<close>



text \<open>C26: A sweep starts at most one task for a node, at most 200 are under way at any time, and no
  identifier is asked twice unless the two searches that the sweep begins with found it under two
  addresses.\<close>

theorem sweep_asks_once:
  assumes "sweep_reachable valid a b j w"
  shows "distinct (sw_asked w) \<and> set (sw_tasks w) \<subseteq> set (sw_asked w) \<and> length (sw_tasks w) \<le> 200 \<and>
    (\<forall>m\<in>set (sw_asked w). \<forall>n\<in>set (sw_asked w). node_id m = node_id n \<longrightarrow>
       m = n \<or> {m, n} \<subseteq> set a \<union> set b)"
proof -
  have "length (sw_tasks w) \<le> 200"
    using sweep_reachable_inv [OF assms] by (cases "sw_pc w") (simp_all add: sweep_inv_def)
  with sweep_reachable_queue [OF assms] show ?thesis by (simp add: queue_ok_def)
qed

theorem sweep_asks_once_witness:
  "distinct (sw_asked (ex_sweep SwWait [])) \<and> sw_asked (ex_sweep SwWait []) = [ex_walk_node]"
  using sweep_asks_once [OF ex_sweep_finished] by (simp add: ex_sweep_def)

text \<open>C11: When its loop has ended, a sweep has asked every identifier that was ever queued, except those
  that a backfill queued after the end: these stay in the queue and nobody asks them.\<close>

theorem sweep_complete:
  assumes "sweep_reachable valid a b j w" "sweep_done w"
  shows "(\<forall>i\<in>sw_queried w. i \<in> node_id ` set (sw_asked w) \<or> i \<in> node_id ` sw_late w) \<and>
    set (sw_to_send w) \<subseteq> sw_late w \<and> node_id ` (set a \<union> set b) \<subseteq> sw_queried w"
proof -
  have "node_id ` (set a \<union> set b) \<subseteq> sw_queried w"
    using assms(1)
  proof (induction rule: sweep_reachable.induct)
    case (sr_step j w w')
    have ok: "queue_ok (set (a @ b)) (x :: sweep) \<Longrightarrow> sw_queried x \<subseteq> sw_queried (add_to_send_queue t ns x)" for x t ns
      using add_to_send_queue_spec [of "set (a @ b)" x t ns] by blast
    have w: "queue_ok (set (a @ b)) w" by (rule sweep_reachable_queue [OF sr_step(1)])
    from sr_step(2) have "sw_queried w \<subseteq> sw_queried w'"
    proof cases
      case (ss_result i n rest r1 r2 target ns samples w1 k)
      have "queue_ok (set (a @ b)) w1" using w get_next_result_props(2) [OF ss_result(3)] ss_result(5) by (auto simp: queue_ok_def)
      from ok [OF this, of target ns] ss_result(1,5) show ?thesis by auto
    qed (use ok [OF w] in auto)
    with sr_step(3) show ?case by blast
  qed (simp add: sweep_start_def)
  with sweep_done_asked [OF sweep_reachable_queue [OF assms(1)] sweep_reachable_inv [OF assms(1)] assms(2)]
    sweep_reachable_inv [OF assms(1)] assms(2)
  show ?thesis by (auto simp: sweep_inv_def sweep_done_def)
qed

theorem sweep_complete_witness:
  "node_id ` {ex_walk_node} \<subseteq> sw_queried (ex_sweep SwWait []) \<and> sw_to_send (ex_sweep SwWait []) = []"
  using sweep_complete [OF ex_sweep_finished] by (simp add: sweep_done_def ex_sweep_def)

text \<open>A reply moves the sweep upwards only: of the nodes it names those above the node asked that are
  not known yet are queued, one for each new identifier, and nothing else changes in the queue.\<close>

theorem sweep_moves_up:
  assumes "sweep_reachable valid a b j w"
  shows "sw_queried (add_to_send_queue target ns w) = sw_queried w \<union> node_id ` {n \<in> set ns. target < node_id n} \<and>
    set (sw_to_send w) \<subseteq> set (sw_to_send (add_to_send_queue target ns w)) \<and>
    set (sw_to_send (add_to_send_queue target ns w)) \<subseteq>
      set (sw_to_send w) \<union> {n \<in> set ns. target < node_id n \<and> node_id n \<notin> sw_queried w} \<and>
    sorted (sw_to_send (add_to_send_queue target ns w)) \<and> distinct (sw_to_send (add_to_send_queue target ns w))"
proof -
  have ok: "queue_ok (set (a @ b)) w" by (rule sweep_reachable_queue [OF assms])
  have "sorted (sw_to_send (add_to_send_queue target ns w))" "distinct (sw_to_send (add_to_send_queue target ns w))"
    using add_to_send_queue_ok [OF ok, of target ns] by (simp_all add: queue_ok_def)
  with add_to_send_queue_spec [OF ok, of target ns] show ?thesis by blast
qed

theorem sweep_moves_up_witness:
  "sw_to_send (add_to_send_queue u160_min [ex_walk_node] (ex_sweep SwWait [])) = []"
  using sweep_moves_up [OF ex_sweep_finished, of u160_min "[ex_walk_node]"] by (simp add: ex_sweep_def ex_walk_node_def)

end
