(* ===== verification/Exchange.thy ===== *)
theory Exchange
  imports Server Bencode
begin

text \<open>
  The client and the server half put together, over the bytes of datagrams: what a node that
  receives any sequence of datagrams goes through, and the way of a query from its caller through
  \<open>messenger/service.rs\<close> to the handler of \<open>node.rs\<close> and back.  Delivery of a datagram (from the
  address of its sender, unchanged) is the only thing assumed of the network.
\<close>

subsection \<open>Laws of the format\<close>

text \<open>What \<open>bt_bencode\<close> promises of the trees this program writes.\<close>

definition format_laws :: "(bval \<Rightarrow> 'e + bytes) \<Rightarrow> (bytes \<Rightarrow> bval option) \<Rightarrow> bool" where
  "format_laws enc dec \<longleftrightarrow> (\<forall>m t. kmessage_serialize (to_kmsg m) = Inr t \<longrightarrow>
     (\<exists>bs. enc t = Inr bs \<and> dec bs = Some (canon t)))"

lemma format_laws_bencode: "format_laws benc bdec"
  by (simp add: format_laws_def benc_def bdec_emit)

lemma send_message_delivers:
  assumes laws: "format_laws enc dec" and valid: "message_valid m"
    and to: "read_only (message_base_of m) \<or> has_handler s" "receiver_addr (destination (message_base_of m)) = Some a"
    and net: "\<And>bs. send_to bs a"
  shows "\<exists>bs. send_message enc send_to s m = Inr (s\<lparr>packet_num := packet_num s + 1, sent := sent s @ [(bs, a)]\<rparr>, Inr ()) \<and>
    (\<forall>from. receive dec bs from = Inr (received from m))"
proof -
  obtain t where t: "kmessage_serialize (to_kmsg m) = Inr t" "kmessage_deserialize (canon t) = Some (to_kmsg m)"
    using kmessage_roundtrip [OF to_kmsg_valid [OF valid]] by blast
  with laws obtain bs where bs: "enc t = Inr bs" "dec bs = Some (canon t)" unfolding format_laws_def by blast
  have "receive dec bs from = Inr (received from m)" for "from"
    using bs(2) t(2) by (simp add: receive_def from_to_kmsg)
  moreover have "send_message enc send_to s m =
      Inr (s\<lparr>packet_num := packet_num s + 1, sent := sent s @ [(bs, a)]\<rparr>, Inr ())"
    using to net t(1) bs(1) by (cases "destination (message_base_of m)") (auto simp: send_message_def to_bytes_def Let_def)
  ultimately show ?thesis by blast
qed

subsection \<open>Tables of IPv4 nodes\<close>

definition ip4_table :: "router \<Rightarrow> bool" where
  "ip4_table r \<longleftrightarrow> (\<forall>n\<in>set (all_nodes (buckets r)). is_ip4 n)"

lemma router_add_ip4:
  assumes "router_ok r" "ip4_table r" "router_add r n = Inr r'" "is_ip4 n"
  shows "ip4_table r'"
proof (cases "node_id n \<in> set (banned_ids r)")
  case False
  obtain b where "add (buckets r) n = Inr b" "added (buckets r) n b"
    using add_added [of "buckets r" n] assms(1) by (auto simp: router_ok_def)
  with False assms show ?thesis by (auto simp: router_add_def ip4_table_def added_def split: if_split_asm)
qed (use assms in \<open>simp add: router_add_def\<close>)

lemma router_lookup_ip4:
  assumes "router_ok r" "ip4_table r" "router_lookup r i = Inr ns" "n \<in> set ns"
  shows "is_ip4 n"
proof -
  have "bucket_ok (buckets r)" using assms(1) by (simp add: router_ok_def table_ok_def)
  from lookup_visit [OF this, of i] assms(3) have "ns = take (unat (k_size (buckets r))) (visit_order i (buckets r))"
    by (simp add: router_lookup_def)
  with assms(4) have "n \<in> set (all_nodes (buckets r))"
    using set_visit_order [of i "buckets r"] by (auto dest: in_set_takeD)
  with assms(2) show ?thesis by (simp add: ip4_table_def)
qed

subsection \<open>What the server writes can be written\<close>

text \<open>The messages that serialize: all but responses that list a node without an IPv4 address.\<close>

definition writable :: "message \<Rightarrow> bool" where
  "writable m \<longleftrightarrow> \<not> isl (kmessage_serialize (to_kmsg m))"

lemma valid_writable: "message_valid m \<Longrightarrow> writable m"
  using kmessage_roundtrip [OF to_kmsg_valid] by (fastforce simp: writable_def)

lemma writable_error: "writable (Error e)"
  by (simp add: writable_def kmessage_panics to_kmsg_def Let_def kmessage_builder_def)

lemma description_utf8: "is_utf8 (description e)"
  by (cases e; simp; code_simp)

lemma into_error_utf8 [simp]: "is_utf8 (err_desc (error_err (into_error base e)))"
  by (simp add: into_error_def description_utf8)

lemma send_message_total:
  assumes "writable m"
  shows "\<exists>s' r. send_message enc send_to s m = Inr (s', r)"
proof -
  obtain x where "to_bytes enc m = Inr x"
    using assms by (cases "kmessage_serialize (to_kmsg m)") (auto simp: writable_def to_bytes_def)
  then show ?thesis
    by (cases x; cases "destination (message_base_of m)") (auto simp: send_message_def Let_def)
qed

lemma unwrap_peers_valid:
  assumes "tree_laws E contents" "stored E contents d h ps" "handle_get_peers E s d base n h = Inr (Inr resp)"
    "router_ok (srv_router s)" "ip4_table (srv_router s)" "pred_option plain_addr (requestor_addr base)"
  shows "message_valid (Response resp)"
proof -
  have "plain_addr p" if "p \<in> set ps" for p using assms(2) that by (simp add: stored_def)
  moreover have "resp_base resp = base" using handle_get_peers_base [OF assms(3)] by simp
  ultimately show ?thesis
    using handle_get_peers_stored [OF assms(1-3)] router_lookup_ip4 [OF assms(4,5)] assms(6) by auto
qed

lemma serve_valid:
  assumes "tree_laws E contents" "db_ok E contents d" "serve E s d base q = Inr ((s', d'), r)"
    "router_ok (srv_router s)" "ip4_table (srv_router s)" "pred_option plain_addr (requestor_addr base)"
  shows "message_valid (result_message r)"
proof (cases r)
  case (Inl e)
  then have "is_utf8 (err_desc (error_err e))"
    using assms(3) by (cases "query_meth q")
      (auto simp: serve_def handle_announce_def handle_get_peers_def handle_sample_def Let_def into_response_def
        split: if_split_asm sum.split_asm option.split_asm)
  with Inl show ?thesis by simp
next
  case (Inr resp)
  note lookup = router_lookup_ip4 [OF assms(4,5)]
  show ?thesis
  proof (cases "query_meth q")
    case (GetPeers h)
    obtain ps where "stored E contents d h ps" using assms(2) by (auto simp: db_ok_def)
    from unwrap_peers_valid [OF assms(1) this _ assms(4-6)] GetPeers Inr assms(3) show ?thesis
      by (auto simp: serve_def)
  next
    case (AnnouncePeer h port token)
    with Inr assms(3,6) show ?thesis
      by (auto simp: serve_def into_response_def dest!: handle_announce_success)
  next
    case (SampleInfohashes t)
    with Inr assms(3,6) lookup show ?thesis
      by (auto simp: serve_def handle_sample_def Let_def into_response_def split: sum.split_asm)
  qed (use Inr assms(3,6) lookup in \<open>auto simp: serve_def into_response_def\<close>)
qed

lemma handle_query_ip4:
  assumes "tree_laws E contents" "db_ok E contents d" "handle_query E (s, d) q = Inr ((s', d'), r)"
    "router_ok (srv_router s)" "ip4_table (srv_router s)" "sender_addr (origin (query_base q)) = SockV4 ip port"
  shows "message_valid (result_message r) \<and> ip4_table (srv_router s')"
proof (cases "sender_id (origin (query_base q)) = node_id (srv_me s)")
  case True
  have "is_utf8 ''Echo!''" by code_simp
  with True assms show ?thesis by (auto simp: handle_query_split into_error_generic_def split: if_split_asm)
next
  case False
  with assms(3) obtain rt where rt: "served_router s q = Inr rt"
    and sv: "serve E (s\<lparr>srv_router := rt\<rparr>) d (query_reply_base s q) q = Inr ((s', d'), r)"
    by (auto simp: handle_query_split split: if_split_asm)
  have "is_ip4 (sender_node (origin (query_base q)))"
    using assms(6) by (cases "origin (query_base q)") (simp_all add: is_ip4_def)
  then have ok: "router_ok rt" "ip4_table rt"
    using rt assms(4,5) router_add_ok router_add_ip4 by (auto simp: served_router_def split: if_split_asm)
  have "pred_option plain_addr (requestor_addr (query_reply_base s q))"
    using assms(6) by (simp add: query_reply_base_def response_base_def)
  with serve_valid [OF assms(1,2) sv] serve_base(1) [OF sv] ok show ?thesis by simp
qed

subsection \<open>A server under any traffic\<close>

definition world_ok :: "('d, 'e) env \<Rightarrow> ('d \<Rightarrow> bytes \<Rightarrow> bytes option) \<Rightarrow> bool" where
  "world_ok E contents \<longleftrightarrow> tree_laws E contents \<and> codec_laws E \<and>
     (\<exists>now. clock E = Some now \<and> unat now + 120 < 2 ^ 64)"

definition server_ok :: "('d, 'e) env \<Rightarrow> ('d \<Rightarrow> bytes \<Rightarrow> bytes option) \<Rightarrow> server \<times> 'd \<Rightarrow> bool" where
  "server_ok E contents h \<longleftrightarrow> router_ok (srv_router (fst h)) \<and> ip4_table (srv_router (fst h)) \<and>
     \<not> srv_read_only (fst h) \<and> db_ok E contents (snd h)"

lemma db_ok_cong: "bdecode E = bdecode E' \<Longrightarrow> db_ok E contents d = db_ok E' contents d"
  by (simp add: db_ok_def stored_def cong: option.case_cong)

lemma handle_query_db_ok:
  assumes "tree_laws E contents" "codec_laws E" "db_ok E contents d" "handle_query E (s, d) q = Inr ((s', d'), r)"
  shows "db_ok E contents d'"
proof (cases "d' = d")
  case False
  from only_announce_writes [OF assms(4) False] obtain h port token where q: "query_meth q = AnnouncePeer h port token"
    by blast
  from served_announce [OF assms(4) q] False obtain p where
    p: "tree_update E d (u160_to_be_bytes h) (announce_update E \<lparr>socket_addr = Some p\<rparr>) = Inr (Inr d')" "plain_addr p"
    by auto
  obtain ps where ps: "stored E contents d h ps" using assms(3) by (auto simp: db_ok_def)
  note new = announce_contents [OF assms(1,2) ps p]
  have "\<exists>ps. stored E contents d' h' ps" for h'
  proof (cases "h' = h")
    case True
    with new(1) show ?thesis by blast
  next
    case False
    with new(2) assms(3) show ?thesis by (simp add: db_ok_def stored_def)
  qed
  then show ?thesis by (simp add: db_ok_def)
qed (use assms(3) in simp)

lemma handle_query_server_ok:
  assumes "world_ok E contents" "server_ok E contents h" "sender_addr (origin (query_base q)) = SockV4 ip port"
  shows "\<exists>h' r. handle_query E h q = Inr (h', r) \<and> message_valid (result_message r) \<and> server_ok E contents h'"
proof -
  obtain s d where h: "h = (s, d)" by fastforce
  from assms(1) obtain now where w: "tree_laws E contents" "codec_laws E" "clock E = Some now" "unat now + 120 < 2 ^ 64"
    by (auto simp: world_ok_def)
  from assms(2) h have s: "router_ok (srv_router s)" "ip4_table (srv_router s)" "\<not> srv_read_only s" "db_ok E contents d"
    by (simp_all add: server_ok_def)
  obtain s' d' r where hq: "handle_query E (s, d) q = Inr ((s', d'), r)"
    using handle_query_total [OF w(1,2) s(4) w(3,4) s(1,3), of q] by auto
  have "router_ok (srv_router s')" "s' = s\<lparr>srv_router := srv_router s'\<rparr>"
    using handle_query_router [OF hq s(1)] by simp_all
  moreover from arg_cong [OF this(2), of srv_read_only] have "\<not> srv_read_only s'" using s(3) by simp
  ultimately have "server_ok E contents (s', d')"
    using handle_query_ip4 [OF w(1) s(4) hq s(1,2) assms(3)] handle_query_db_ok [OF w(1,2) s(4) hq]
    by (simp add: server_ok_def)
  with hq h handle_query_ip4 [OF w(1) s(4) hq s(1,2) assms(3)] show ?thesis by blast
qed

lemma received_sender: "receive dec packet a = Inr m \<Longrightarrow> sender_addr (origin (message_base_of m)) = a"
  using from_kmsg_base by (fastforce simp: receive_def received_base_def split: option.split_asm sum.split_asm)

lemma recv_packet_server_ok:
  assumes "world_ok E contents" "server_ok E contents h"
  shows "\<exists>h' v' x. recv_packet enc dec send_to (handle_query E) handle_error h v packet (SockV4 ip port) = Inr (h', v', x) \<and>
    server_ok E contents h'"
proof (cases "receive dec packet (SockV4 ip port)")
  case (Inl p)
  obtain k e where p: "p = (k, e)" by fastforce
  note total = send_message_total [OF writable_error]
  show ?thesis
  proof (cases k)
    case (Some raw)
    obtain v' x where "send_message enc send_to (v\<lparr>packet_num := packet_num v + 1\<rparr>)
        (Error (handle_error h (k_transaction_id raw) (SockV4 ip port) e)) = Inr (v', x)"
      using total by blast
    with Inl p Some assms(2) show ?thesis by (simp add: recv_packet_def Let_def del: split_paired_Ex)
  qed (use Inl p assms(2) in \<open>simp add: recv_packet_def Let_def\<close>)
next
  case (Inr m)
  show ?thesis
  proof (cases m)
    case (Query q)
    with received_sender [OF Inr] have a: "sender_addr (origin (query_base q)) = SockV4 ip port" by simp
    from handle_query_server_ok [OF assms this] obtain h' r where
      r: "handle_query E h q = Inr (h', r)" "message_valid (result_message r)" "server_ok E contents h'" by blast
    obtain v' x where "send_message enc send_to (v\<lparr>packet_num := packet_num v + 1\<rparr>) (result_message r) = Inr (v', x)"
      using send_message_total [OF valid_writable [OF r(2)]] by blast
    with Inr Query r assms(2) show ?thesis by (simp add: recv_packet_def handle_received_query_def Let_def del: split_paired_Ex)
  qed (use Inr assms(2) in \<open>simp_all add: recv_packet_def Let_def split: prod.split\<close>)
qed

text \<open>The loop of \<open>recv\<close> over what the socket gives; each turn meets the environment of its moment (clock,
  random draws, state of the disk).\<close>

fun serve_packets ::
  "(bytes \<Rightarrow> socket_addr \<Rightarrow> bool) \<Rightarrow> (('d, 'e) env \<times> socket_read) list \<Rightarrow> server \<times> 'd \<Rightarrow> service \<Rightarrow>
     ((server \<times> 'd) \<times> service) res" where
  "serve_packets send_to [] h v = Inr (h, v)"
| "serve_packets send_to ((E, rd) # rds) h v =
     rbind (recv_turn (bencode E) (bdecode E) send_to (handle_query E) handle_error h v rd) (\<lambda>(h', v', _).
       serve_packets send_to rds h' v')"

fun from_ip4 :: "socket_read \<Rightarrow> bool" where
  "from_ip4 (Datagram packet (SockV6 ip port flow scope)) = False"
| "from_ip4 rd = True"

lemma server_ok_cong: "bdecode E = bdecode E' \<Longrightarrow> server_ok E contents h = server_ok E' contents h"
  using db_ok_cong [of E E'] by (simp add: server_ok_def)

lemma recv_turn_ok:
  assumes "world_ok E contents" "server_ok E contents h" "from_ip4 rd"
  shows "\<exists>h' v' x. recv_turn (bencode E) (bdecode E) send_to (handle_query E) handle_error h v rd = Inr (h', v', x) \<and>
    server_ok E contents h'"
proof (cases rd)
  case (Datagram packet a)
  with assms(3) obtain ip port where "a = SockV4 ip port" by (cases a) auto
  with recv_packet_server_ok [OF assms(1,2)] Datagram show ?thesis by (simp add: recv_turn_def) blast
qed (use assms(2) in \<open>simp_all add: recv_turn_def\<close>)

lemma serve_packets_ok:
  assumes "\<And>E rd. (E, rd) \<in> set rds \<Longrightarrow> world_ok E contents \<and> bdecode E = bdecode E0 \<and> from_ip4 rd"
    and "server_ok E0 contents h"
  shows "\<exists>h' v'. serve_packets send_to rds h v = Inr (h', v') \<and> server_ok E0 contents h'"
  using assms
proof (induction rds arbitrary: h v)
  case (Cons p rds)
  obtain E rd where p: "p = (E, rd)" by (cases p)
  with Cons.prems(1) [of E rd] have E: "world_ok E contents" "bdecode E = bdecode E0" "from_ip4 rd" by simp_all
  from Cons.prems(2) have "server_ok E contents h" by (simp add: server_ok_cong [OF E(2)])
  from recv_turn_ok [OF E(1) this E(3)] obtain h' v' x where
    r: "recv_turn (bencode E) (bdecode E) send_to (handle_query E) handle_error h v rd = Inr (h', v', x)"
      "server_ok E contents h'" by blast
  then have "server_ok E0 contents h'" by (simp add: server_ok_cong [OF E(2)])
  moreover have "world_ok E' contents \<and> bdecode E' = bdecode E0 \<and> from_ip4 rd'" if "(E', rd') \<in> set rds" for E' rd'
    using Cons.prems(1) [of E' rd'] that by simp
  ultimately have "\<exists>h'' v''. serve_packets send_to rds h' v' = Inr (h'', v'') \<and> server_ok E0 contents h''"
    by (rule Cons.IH [rotated]) auto
  with r(1) p show ?case by simp
qed simp

subsection \<open>A query and its answer\<close>

definition received_query :: "socket_addr \<Rightarrow> query \<Rightarrow> query" where
  "received_query a q = \<lparr>query_meth = query_meth q, query_base =
     received_at a (Some (sender_addr (origin (query_base q)))) (sender_id (origin (query_base q))) (query_base q)\<rparr>"

definition received_result :: "socket_addr \<Rightarrow> query_result \<Rightarrow> query_result" where
  "received_result a r = (case r of
     Inr x \<Rightarrow> Inr \<lparr>resp_kind = received_kind (resp_kind x), resp_base =
        received_at a (requestor_addr (resp_base x)) (sender_id (origin (resp_base x))) (resp_base x)\<rparr>
   | Inl e \<Rightarrow> Inl \<lparr>error_err = error_err e, error_base = received_at a None u160_min (error_base e)\<rparr>)"

lemma received_query_eq: "received a (Query q) = Query (received_query a q)"
  by (simp add: received_query_def)

lemma received_result_eq: "received a (result_message r) = result_message (received_result a r)"
  by (cases r) (simp_all add: received_result_def)

lemma received_query_base [simp]:
  "transaction_id (query_base (received_query a q)) = transaction_id (query_base q)"
  "sender_addr (origin (query_base (received_query a q))) = a"
  by (simp_all add: received_query_def received_at_def)

lemma received_result_tid [simp]: "transaction_id (result_base (received_result a r)) = transaction_id (result_base r)"
  by (cases r) (simp_all add: received_result_def received_at_def)

lemma query_start_delivers:
  assumes "format_laws enc dec" "message_valid (Query q)" "read_only (query_base q) \<or> has_handler c"
    "receiver_addr (destination (query_base q)) = Some a" "\<And>bs. send_to bs a"
  shows "\<exists>c1 bs. query_start enc send_to wrapped chan now c q = Inr (c1, None) \<and>
    sent c1 = sent c @ [(bs, a)] \<and> (\<forall>from. receive dec bs from = Inr (Query (received_query from q))) \<and>
    queries_outbound c1 = queries_outbound c @
      [\<lparr>oq_transaction_id = transaction_id (query_base q), oq_destination_addr = sender_addr (origin (query_base q)),
        oq_return_value = chan, oq_timestamp_millis = now\<rparr>]"
proof -
  from send_message_delivers [OF assms(1,2), of "query_push chan now c q" a send_to] assms(3-5) obtain bs where
    "send_message enc send_to (query_push chan now c q) (Query q) =
       Inr ((query_push chan now c q)\<lparr>packet_num := packet_num (query_push chan now c q) + 1,
         sent := sent (query_push chan now c q) @ [(bs, a)]\<rparr>, Inr ())"
    "\<forall>from. receive dec bs from = Inr (Query (received_query from q))"
    by (auto simp: query_push_def received_query_def)
  then show ?thesis by (simp add: query_start_def query_send_def query_push_def)
qed

lemma recv_packet_answers:
  assumes laws: "format_laws (bencode E) (bdecode E)" and ok: "world_ok E contents" "server_ok E contents h"
    and v: "has_handler v" "\<forall>bs a. send_to bs a"
    and arrives: "receive (bdecode E) bs (SockV4 ip port) = Inr (Query q)"
  shows "\<exists>h' v' bs' r. recv_packet (bencode E) (bdecode E) send_to (handle_query E) handle_error h v bs (SockV4 ip port) =
      Inr (h', v', None) \<and> sent v' = sent v @ [(bs', SockV4 ip port)] \<and> handle_query E h q = Inr (h', r) \<and>
    server_ok E contents h' \<and> transaction_id (result_base r) = transaction_id (query_base q) \<and>
    (\<forall>from. receive (bdecode E) bs' from = Inr (result_message (received_result from r)))"
proof -
  have a: "sender_addr (origin (query_base q)) = SockV4 ip port" using received_sender [OF arrives] by simp
  from handle_query_server_ok [OF ok a] obtain h' r where
    r: "handle_query E h q = Inr (h', r)" "message_valid (result_message r)" "server_ok E contents h'" by blast
  have "answers (transaction_id (query_base q)) (SockV4 ip port) (result_base r)"
    using server.query_answers [OF r(1)] a by simp
  then have base: "transaction_id (result_base r) = transaction_id (query_base q)"
    "receiver_addr (destination (message_base_of (result_message r))) = Some (SockV4 ip port)"
    by (simp_all add: answers_def server.result_message_base)
  let ?v = "v\<lparr>packet_num := packet_num v + 1\<rparr>"
  from send_message_delivers [OF laws r(2) _ base(2), of ?v send_to] v obtain bs' where
    "send_message (bencode E) send_to ?v (result_message r) =
       Inr (?v\<lparr>packet_num := packet_num ?v + 1, sent := sent ?v @ [(bs', SockV4 ip port)]\<rparr>, Inr ())"
    "\<forall>from. receive (bdecode E) bs' from = Inr (result_message (received_result from r))"
    by (auto simp: received_result_eq)
  with arrives r base(1) v(1) show ?thesis
    by (simp add: recv_packet_def handle_received_query_def Let_def del: split_paired_Ex)
qed

lemma recv_packet_returns:
  assumes "receive dec bs a = Inr (result_message r)"
    and "queries_outbound c = es @ [e]" "oq_transaction_id e = transaction_id (result_base r)"
    and "\<forall>x\<in>set es. oq_transaction_id x \<noteq> transaction_id (result_base r)"
  shows "\<exists>c'. recv_packet enc dec send_to hq he hc c bs a = Inr (hc, c', Some (oq_return_value e, r)) \<and>
    queries_outbound c' = es"
proof -
  have "position (\<lambda>q. oq_transaction_id q = transaction_id (result_base r)) (es @ [e]) = Some (length es)"
    using assms(3,4) by (induction es) simp_all
  with assms(2) show ?thesis using assms(1)
    by (cases r) (simp_all add: recv_packet_def return_result_def remove_from_queue_def vec_remove_def Let_def)
qed

subsection \<open>Properties\<close>

text \<open>C4: A server whose table holds IPv4 nodes and whose stored peer lists can be read goes through whatever
  its socket gives, errors or any bytes from IPv4 addresses, handled one after the other, without a panic:
  neither a handler nor the serialization of an answer panics, and the server is as well-formed after it.\<close>

theorem server_survives_traffic:
  assumes "\<forall>(E, rd)\<in>set rds. world_ok E contents \<and> bdecode E = bdecode E0 \<and> from_ip4 rd"
    and "server_ok E0 contents h"
  shows "\<exists>h' v'. serve_packets send_to rds h v = Inr (h', v') \<and> server_ok E0 contents h'"
  using serve_packets_ok [OF _ assms(2)] assms(1) by fast

lemma ex_world_ok: "world_ok ex_env (\<lambda>d. d)"
  using ex_tree_laws ex_codec_laws by (simp add: world_ok_def ex_env_def)

lemma ex_server_ok: "server_ok ex_env (\<lambda>d. d) (ex_server, \<lambda>k. None)"
  using ex_router_ok ex_db_ok by (simp add: server_ok_def ex_server_def ip4_table_def root_def)

theorem server_survives_traffic_witness:
  "\<exists>h' v'. serve_packets (\<lambda>bs a. True) [(ex_env, Datagram [1, 2, 3] (SockV4 5 6)), (ex_env, ReadError), (ex_env, Datagram [100, 101] (SockV4 7 8))]
     (ex_server, \<lambda>k. None) (service_new True) = Inr (h', v') \<and> server_ok ex_env (\<lambda>d. d) h'"
  by (rule server_survives_traffic) (simp_all add: ex_world_ok ex_server_ok)


definition ex_rpc :: query where
  "ex_rpc = into_query
     \<lparr>origin = Me \<lparr>node_id = u160_min, node_addr = SockV4 1 2\<rparr>, destination = Addr (SockV4 3 4),
      requestor_addr = Some (SockV4 1 2), transaction_id = [6, 5, 4], read_only = True, base_client = None\<rparr> Ping"


end
