(* ===== verification/Node.thy ===== *)
theory Node
  imports Sweep Exchange
begin

text \<open>
  A node put together: \<open>Node::new\<close> of \<open>node.rs\<close> with \<open>Messenger::new\<close> of \<open>messenger.rs\<close>, the entry
  points of its searches and \<open>bootstrap\<close>.  Opening the database, reading the table's file, binding
  the socket and the random draws are arguments.
\<close>

subsection \<open>Construction\<close>

definition MAX_CONCURRENCY :: u8 where
  "MAX_CONCURRENCY = 8"

datatype node_error = OpenDb | BindHost | BootstrapUnreachable

text \<open>\<open>Messenger::new\<close>: the service without outstanding queries, its semaphore full.\<close>

definition messenger_new :: "'e + unit \<Rightarrow> bool \<Rightarrow> u8 \<Rightarrow> node_error + callers" where
  "messenger_new bind handler max_q =
     (case bind of Inl e \<Rightarrow> Inl BindHost | Inr _ \<Rightarrow> Inr (callers_new handler max_q))"

record node =
  nd_messenger :: callers
  nd_server :: server

text \<open>The random draws of \<open>Node::new\<close>: those of \<open>NodeInfo::from_addr\<close> and the key of the tokens.\<close>

definition node_new ::
  "'e + unit \<Rightarrow> 'f + bval list \<Rightarrow> 'g + unit \<Rightarrow> (bytes \<Rightarrow> u32) \<Rightarrow> u8 \<Rightarrow> u128 \<Rightarrow> u32 \<Rightarrow> bytes \<Rightarrow>
     socket_addr \<Rightarrow> bool \<Rightarrow> ip_addr \<Rightarrow> (node_error + node) res" where
  "node_new open_db bucket_file bind crc rr rms rls key addr ro public_ip =
     (case open_db of
        Inl e \<Rightarrow> Inr (Inl OpenDb)
      | Inr _ \<Rightarrow>
          let me = node_from_addr crc rr rms rls (sock_new public_ip (sock_port addr))
          in rbind (router_new bucket_file me) (\<lambda>router.
             let server = \<lparr>srv_router = router, srv_transaction = 0, srv_read_only = ro, srv_me = me,
                           srv_tokens = token_generator_new key\<rparr>;
                 handler = (if ro then None else Some server)
             in case messenger_new bind (handler \<noteq> None) MAX_CONCURRENCY of
                  Inl e \<Rightarrow> Inr (Inl e)
                | Inr m \<Rightarrow> Inr (Inr \<lparr>nd_messenger = m, nd_server = server\<rparr>)))"

subsection \<open>Searches\<close>

text \<open>\<open>find\<close>: the walk that starts from the nodes of the table nearest to the target.\<close>

definition find_start :: "server \<Rightarrow> u160 \<Rightarrow> walk res" where
  "find_start s target = rbind (router_lookup (srv_router s) target) (\<lambda>ns. Inr (walk_start (srv_router s) ns))"

text \<open>\<open>bootstrap\<close>: the query it sends, and what it does with the result, up to the walk to its own
  identifier.\<close>

definition bootstrap_query :: "server \<Rightarrow> socket_addr \<Rightarrow> query \<times> server" where
  "bootstrap_query s bootstrap_node = build_query s (Addr bootstrap_node) Ping"

definition bootstrap_start :: "server \<Rightarrow> query_result \<Rightarrow> (node_error + server \<times> walk) res" where
  "bootstrap_start s result =
     (case result of
        Inl e \<Rightarrow> Inr (Inl BootstrapUnreachable)
      | Inr response \<Rightarrow>
          rbind (router_add (srv_router s) (sender_node (origin (resp_base response)))) (\<lambda>router.
          let s' = s\<lparr>srv_router := router\<rparr>
          in rbind (find_start s' (router_own_id router)) (\<lambda>w. Inr (Inr (s', w)))))"

subsection \<open>Lemmas\<close>

lemma node_newE:
  assumes "node_new open_db bucket_file bind crc rr rms rls key addr ro public_ip = Inr (Inr nd)"
  obtains router where
    "router_new bucket_file (srv_me (nd_server nd)) = Inr router"
    "srv_me (nd_server nd) = node_from_addr crc rr rms rls (sock_new public_ip (sock_port addr))"
    "nd_server nd = \<lparr>srv_router = router, srv_transaction = 0, srv_read_only = ro, srv_me = srv_me (nd_server nd),
       srv_tokens = token_generator_new key\<rparr>"
    "nd_messenger nd = callers_new (\<not> ro) MAX_CONCURRENCY"
  using assms by (auto simp: node_new_def messenger_new_def Let_def split: sum.split_asm if_split_asm)

lemma from_addr_validates:
  "node_validate crc rms' rls' (node_from_addr crc rr rms rls addr)"
  by (simp add: node_validate_def node_from_addr_def from_ip_def from_ip_with_r_validates)

lemma build_query_read_only [simp]: "read_only (query_base (fst (build_query s to m))) = srv_read_only s"
  by (simp add: build_query_def into_query_def)

lemma caller_step_handler: "caller_step n n' \<Longrightarrow> has_handler (svc n') = has_handler (svc n)"
proof (induction rule: caller_step.induct)
  case (cs_sent c q n bencode send_to wrapped s')
  then show ?case using query_send_cases(2) by fastforce
next
  case (cs_fail c q n bencode send_to wrapped s' r)
  then show ?case using query_send_cases(2) by (fastforce simp: leave_def abandon_def)
next
  case (cs_arrive n result s' d)
  then show ?case
    by (auto simp: return_result_def put_channel_def dest!: remove_from_queue_sent(2) split: prod.split_asm option.splits)
next
  case (cs_send bencode send_to n m s' r)
  then show ?case using send_message_queue by fastforce
next
  case (cs_timeout c q n s' dropped r)
  then show ?case
    by (auto simp: query_timeout_def leave_def abandon_def dest!: remove_from_queue_sent(2) split: prod.split_asm)
qed (simp_all add: enter_def query_push_def abandon_def leave_def)

lemma callers_reachable_handler: "callers_reachable handler max_q n \<Longrightarrow> has_handler (svc n) = handler"
proof (induction rule: callers_reachable.induct)
  case cr_new
  then show ?case by (simp add: callers_new_def service_new_def)
qed (simp add: caller_step_handler)

lemma send_message_refused:
  "send_message enc send_to v m = Inr (v', Inl NoQueryHandler) \<Longrightarrow> \<not> read_only (message_base_of m) \<and> \<not> has_handler v"
  by (auto simp: send_message_def Let_def split: if_split_asm sum.split_asm option.split_asm receiver.split_asm)

lemma first_node_known:
  assumes "router_ok r" "all_nodes (buckets r) = []" "banned_ids r = []" "router_add r n = Inr r'" "router_lookup r' i = Inr ns"
  shows "set ns = {n}"
proof -
  obtain b where b: "add (buckets r) n = Inr b" "added (buckets r) n b" "table_ok b"
    using add_added [of "buckets r" n] assms(1) by (auto simp: router_ok_def)
  have r': "r' = r\<lparr>buckets := b\<rparr>" using assms(3,4) b(1) by (auto simp: router_add_def)
  have ok: "bucket_ok (buckets r)" using assms(1) by (simp add: router_ok_def table_ok_def)
  then have k: "2 \<le> unat (k_size (buckets r))" by (cases "buckets r" rule: bucket_ok.cases) (auto simp: word_le_nat_alt)
  have "admits (buckets r) n" using assms(2) k by (simp add: admits_def ids_def class_size_def)
  with b(2) assms(2) have all: "set (all_nodes b) = {n}" and kb: "k_size b = k_size (buckets r)" by (simp_all add: added_def)
  have "bucket_ok b" using b(3) by (simp add: table_ok_def)
  from lookup_visit [OF this, of i] assms(5) r' kb have ns: "ns = take (unat (k_size (buckets r))) (visit_order i b)"
    by (simp add: router_lookup_def)
  have "visit_order i b \<noteq> []" using set_visit_order [of i b] all by auto
  then have "ns \<noteq> []" using ns k by simp
  moreover have "set ns \<subseteq> {n}" using ns set_visit_order [of i b] all by (auto dest: in_set_takeD)
  ultimately show ?thesis by (cases ns) auto
qed

subsection \<open>Properties\<close>


lemma ex_node_new:
  "\<exists>nd. node_new (Inr () :: unit + unit) (Inl () :: unit + bval list) (Inr () :: unit + unit) (\<lambda>_. 0) 0 0 0 [] (SockV4 0 6881) True (V4 1)
     = Inr (Inr nd) \<and> has_handler (svc (nd_messenger nd)) = False"
  by (simp add: node_new_def router_new_empty messenger_new_def callers_new_def service_new_def Let_def)


text \<open>\<open>bootstrap\<close> on a well-formed table does not panic: without an answer it fails, with one it
  starts a walk to its own identifier from the nodes of its table, and a node that knew nobody
  starts it from the bootstrap node.\<close>

theorem bootstrap_starts_walk:
  assumes "router_ok (srv_router s)"
  shows "case bootstrap_start s result of
      Inl f \<Rightarrow> False
    | Inr (Inl e) \<Rightarrow> isl result
    | Inr (Inr (s', w)) \<Rightarrow> router_ok (srv_router s') \<and>
        (\<exists>resp ns. result = Inr resp \<and> w = walk_start (srv_router s') ns \<and>
           (all_nodes (buckets (srv_router s)) = [] \<and> banned_ids (srv_router s) = [] \<longrightarrow>
              set ns = {sender_node (origin (resp_base resp))}))"
proof (cases result)
  case (Inr resp)
  let ?n = "sender_node (origin (resp_base resp))"
  obtain r' where r': "router_add (srv_router s) ?n = Inr r'" using router_add_total [OF assms] by blast
  then have ok: "router_ok r'" using router_add_ok [OF assms] by blast
  obtain ns where ns: "router_lookup r' (router_own_id r') = Inr ns"
    using bucket.lookup_ok [of "buckets r'" "router_own_id r'"] ok by (auto simp: router_ok_def router_lookup_def)
  from Inr r' ns ok first_node_known [OF assms _ _ r' ns] show ?thesis
    by (simp add: bootstrap_start_def find_start_def Let_def) blast
qed (simp add: bootstrap_start_def)

theorem bootstrap_starts_walk_witness:
  "\<exists>s' w. bootstrap_start ex_server (Inr (into_response (query_base (ex_ask Ping)) Ok)) = Inr (Inr (s', w)) \<and> router_ok (srv_router s')"
  using bootstrap_starts_walk [OF ex_router_ok, of "Inr (into_response (query_base (ex_ask Ping)) Ok)"]
  by (simp split: sum.split_asm prod.split_asm)

end
