(* ===== verification/Text.thy ===== *)
theory Text
  imports Message
begin

text \<open>
  What the node writes about messages into its log: the \<open>Display\<close> implementations of
  \<open>message_impl.rs\<close>, \<open>message.rs\<close>, \<open>node_info.rs\<close> and \<open>u160.rs\<close>, and \<open>safe_string_from_slice\<close> of
  \<open>utils.rs\<close>.  A \<open>String\<close> is the \<open>string\<close> of its UTF-8 bytes.  The crates \<open>base64\<close>, \<open>hex\<close> and
  \<open>chrono\<close> are fields of \<open>printer\<close>, and so is the text of an IPv6 socket address, which differs
  between versions of the standard library.
\<close>

record printer =
  base64 :: "bytes \<Rightarrow> string"
  hex_encode :: "bytes \<Rightarrow> string"
  seconds_text :: "u16 \<Rightarrow> string"
  sock6_text :: "u128 \<Rightarrow> u16 \<Rightarrow> u32 \<Rightarrow> u32 \<Rightarrow> string"

subsection \<open>Numbers and characters\<close>

definition show_nat :: "nat \<Rightarrow> string" where
  "show_nat n = bytes_str (decimal n)"

text \<open>\<open>{:0w}\<close>: at least \<open>w\<close> digits.\<close>

definition show_padded :: "nat \<Rightarrow> nat \<Rightarrow> string" where
  "show_padded w n = replicate (w - length (show_nat n)) (CHR ''0'') @ show_nat n"

text \<open>A \<open>char\<close> as UTF-8.\<close>

definition utf8_encode :: "u32 \<Rightarrow> bytes" where
  "utf8_encode c =
     (if c < 0x80 then [ucast c]
      else if c < 0x800 then [0xC0 OR ucast (drop_bit 6 c), 0x80 OR ucast (c AND 0x3F)]
      else if c < 0x10000
      then [0xE0 OR ucast (drop_bit 12 c), 0x80 OR ucast (drop_bit 6 c AND 0x3F), 0x80 OR ucast (c AND 0x3F)]
      else [0xF0 OR ucast (drop_bit 18 c), 0x80 OR ucast (drop_bit 12 c AND 0x3F),
            0x80 OR ucast (drop_bit 6 c AND 0x3F), 0x80 OR ucast (c AND 0x3F)])"

subsection \<open>Addresses and nodes\<close>

definition dotted :: "(nat \<Rightarrow> string) \<Rightarrow> u32 \<Rightarrow> string" where
  "dotted sh ip = (case map (sh \<circ> unat) (octets (V4 ip)) of
     [a, b, c, d] \<Rightarrow> a @ ''.'' @ b @ ''.'' @ c @ ''.'' @ d | _ \<Rightarrow> [])"

fun display_sock :: "printer \<Rightarrow> socket_addr \<Rightarrow> string" where
  "display_sock P (SockV4 ip p) = dotted show_nat ip @ '':'' @ show_nat (unat p)"
| "display_sock P (SockV6 ip p fl sc) = sock6_text P ip p fl sc"

definition display_u160 :: "printer \<Rightarrow> u160 \<Rightarrow> string" where
  "display_u160 P i = base64 P (u160_to_be_bytes i)"

definition display_node :: "printer \<Rightarrow> node_info \<Rightarrow> string" where
  "display_node P n =
     ''['' @ display_u160 P (node_id n) @ ''@'' @
     (case node_addr n of
        SockV6 ip p fl sc \<Rightarrow> display_sock P (node_addr n) @ '']''
      | SockV4 ip p \<Rightarrow> dotted (show_padded 3) ip @ '':'' @ show_padded 5 (unat p) @ '']'')"

definition debug_node :: "printer \<Rightarrow> node_info \<Rightarrow> string" where
  "debug_node P n = ''['' @ display_u160 P (node_id n) @ ''@'' @ display_sock P (node_addr n) @ '']''"

subsection \<open>Messages\<close>

definition display_client :: "client \<Rightarrow> string" where
  "display_client c =
     ''('' @ (if client_name c = ''Unknown'' then bytes_str (utf8_encode (fst (client_code c)) @ utf8_encode (snd (client_code c)))
              else client_name c) @ '')''"

fun display_receiver :: "printer \<Rightarrow> receiver \<Rightarrow> string" where
  "display_receiver P (Node n) = display_node P n"
| "display_receiver P (Addr a) = ''['' @ display_sock P a @ '']''"
| "display_receiver P ReceiverMe = ''[Me]''"

fun display_sender :: "printer \<Rightarrow> sender \<Rightarrow> string" where
  "display_sender P (Remote n) = display_node P n"
| "display_sender P (Me n) = ''[Me]''"

text \<open>The other end of a message, which its three \<open>Display\<close> implementations begin with.\<close>

definition display_remote :: "printer \<Rightarrow> message_base \<Rightarrow> string" where
  "display_remote P b =
     (case origin b of
        Remote n \<Rightarrow> display_node P n @ (case base_client b of None \<Rightarrow> [] | Some c \<Rightarrow> display_client c)
      | Me n \<Rightarrow> display_receiver P (destination b))"

definition display_query :: "printer \<Rightarrow> query \<Rightarrow> string" where
  "display_query P q =
     display_remote P (query_base q) @ '' '' @
     (case query_meth q of
        Ping \<Rightarrow> ''PING''
      | FindNode n \<Rightarrow> ''FIND '' @ display_u160 P n
      | GetPeers i \<Rightarrow> ''GET PEERS '' @ display_u160 P i
      | AnnouncePeer info_hash port token \<Rightarrow> ''ANNOUNCES '' @ display_u160 P info_hash @ '' with token '' @ base64 P token
      | Put b \<Rightarrow> ''PUTs data''
      | Get \<Rightarrow> ''GETs data''
      | SampleInfohashes t \<Rightarrow> ''GET SAMPLES'')"

definition display_response :: "printer \<Rightarrow> response \<Rightarrow> string" where
  "display_response P r =
     display_remote P (resp_base r) @ '' '' @
     (case resp_kind r of
        Ok \<Rightarrow> ''OK''
      | KNearest k t \<Rightarrow> ''NEAREST '' @ show_nat (length k) @ '' nodes'' @
          (case t of None \<Rightarrow> [] | Some t \<Rightarrow> '' and token '' @ base64 P t)
      | Peers p t n \<Rightarrow> show_nat (length p) @ '' PEERS, '' @
          show_nat (case n of None \<Rightarrow> 0 | Some n \<Rightarrow> length n) @ '' NODES, and token '' @ base64 P t
      | Data b \<Rightarrow> ''some data''
      | Samples ns samples available interval \<Rightarrow>
          show_nat (length samples) @ '' of '' @ show_nat (unat available) @ '' hashes (refresh in '' @
          seconds_text P interval @ '')'')"

definition display_error :: "printer \<Rightarrow> error_msg \<Rightarrow> string" where
  "display_error P e =
     display_remote P (error_base e) @ '' '' @ ''('' @ show_nat (unat (err_code (error_err e))) @ '') '' @
     [CHR 0x22] @ err_desc (error_err e) @ [CHR 0x22]"

definition display_message :: "printer \<Rightarrow> message \<Rightarrow> string" where
  "display_message P m =
     (let out_in = (case origin (message_base_of m) of Remote n \<Rightarrow> ''<<<<'' | Me n \<Rightarrow> ''>>>>'')
      in ''[T:'' @ hex_encode P (transaction_id (message_base_of m)) @
         (case m of
            Query q \<Rightarrow> '' Q'' @ out_in @ '']'' @ display_query P q
          | Response r \<Rightarrow> '' R'' @ out_in @ '']'' @ display_response P r
          | Error e \<Rightarrow> '' E'' @ out_in @ '']'' @ display_error P e))"

subsection \<open>Datagrams\<close>

text \<open>\<open>escape_ascii\<close> of the standard library.\<close>

definition hex_digit :: "nat \<Rightarrow> char" where
  "hex_digit d = ''0123456789abcdef'' ! d"

definition escape_byte :: "u8 \<Rightarrow> string" where
  "escape_byte b =
     (if b = 9 then [CHR 0x5C, CHR ''t'']
      else if b = 13 then [CHR 0x5C, CHR ''r'']
      else if b = 10 then [CHR 0x5C, CHR ''n'']
      else if b = 0x27 \<or> b = 0x22 \<or> b = 0x5C then [CHR 0x5C, char_of (unat b)]
      else if 0x20 \<le> b \<and> b \<le> 0x7E then [char_of (unat b)]
      else [CHR 0x5C, CHR ''x'', hex_digit (unat b div 16), hex_digit (unat b mod 16)])"

definition escape_ascii :: "bytes \<Rightarrow> string" where
  "escape_ascii bs = concat (map escape_byte bs)"

text \<open>Each match of the pattern \<open>\x[a-f0-9]{2}\<close>, from the left, becomes a middle dot.\<close>

definition is_hex :: "char \<Rightarrow> bool" where
  "is_hex c \<longleftrightarrow> c \<in> set ''0123456789abcdef''"

definition middle_dot :: string where
  "middle_dot = [CHR 0xC2, CHR 0xB7]"

fun replace_escapes :: "string \<Rightarrow> string" where
  "replace_escapes (c # x # a # b # s) =
     (if c = CHR 0x5C \<and> x = CHR ''x'' \<and> is_hex a \<and> is_hex b then middle_dot @ replace_escapes s
      else c # replace_escapes (x # a # b # s))"
| "replace_escapes s = s"

definition safe_string_from_slice :: "bytes \<Rightarrow> string" where
  "safe_string_from_slice bs = replace_escapes (escape_ascii bs)"

subsection \<open>What the log can hold\<close>

definition log_char :: "char \<Rightarrow> bool" where
  "log_char c \<longleftrightarrow> 0x20 \<le> (of_char c :: nat) \<and> (of_char c :: nat) \<le> 0x7E"

lemma hex_digit_log: "d < 16 \<Longrightarrow> log_char (hex_digit d)"
proof -
  have "\<forall>d\<in>set [0..<16]. log_char (hex_digit d)" by code_simp
  then show "d < 16 \<Longrightarrow> log_char (hex_digit d)" by simp
qed

lemma escape_byte_log: "c \<in> set (escape_byte b) \<Longrightarrow> log_char c"
proof -
  have "unat b < 256" using unsigned_less [of b, where ?'a = nat] by simp
  then have "unat b div 16 < 16" "unat b mod 16 < 16" by auto
  note hex = hex_digit_log [OF this(1)] hex_digit_log [OF this(2)]
  have "log_char (char_of (unat b))" if "0x20 \<le> b" "b \<le> 0x7E"
    using that by (simp add: log_char_def word_le_nat_alt)
  moreover have "log_char (CHR 0x5C)" "log_char (CHR ''t'')" "log_char (CHR ''r'')" "log_char (CHR ''n'')" "log_char (CHR ''x'')"
    by (simp_all add: log_char_def)
  ultimately show "c \<in> set (escape_byte b) \<Longrightarrow> log_char c"
    using hex by (auto simp: escape_byte_def split: if_split_asm)
qed

lemma set_replace_escapes: "set (replace_escapes s) \<subseteq> set s \<union> set middle_dot"
  by (induction s rule: replace_escapes.induct) auto

lemma safe_string_chars: "c \<in> set (safe_string_from_slice bs) \<Longrightarrow> log_char c \<or> c \<in> set middle_dot"
  using set_replace_escapes [of "escape_ascii bs"] escape_byte_log
  by (auto simp: safe_string_from_slice_def escape_ascii_def)

subsection \<open>Nodes in the log\<close>

lemma show_nat_inj: "show_nat m = show_nat n \<Longrightarrow> m = n"
proof -
  assume "show_nat m = show_nat n"
  then have "str_bytes (show_nat m) = str_bytes (show_nat n)" by simp
  then have "decimal m = decimal n" unfolding show_nat_def str_bytes_str .
  then show "m = n" by (metis undecimal_decimal)
qed

lemma length_decimal: "0 < w \<Longrightarrow> n < 10 ^ w \<Longrightarrow> length (decimal n) \<le> w"
proof (induction w arbitrary: n)
  case (Suc w)
  show ?case
  proof (cases "n < 10")
    case False
    then have "0 < w" using Suc.prems(2) by (cases w) auto
    moreover have "n div 10 < 10 ^ w" using Suc.prems(2) by (simp add: less_mult_imp_div_less mult.commute)
    ultimately have "length (decimal (n div 10)) \<le> w" by (rule Suc.IH)
    with False show ?thesis by (simp add: decimal.simps [of n])
  qed (simp add: decimal.simps [of n])
qed simp

lemma length_show_padded: "0 < w \<Longrightarrow> n < 10 ^ w \<Longrightarrow> length (show_padded w n) = w"
  using length_decimal [of w n] by (simp add: show_padded_def show_nat_def bytes_str_def)

lemma show_padded_inj: "show_padded w m = show_padded w n \<Longrightarrow> m = n"
proof -
  have zero: "str_bytes (replicate k (CHR ''0'')) = replicate k 48" for k by (simp add: str_bytes_def)
  have skip: "undecimal (replicate k 48 @ bs) = undecimal bs" for k bs
    by (induction k) (simp_all add: undecimal_def)
  have "str_bytes (show_padded w n) = replicate (w - length (show_nat n)) 48 @ decimal n" for n
    by (simp add: show_padded_def str_bytes_def show_nat_def bytes_str_def comp_def zero [unfolded str_bytes_def])
       (use str_bytes_str [of "decimal n"] in \<open>simp add: str_bytes_def bytes_str_def comp_def\<close>)
  then have "undecimal (str_bytes (show_padded w n)) = n" for n by (simp add: skip undecimal_decimal)
  then show "show_padded w m = show_padded w n \<Longrightarrow> m = n" by metis
qed

lemma octets_V4: "\<exists>a b c d. octets (V4 ip) = [a, b, c, d]"
  by (simp add: to_be_bytes_def upt_rec numeral_eq_Suc)

lemma dotted_padded_inj:
  assumes "dotted (show_padded 3) ip @ x = dotted (show_padded 3) ip' @ x'"
  shows "ip = ip' \<and> x = x'"
proof -
  obtain a b c d where o: "octets (V4 ip) = [a, b, c, d]" using octets_V4 by blast
  obtain a' b' c' d' where o': "octets (V4 ip') = [a', b', c', d']" using octets_V4 by blast
  have len: "length (show_padded 3 (unat (z :: u8))) = 3" for z
    using length_show_padded [of 3 "unat z"] unsigned_less [of z, where ?'a = nat] by simp
  have inj: "show_padded 3 (unat y) = show_padded 3 (unat z) \<longleftrightarrow> y = z" for y z :: u8
    using show_padded_inj by (metis unsigned_word_eqI)
  from assms have "[a, b, c, d] = [a', b', c', d'] \<and> x = x'"
    by (simp add: dotted_def o o' len inj append_eq_append_conv del: octets.simps)
  with o o' have "octets (V4 ip) = octets (V4 ip')" by simp
  then have "ip = ip'" using to_be_bytes_inj [of 4 ip ip'] by simp
  with \<open>[a, b, c, d] = [a', b', c', d'] \<and> x = x'\<close> show ?thesis by simp
qed

lemma split_at_char: "c \<notin> set xs \<Longrightarrow> c \<notin> set ys \<Longrightarrow> xs @ c # us = ys @ c # vs \<Longrightarrow> xs = ys \<and> us = vs"
proof (induction xs arbitrary: ys)
  case Nil
  then show ?case by (cases ys) auto
next
  case (Cons x xs)
  then show ?case by (cases ys) auto
qed

lemma display_node_V4_inj:
  assumes b64: "inj (base64 P)" "\<And>bs. CHR ''@'' \<notin> set (base64 P bs)"
    and eq: "display_node P \<lparr>node_id = i, node_addr = SockV4 ip p\<rparr> = display_node P \<lparr>node_id = i', node_addr = SockV4 ip' p'\<rparr>"
  shows "i = i' \<and> ip = ip' \<and> p = p'"
proof -
  from eq have "display_u160 P i @ CHR ''@'' # dotted (show_padded 3) ip @ CHR '':'' # show_padded 5 (unat p) @ '']'' =
      display_u160 P i' @ CHR ''@'' # dotted (show_padded 3) ip' @ CHR '':'' # show_padded 5 (unat p') @ '']''"
    by (simp add: display_node_def)
  from split_at_char [OF _ _ this] b64(2) have
    id: "display_u160 P i = display_u160 P i'" and
    rest: "dotted (show_padded 3) ip @ CHR '':'' # show_padded 5 (unat p) @ '']'' =
      dotted (show_padded 3) ip' @ CHR '':'' # show_padded 5 (unat p') @ '']''"
    by (simp_all add: display_u160_def)
  from id b64(1) have "i = i'" by (auto simp: display_u160_def dest!: injD u160_to_be_bytes_inj [THEN iffD1])
  moreover from dotted_padded_inj [OF rest] have "ip = ip'" "show_padded 5 (unat p) = show_padded 5 (unat p')" by auto
  ultimately show ?thesis using show_padded_inj unsigned_word_eqI by metis
qed

subsection \<open>Errors in the log\<close>

lemma display_error_description:
  "\<exists>pre. display_message P (Error e) = pre @ [CHR 0x22] @ err_desc (error_err e) @ [CHR 0x22]"
  by (simp add: display_message_def display_error_def Let_def)

subsection \<open>Properties\<close>

text \<open>Whatever bytes a datagram holds, what \<open>safe_string_from_slice\<close> writes of it into the log is
  printable ASCII and middle dots: no line break or control character gets through.\<close>

theorem safe_string_printable:
  "\<forall>c\<in>set (safe_string_from_slice bs). (0x20 \<le> (of_char c :: nat) \<and> (of_char c :: nat) \<le> 0x7E) \<or> c \<in> set middle_dot"
  using safe_string_chars [of _ bs] by (auto simp: log_char_def)

theorem safe_string_printable_witness:
  "CHR 0xB7 \<in> set (safe_string_from_slice [0x41, 0x00]) \<and>
   ((0x20 \<le> (of_char (CHR 0xB7) :: nat) \<and> (of_char (CHR 0xB7) :: nat) \<le> 0x7E) \<or> CHR 0xB7 \<in> set middle_dot)"
proof -
  have "CHR 0xB7 \<in> set (safe_string_from_slice [0x41, 0x00])" by code_simp
  with safe_string_printable [of "[0x41, 0x00]"] show ?thesis by blast
qed

text \<open>The \<open>Display\<close> of messages has no such filter: for every description there is a datagram which is
  received as an error message whose line in the log holds that description verbatim, line breaks
  included, so a remote node can write lines of its own into the log.\<close>

theorem error_line_unfiltered:
  assumes "is_utf8 d"
  shows "\<exists>packet m pre. receive bdec packet a = Inr m \<and> display_message P m = pre @ [CHR 0x22] @ d @ [CHR 0x22]"
proof -
  let ?e = "into_error_generic \<lparr>origin = Me \<lparr>node_id = u160_min, node_addr = a\<rparr>, destination = ReceiverMe,
    requestor_addr = None, transaction_id = [], read_only = False, base_client = None\<rparr> d"
  have "message_valid (Error ?e)" using assms by (simp add: into_error_generic_def)
  from receive_to_bytes [OF this, of benc bdec a] obtain packet where
    "receive bdec packet a = Inr (received a (Error ?e))" by (auto simp: benc_def bdec_emit)
  moreover let ?x = "\<lparr>error_err = error_err ?e, error_base = received_at a None u160_min (error_base ?e)\<rparr>"
  have "received a (Error ?e) = Error ?x" "err_desc (error_err ?x) = d" by (simp_all add: into_error_generic_def)
  moreover obtain pre where "display_message P (Error ?x) = pre @ [CHR 0x22] @ err_desc (error_err ?x) @ [CHR 0x22]"
    using display_error_description by blast
  ultimately show ?thesis by metis
qed

theorem error_line_unfiltered_witness:
  "\<exists>packet m pre. receive bdec packet (SockV4 1 2) = Inr m \<and>
     display_message \<lparr>base64 = (\<lambda>bs. []), hex_encode = (\<lambda>bs. []), seconds_text = (\<lambda>s. []), sock6_text = (\<lambda>ip p fl sc. [])\<rparr> m =
       pre @ [CHR 0x22] @ [CHR 10] @ [CHR 0x22]"
proof (rule error_line_unfiltered)
  show "is_utf8 [CHR 10]" by code_simp
qed

text \<open>The lines of the log tell nodes with IPv4 addresses apart: with an injective text of identifiers
  that has no \<open>@\<close> (as base64), two such nodes are printed alike only if they are the same.\<close>

theorem display_node_injective:
  assumes "inj (base64 P)" "\<And>bs. CHR ''@'' \<notin> set (base64 P bs)" "is_ip4 m" "is_ip4 n"
    "display_node P m = display_node P n"
  shows "m = n"
proof -
  from assms(3,4) obtain ip p ip' p' where
    "node_addr m = SockV4 ip p" "node_addr n = SockV4 ip' p'" by (auto simp: is_ip4_iff)
  then have "m = \<lparr>node_id = node_id m, node_addr = SockV4 ip p\<rparr>" "n = \<lparr>node_id = node_id n, node_addr = SockV4 ip' p'\<rparr>"
    by simp_all
  with display_node_V4_inj [OF assms(1,2)] assms(5) show ?thesis by metis
qed

definition ex_hex :: "bytes \<Rightarrow> string" where
  "ex_hex bs = concat (map (\<lambda>b. [hex_digit (unat b div 16), hex_digit (unat b mod 16)]) bs)"

definition ex_printer :: printer where
  "ex_printer = \<lparr>base64 = ex_hex, hex_encode = ex_hex, seconds_text = (\<lambda>s. show_nat (unat s)), sock6_text = (\<lambda>ip p fl sc. [])\<rparr>"

lemma hex_digit_inj: "c < 16 \<Longrightarrow> d < 16 \<Longrightarrow> hex_digit c = hex_digit d \<longleftrightarrow> c = d"
proof -
  have "\<forall>c\<in>set [0..<16]. \<forall>d\<in>set [0..<16]. hex_digit c = hex_digit d \<longleftrightarrow> c = d" by code_simp
  then show "c < 16 \<Longrightarrow> d < 16 \<Longrightarrow> hex_digit c = hex_digit d \<longleftrightarrow> c = d" by simp
qed

lemma byte_digits: "unat (b :: u8) div 16 < 16" "unat (b :: u8) mod 16 < 16"
  using unsigned_less [of b, where ?'a = nat] by auto

lemma ex_hex_ok: "inj ex_hex" "CHR ''@'' \<notin> set (ex_hex bs)"
proof -
  have "ex_hex xs = ex_hex ys \<Longrightarrow> xs = ys" for xs ys
  proof (induction xs arbitrary: ys)
    case (Cons x xs)
    then obtain y ys' where ys: "ys = y # ys'" by (cases ys) (simp_all add: ex_hex_def)
    with Cons.prems have "unat x div 16 = unat y div 16" "unat x mod 16 = unat y mod 16" "ex_hex xs = ex_hex ys'"
      by (simp_all add: ex_hex_def hex_digit_inj byte_digits)
    then have "x = y" by (metis div_mult_mod_eq unsigned_word_eqI)
    with Cons.IH [OF \<open>ex_hex xs = ex_hex ys'\<close>] ys show ?case by simp
  qed (simp add: ex_hex_def split: list.split)
  then show "inj ex_hex" by (rule injI)
  have "\<forall>d\<in>set [0..<16]. CHR ''@'' \<noteq> hex_digit d" by code_simp
  then have "CHR ''@'' \<noteq> hex_digit d" if "d < 16" for d using that by simp
  then show "CHR ''@'' \<notin> set (ex_hex bs)" by (simp add: ex_hex_def byte_digits)
qed

theorem display_node_injective_witness:
  "display_node ex_printer \<lparr>node_id = u160_min, node_addr = SockV4 1 2\<rparr> \<noteq>
   display_node ex_printer \<lparr>node_id = u160_min, node_addr = SockV4 1 3\<rparr>"
  using display_node_injective [of ex_printer "\<lparr>node_id = u160_min, node_addr = SockV4 1 2\<rparr>"
      "\<lparr>node_id = u160_min, node_addr = SockV4 1 3\<rparr>"] ex_hex_ok
  by (auto simp: ex_printer_def is_ip4_def)

end
