(* ===== verification/Explorer.thy ===== *)
theory Explorer
  imports Node Text
begin

text \<open>
  The program around the node: the options of \<open>parameters.rs\<close>, the start of \<open>main.rs\<close> up to a running
  node, the configuration of its logger and the line that it writes.  Parsing the command line
  (\<open>structopt\<close>), opening the log file and installing the logger (\<open>fern\<close>), the name service and the text of
  IPv6 addresses are arguments; the texts of IPv4 addresses are parsed as the standard library does.
  What the program does with the node is the theory \<open>Program\<close>.
\<close>

subsection \<open>Options\<close>

datatype level = LevelError | LevelWarn | LevelInfo | LevelDebug | LevelTrace

record parameters =
  bind_v4 :: string
  bind_v6 :: "string option"
  public_ip :: "string option"
  state :: "string option"
  peer :: string
  timeout :: u16
  no_verify_id :: bool
  log_no_color :: bool
  log_level :: "level option"
  log_std_level :: "level option option"
  log_file_level :: "level option option"
  log_dir :: string
  log_file :: string

text \<open>The options of a command line without arguments; a level filter is \<open>None\<close> for \<open>Off\<close>.\<close>

definition no_arguments :: parameters where
  "no_arguments =
     \<lparr>bind_v4 = ''0.0.0.0:6881'', bind_v6 = None, public_ip = None, state = None,
      peer = ''router.bittorrent.com:6881'', timeout = 500, no_verify_id = False, log_no_color = False,
      log_level = Some LevelDebug, log_std_level = None, log_file_level = None, log_dir = ''./logs/'',
      log_file = ''log-%Y-%m-%d-%H-%M-%S.txt''\<rparr>"

subsection \<open>Addresses as text\<close>

text \<open>\<open>Ipv4Addr::from_str\<close> and \<open>SocketAddr::from_str\<close>: an octet has at most three digits and no
  superfluous zero in front; a port may have any number of digits.\<close>

definition read_octet :: "bytes \<Rightarrow> (u8 \<times> bytes) option" where
  "read_octet bs =
     (let ds = takeWhile is_digit bs
      in if ds = [] \<or> 3 < length ds \<or> (hd ds = 48 \<and> 1 < length ds) \<or> 255 < undecimal ds then None
         else Some (of_nat (undecimal ds), dropWhile is_digit bs))"

definition read_char :: "u8 \<Rightarrow> bytes \<Rightarrow> bytes option" where
  "read_char c bs = (case bs of b # rest \<Rightarrow> if b = c then Some rest else None | [] \<Rightarrow> None)"

definition read_ip4 :: "bytes \<Rightarrow> (u32 \<times> bytes) option" where
  "read_ip4 bs =
     Option.bind (read_octet bs) (\<lambda>(a, r1). Option.bind (read_char 46 r1) (\<lambda>r1.
     Option.bind (read_octet r1) (\<lambda>(b, r2). Option.bind (read_char 46 r2) (\<lambda>r2.
     Option.bind (read_octet r2) (\<lambda>(c, r3). Option.bind (read_char 46 r3) (\<lambda>r3.
     Option.bind (read_octet r3) (\<lambda>(d, r4). Some (from_be_bytes [a, b, c, d], r4))))))))"

definition read_port :: "bytes \<Rightarrow> u16 option" where
  "read_port bs =
     (if bs = [] \<or> \<not> list_all is_digit bs \<or> 65535 < undecimal bs then None else Some (of_nat (undecimal bs)))"

definition ip_from_str :: "(string \<Rightarrow> ip_addr option) \<Rightarrow> string \<Rightarrow> ip_addr option" where
  "ip_from_str ip6 s = (case read_ip4 (str_bytes s) of Some (ip, []) \<Rightarrow> Some (V4 ip) | _ \<Rightarrow> ip6 s)"

definition sock_from_str :: "(string \<Rightarrow> socket_addr option) \<Rightarrow> string \<Rightarrow> socket_addr option" where
  "sock_from_str sock6 s =
     (case Option.bind (read_ip4 (str_bytes s)) (\<lambda>(ip, r). Option.bind (read_char 58 r) (\<lambda>r.
             map_option (SockV4 ip) (read_port r))) of
        Some a \<Rightarrow> Some a
      | None \<Rightarrow> sock6 s)"

subsection \<open>The log\<close>

definition colors :: "level \<Rightarrow> string" where
  "colors l = (case l of LevelError \<Rightarrow> ''9'' | LevelWarn \<Rightarrow> ''220'' | LevelInfo \<Rightarrow> ''228'' | LevelDebug \<Rightarrow> ''230''
     | LevelTrace \<Rightarrow> ''248'')"

text \<open>The closure \<open>fmt\<close>; \<open>test_str\<close> is empty outside of tests, \<open>now\<close> and \<open>level_name\<close> are what \<open>chrono\<close> and
  \<open>log\<close> print.\<close>

definition log_line :: "bool \<Rightarrow> string \<Rightarrow> string \<Rightarrow> string \<Rightarrow> (level \<Rightarrow> string) \<Rightarrow> level \<Rightarrow> string \<Rightarrow> string" where
  "log_line color test_str now target level_name l message =
     (let (ansi_pfx, ansi_sfx) =
            (if color then ([CHR 0x1B] @ ''[38;5;'' @ colors l @ ''m'', [CHR 0x1B] @ ''[0m'') else ([], []))
      in ansi_pfx @ test_str @ ''['' @ now @ '']['' @ target @ '']['' @ level_name l @ ''] '' @ message @ ansi_sfx)"

definition std_level :: "parameters \<Rightarrow> level option" where
  "std_level p = (case log_std_level p of Some l \<Rightarrow> l | None \<Rightarrow> log_level p)"

definition file_level :: "parameters \<Rightarrow> level option" where
  "file_level p = (case log_file_level p of Some l \<Rightarrow> l | None \<Rightarrow> log_level p)"

text \<open>The two dispatches that are handed to \<open>fern\<close>: where a sink writes, from which level on, and the levels of
  the modules that have their own.\<close>

record sink =
  sk_color :: bool
  sk_level :: "level option"
  sk_level_for :: "(string \<times> level option) list"
  sk_file :: "string option"

definition dispatch :: "parameters \<Rightarrow> string \<Rightarrow> sink list" where
  "dispatch p path =
     [\<lparr>sk_color = \<not> log_no_color p, sk_level = std_level p,
       sk_level_for = [(''dht_explorer::node'', Some LevelDebug), (''dht_explorer::router'', None), (''sled'', None)],
       sk_file = None\<rparr>,
      \<lparr>sk_color = False, sk_level = file_level p,
       sk_level_for = [(''dht_explorer::router'', None), (''sled'', None)],
       sk_file = Some path\<rparr>]"

subsection \<open>Start\<close>

datatype main_error = Logging | PeerLookup | InvalidPeer | BindSyntax | InvalidPublicIp | NodeError node_error

record world =
  from_args :: "unit + parameters"
  params_set :: bool
  test_str :: string
  strftime :: "string \<Rightarrow> string"
  open_log :: "string \<Rightarrow> unit + unit"
  apply_log :: "sink list \<Rightarrow> unit + unit"
  to_socket_addrs :: "string \<Rightarrow> unit + socket_addr list"
  sock6 :: "string \<Rightarrow> socket_addr option"
  ip6 :: "string \<Rightarrow> ip_addr option"

text \<open>\<open>init_logging\<close>: a log file that cannot be opened is a panic, a logger that is already installed an error.\<close>

definition init_logging :: "world \<Rightarrow> parameters \<Rightarrow> (unit + unit) res" where
  "init_logging W p =
     (let path = strftime W (log_dir p @ test_str W @ log_file p)
      in case open_log W path of
           Inl e \<Rightarrow> Inl ExplicitPanic
         | Inr _ \<Rightarrow> Inr (apply_log W (dispatch p path)))"

text \<open>\<open>main\<close> up to the node and the address it bootstraps from; \<open>new\<close> is \<open>Node::new\<close>.\<close>

definition main_start ::
  "world \<Rightarrow> (socket_addr \<Rightarrow> bool \<Rightarrow> ip_addr \<Rightarrow> (node_error + node) res) \<Rightarrow> (main_error + node \<times> socket_addr) res" where
  "main_start W new =
     (case from_args W of
        Inl e \<Rightarrow> Inl ExplicitPanic
      | Inr p \<Rightarrow>
     if \<not> params_set W then Inl ExplicitPanic
     else rbind (init_logging W p) (\<lambda>logging. case logging of
        Inl e \<Rightarrow> Inr (Inl Logging)
      | Inr _ \<Rightarrow>
     (case to_socket_addrs W (peer p) of
        Inl e \<Rightarrow> Inr (Inl PeerLookup)
      | Inr [] \<Rightarrow> Inr (Inl InvalidPeer)
      | Inr (target # _) \<Rightarrow>
     (case sock_from_str (sock6 W) (bind_v4 p) of
        None \<Rightarrow> Inr (Inl BindSyntax)
      | Some addr \<Rightarrow>
     (case public_ip p of
        None \<Rightarrow> Inl UnwrapNone
      | Some text \<Rightarrow>
     (case ip_from_str (ip6 W) text of
        None \<Rightarrow> Inr (Inl InvalidPublicIp)
      | Some ip \<Rightarrow>
          rbind (new addr True ip) (\<lambda>r.
          case r of Inl e \<Rightarrow> Inr (Inl (NodeError e)) | Inr nd \<Rightarrow> Inr (Inr (nd, target)))))))))"

subsection \<open>Printed addresses are read back\<close>

lemma decimal_head: "0 < n \<Longrightarrow> hd (decimal n) \<noteq> 48"
proof (induction n rule: decimal.induct)
  case (1 n)
  show ?case
  proof (cases "n < 10")
    case True
    have "unat (digit n) \<noteq> unat (48 :: u8)" using True 1(2) by (simp add: unat_digit)
    then show ?thesis using True by (auto simp: decimal.simps [of n])
  next
    case False
    then have "hd (decimal (n div 10)) \<noteq> 48" using 1(1) by simp
    with False show ?thesis by (simp add: decimal.simps [of n] decimal_not_Nil)
  qed
qed

lemma digits_then:
  assumes "list_all (\<lambda>c. \<not> is_digit c) (take 1 rest)"
  shows "takeWhile is_digit (decimal n @ rest) = decimal n" "dropWhile is_digit (decimal n @ rest) = rest"
proof -
  have "takeWhile is_digit rest = []" "dropWhile is_digit rest = rest" using assms by (cases rest; simp)+
  then show "takeWhile is_digit (decimal n @ rest) = decimal n" "dropWhile is_digit (decimal n @ rest) = rest"
    using decimal_digits [of _ n] by (simp_all add: takeWhile_append2 dropWhile_append2)
qed

lemma read_octet_decimal:
  assumes "list_all (\<lambda>c. \<not> is_digit c) (take 1 rest)"
  shows "read_octet (decimal (unat a) @ rest) = Some (a, rest)"
proof -
  have a: "unat a < 256" using unsigned_less [of a, where ?'a = nat] by simp
  then have "length (decimal (unat a)) \<le> 3" using length_decimal [of 3 "unat a"] by simp
  moreover have "\<not> (hd (decimal (unat a)) = 48 \<and> 1 < length (decimal (unat a)))"
    using decimal_head [of "unat a"] by (cases "unat a = 0") (auto simp: decimal.simps [of 0])
  ultimately show ?thesis using a
    by (simp add: read_octet_def Let_def digits_then [OF assms] decimal_not_Nil undecimal_decimal)
qed

lemma str_bytes_append: "str_bytes (x @ y) = str_bytes x @ str_bytes y"
  by (simp add: str_bytes_def)

lemma str_bytes_show: "str_bytes (show_nat n) = decimal n"
  by (simp add: show_nat_def)

lemma str_bytes_char: "str_bytes ''.'' = [46]" "str_bytes '':'' = [58]"
  by (simp_all add: str_bytes_def)

lemma dotted_bytes:
  assumes "octets (V4 ip) = [a, b, c, d]"
  shows "str_bytes (dotted show_nat ip) =
    decimal (unat a) @ 46 # decimal (unat b) @ 46 # decimal (unat c) @ 46 # decimal (unat d)"
  using assms by (simp add: dotted_def str_bytes_append [of _ "''.'' @ _"] str_bytes_append [of "''.''"] str_bytes_append
      str_bytes_show str_bytes_char del: octets.simps append.simps)

lemma read_ip4_dotted:
  assumes "list_all (\<lambda>c. \<not> is_digit c) (take 1 rest)"
  shows "read_ip4 (str_bytes (dotted show_nat ip) @ rest) = Some (ip, rest)"
proof -
  obtain a b c d where o: "octets (V4 ip) = [a, b, c, d]" using octets_V4 by blast
  then have ip: "from_be_bytes [a, b, c, d] = ip" using from_to_be_bytes [of 4 ip] by simp
  have dot: "read_octet (decimal (unat x) @ 46 # r) = Some (x, 46 # r)" for x r
    by (rule read_octet_decimal) (simp add: is_digit_def)
  show ?thesis
    by (simp add: dotted_bytes [OF o] read_ip4_def dot read_char_def read_octet_decimal [OF assms] ip)
qed

subsection \<open>Properties\<close>

text \<open>The text of an IPv4 address, with or without a port, is read back as that address.\<close>

theorem address_text_roundtrip:
  "sock_from_str s6 (display_sock P (SockV4 ip p)) = Some (SockV4 ip p) \<and> ip_from_str i6 (dotted show_nat ip) = Some (V4 ip)"
proof
  have port: "read_port (decimal (unat p)) = Some p"
    using decimal_digits unsigned_less [of p, where ?'a = nat]
    by (auto simp: read_port_def decimal_not_Nil list_all_iff undecimal_decimal)
  have "str_bytes (display_sock P (SockV4 ip p)) = str_bytes (dotted show_nat ip) @ 58 # decimal (unat p)"
    by (simp add: str_bytes_append str_bytes_show str_bytes_char del: append.simps)
  moreover have "read_ip4 (str_bytes (dotted show_nat ip) @ 58 # decimal (unat p)) = Some (ip, 58 # decimal (unat p))"
    by (rule read_ip4_dotted) (simp add: is_digit_def)
  ultimately show "sock_from_str s6 (display_sock P (SockV4 ip p)) = Some (SockV4 ip p)"
    by (simp add: sock_from_str_def read_char_def port)
  show "ip_from_str i6 (dotted show_nat ip) = Some (V4 ip)"
    using read_ip4_dotted [of "[]" ip] by (simp add: ip_from_str_def)
qed

lemma default_bind: "sock_from_str s6 (bind_v4 no_arguments) = Some (SockV4 0 6881)"
proof -
  have "read_ip4 (str_bytes ''0.0.0.0:6881'') = Some (0, [58, 54, 56, 56, 49])" by code_simp
  moreover have "read_port [54, 56, 56, 49] = Some 6881" by (simp add: read_port_def is_digit_def undecimal_def)
  ultimately show ?thesis by (simp add: no_arguments_def sock_from_str_def read_char_def)
qed

text \<open>Started without arguments the program panics: every option has a default but the public address,
  which is unwrapped.\<close>

theorem main_needs_public_ip:
  assumes "from_args W = Inr no_arguments" "params_set W" "init_logging W no_arguments = Inr (Inr ())"
    "to_socket_addrs W (peer no_arguments) = Inr (a # as)"
  shows "main_start W new = Inl UnwrapNone"
proof -
  from assms default_bind [of "sock6 W"] show ?thesis by (simp add: main_start_def) (simp add: no_arguments_def)
qed

definition ex_world :: world where
  "ex_world = \<lparr>from_args = Inr no_arguments, params_set = True, test_str = [], strftime = (\<lambda>t. t),
     open_log = (\<lambda>t. Inr ()), apply_log = (\<lambda>ss. Inr ()), to_socket_addrs = (\<lambda>t. Inr [SockV4 0x01020304 6881]), sock6 = (\<lambda>t. None), ip6 = (\<lambda>t. None)\<rparr>"

theorem main_needs_public_ip_witness: "main_start ex_world (\<lambda>a ro ip. Inr (Inl OpenDb)) = Inl UnwrapNone"
  by (rule main_needs_public_ip [of _ "SockV4 0x01020304 6881" "[]"]) (simp_all add: ex_world_def init_logging_def Let_def)

lemma node_result:
  "rbind m (\<lambda>r. case r of Inl e \<Rightarrow> Inr (Inl (NodeError e)) | Inr nd \<Rightarrow> Inr (Inr (nd, t))) = Inr (Inr (nd', t')) \<longleftrightarrow>
     m = Inr (Inr nd') \<and> t' = t"
  by (cases m) (auto split: sum.split)

lemma main_start_node:
  assumes "main_start W (node_new open_db bucket_file bind crc rr rms rls key) = Inr (Inr (nd, target))"
  obtains addr ip where "node_new open_db bucket_file bind crc rr rms rls key addr True ip = Inr (Inr nd)"
  using assms by (auto simp: main_start_def node_result split: sum.split_asm if_split_asm list.split_asm option.split_asm)

text \<open>A start with a public address, no saved table and nothing that fails.\<close>

abbreviation ex_new :: "socket_addr \<Rightarrow> bool \<Rightarrow> ip_addr \<Rightarrow> (node_error + node) res" where
  "ex_new \<equiv> node_new (Inr () :: unit + unit) (Inl () :: unit + bval list) (Inr () :: unit + unit) (\<lambda>_. 0) 0 0 0 []"

lemma ex_start:
  "\<exists>nd. main_start (ex_world\<lparr>from_args := Inr (no_arguments\<lparr>public_ip := Some ''1.2.3.4''\<rparr>)\<rparr>) ex_new =
     Inr (Inr (nd, SockV4 0x01020304 6881))"
proof -
  let ?W = "ex_world\<lparr>from_args := Inr (no_arguments\<lparr>public_ip := Some ''1.2.3.4''\<rparr>)\<rparr>"
  have "read_ip4 (str_bytes ''1.2.3.4'') = Some (0x01020304, [])" by code_simp
  then have ip: "ip_from_str (ip6 ?W) ''1.2.3.4'' = Some (V4 0x01020304)" by (simp add: ip_from_str_def)
  obtain nd where nd: "ex_new (SockV4 0 6881) True (V4 0x01020304) = Inr (Inr nd)"
    by (simp add: node_new_def router_new_def load_from_file_def messenger_new_def Let_def)
  show ?thesis using default_bind [of "sock6 ?W"] ip nd by (simp add: main_start_def ex_world_def init_logging_def Let_def)
qed

text \<open>The node that the program starts is read-only for good: whatever its callers do and whatever datagram
  arrives, receiving it sends nothing and hands no query to the server.\<close>

theorem main_never_serves:
  assumes "main_start W (node_new open_db bucket_file bind crc rr rms rls key) = Inr (Inr (nd, target))"
    and "callers_reachable (has_handler (svc (nd_messenger nd))) MAX_CONCURRENCY n"
    and "recv_packet enc dec send_to hq he h (svc n) packet a = Inr (h', v', d)"
  shows "h' = h \<and> sent v' = sent (svc n) \<and> srv_read_only (nd_server nd)"
proof -
  obtain addr ip where "node_new open_db bucket_file bind crc rr rms rls key addr True ip = Inr (Inr nd)"
    using main_start_node [OF assms(1)] by blast
  then obtain s where nd: "nd_messenger nd = callers_new False MAX_CONCURRENCY" "srv_read_only (nd_server nd)"
    by (elim node_newE) (metis server.select_convs(3))
  then have "\<not> has_handler (svc n)" using callers_reachable_handler [OF assms(2)] by (simp add: callers_new_def service_new_def)
  with assms(3) nd(2) show ?thesis
    by (auto simp: recv_packet_def handle_received_query_def return_result_def Let_def
        dest!: remove_from_queue_sent(1) split: sum.split_asm message.split_asm prod.split_asm option.split_asm)
qed

theorem main_never_serves_witness:
  "\<exists>nd. main_start (ex_world\<lparr>from_args := Inr (no_arguments\<lparr>public_ip := Some ''1.2.3.4''\<rparr>)\<rparr>) ex_new =
      Inr (Inr (nd, SockV4 0x01020304 6881)) \<and> srv_read_only (nd_server nd)"
proof -
  obtain nd where st: "main_start (ex_world\<lparr>from_args := Inr (no_arguments\<lparr>public_ip := Some ''1.2.3.4''\<rparr>)\<rparr>) ex_new =
      Inr (Inr (nd, SockV4 0x01020304 6881))" using ex_start by blast
  have cr: "callers_reachable (has_handler (svc (nd_messenger nd))) MAX_CONCURRENCY
      (callers_new (has_handler (svc (nd_messenger nd))) MAX_CONCURRENCY)" by (rule cr_new)
  have rp: "recv_packet benc bdec (\<lambda>bs a. True) (\<lambda>h q. Inr (h, Inl (into_error (query_base q) Server)))
      handle_error (nd_server nd, ()) (svc (callers_new (has_handler (svc (nd_messenger nd))) MAX_CONCURRENCY))
      [] (SockV4 0 0) = Inr ((nd_server nd, ()), (svc (callers_new (has_handler (svc (nd_messenger nd))) MAX_CONCURRENCY))\<lparr>packet_num := 1\<rparr>, None)"
    by (simp add: recv_packet_def receive_def bdec_def callers_new_def service_new_def)
  from main_never_serves [OF st cr rp] st show ?thesis by blast
qed

end
