(* ===== verification/Program.thy ===== *)
theory Program
  imports Explorer
begin

text \<open>
  \<open>main\<close> of \<open>main.rs\<close> as a whole: the node joins the network through the given peer, waits, and searches for
  the peers of one info hash; then it waits to be interrupted.  A step is a result of the messenger, a turn
  of the walk that is under way, or the code between two of them.
\<close>

subsection \<open>Phases\<close>

definition SEARCHED :: string where
  "SEARCHED = ''B9FF4E7CE60DA918EB18D06AF1FDE0050D78E96E''"

datatype main_state =
    Pinging server query
  | Joining server walk
  | Sleeping server
  | Searching server u160 walk
  | Done server found
  | Failed node_error
  | MainPanicked fault

definition main_begin :: "node \<Rightarrow> socket_addr \<Rightarrow> main_state" where
  "main_begin nd target = (case bootstrap_query (nd_server nd) target of (q, s) \<Rightarrow> Pinging s q)"

definition after_ping :: "server \<Rightarrow> query_result \<Rightarrow> main_state" where
  "after_ping s result =
     (case bootstrap_start s result of
        Inl f \<Rightarrow> MainPanicked f
      | Inr (Inl e) \<Rightarrow> Failed e
      | Inr (Inr (s', w)) \<Rightarrow> Joining s' w)"

text \<open>The end of \<open>find_nodes\<close>, whose walk has changed the table.\<close>

definition after_join :: "server \<Rightarrow> walk \<Rightarrow> main_state" where
  "after_join s w =
     (case walk_result K_SIZE w of
        None \<Rightarrow> Joining s w
      | Some f \<Rightarrow>
          (case k_closest f of
             Inl e \<Rightarrow> MainPanicked e
           | Inr ns \<Rightarrow> Sleeping (s\<lparr>srv_router := wk_router w\<rparr>)))"

definition after_sleep :: "(string \<Rightarrow> nat \<Rightarrow> 'e + bytes) \<Rightarrow> server \<Rightarrow> main_state" where
  "after_sleep hex_decode s =
     (case from_hex hex_decode SEARCHED of
        Inl f \<Rightarrow> MainPanicked f
      | Inr target \<Rightarrow>
          (case find_start s target of
             Inl f \<Rightarrow> MainPanicked f
           | Inr w \<Rightarrow> Searching s target w))"

definition after_search :: "server \<Rightarrow> u160 \<Rightarrow> walk \<Rightarrow> main_state" where
  "after_search s target w =
     (case walk_result K_SIZE w of
        None \<Rightarrow> Searching s target w
      | Some f \<Rightarrow> Done (s\<lparr>srv_router := wk_router w\<rparr>) f)"

text \<open>A task of a walk that panics takes the walk with it: \<open>RemoteHandle\<close> hands the panic on.\<close>

inductive task_panics :: "bool \<Rightarrow> walk \<Rightarrow> fault \<Rightarrow> bool" where
  "get_next_result i (wk_tasks w) = Some (SendFind n, rest) \<Longrightarrow>
     send_find (wk_router w) n find_peers result = Inl f \<Longrightarrow> task_panics find_peers w f"

inductive main_step :: "(node_info \<Rightarrow> bool) \<Rightarrow> (string \<Rightarrow> nat \<Rightarrow> 'e + bytes) \<Rightarrow> main_state \<Rightarrow> main_state \<Rightarrow> bool"
  for valid :: "node_info \<Rightarrow> bool" and hex_decode :: "string \<Rightarrow> nat \<Rightarrow> 'e + bytes" where
  pinged: "main_step valid hex_decode (Pinging s q) (after_ping s result)"
| joins: "walk_step valid False (router_own_id (srv_router s)) w w' \<Longrightarrow> main_step valid hex_decode (Joining s w) (Joining s w')"
| join_panics: "task_panics False w f \<Longrightarrow> main_step valid hex_decode (Joining s w) (MainPanicked f)"
| joined: "wk_tasks w = [] \<Longrightarrow> main_step valid hex_decode (Joining s w) (after_join s w)"
| slept: "main_step valid hex_decode (Sleeping s) (after_sleep hex_decode s)"
| searches: "walk_step valid True target w w' \<Longrightarrow> main_step valid hex_decode (Searching s target w) (Searching s target w')"
| search_panics: "task_panics True w f \<Longrightarrow> main_step valid hex_decode (Searching s target w) (MainPanicked f)"
| searched: "wk_tasks w = [] \<Longrightarrow> main_step valid hex_decode (Searching s target w) (after_search s target w)"

subsection \<open>Invariant and potential\<close>

fun main_ok :: "(node_info \<Rightarrow> bool) \<Rightarrow> main_state \<Rightarrow> bool" where
  "main_ok valid (Pinging s q) = router_ok (srv_router s)"
| "main_ok valid (Joining s w) = (walk_inv valid (router_own_id (srv_router s)) w \<and> router_ok (wk_router w) \<and> wk_peers w = {})"
| "main_ok valid (Sleeping s) = router_ok (srv_router s)"
| "main_ok valid (Searching s target w) = (walk_inv valid target w \<and> router_ok (wk_router w))"
| "main_ok valid (Done s f) = router_ok (srv_router s)"
| "main_ok valid (Failed e) = (e = BootstrapUnreachable)"
| "main_ok valid (MainPanicked f) = False"

fun main_energy :: "main_state \<Rightarrow> nat" where
  "main_energy (Pinging s q) = 2 * Suc id_count + 4"
| "main_energy (Joining s w) = potential w + Suc id_count + 3"
| "main_energy (Sleeping s) = Suc id_count + 2"
| "main_energy (Searching s target w) = potential w + 1"
| "main_energy x = 0"

lemma walk_start_potential: "potential (walk_start r ns) = Suc id_count"
  by (simp add: walk_start_def potential_def)

lemma find_start_ok:
  assumes "router_ok (srv_router s)"
  shows "\<exists>ns. find_start s target = Inr (walk_start (srv_router s) ns)"
  using bucket.lookup_ok [of "buckets (srv_router s)" target] assms
  by (auto simp: find_start_def router_lookup_def router_ok_def)

lemma after_ping_ok:
  assumes "router_ok (srv_router s)"
  shows "main_ok valid (after_ping s result) \<and> main_energy (after_ping s result) < 2 * Suc id_count + 4"
proof (cases result)
  case (Inl e)
  then show ?thesis by (simp add: after_ping_def bootstrap_start_def)
next
  case (Inr resp)
  obtain r where r: "router_add (srv_router s) (sender_node (origin (resp_base resp))) = Inr r"
    using router_add_total [OF assms] by blast
  then have "router_ok r" using router_add_ok [OF assms] by blast
  moreover from this obtain ns where "find_start (s\<lparr>srv_router := r\<rparr>) (router_own_id r) = Inr (walk_start r ns)"
    using find_start_ok [of "s\<lparr>srv_router := r\<rparr>"] by auto
  ultimately show ?thesis using Inr r walk_start_inv
    by (simp add: after_ping_def bootstrap_start_def Let_def walk_start_potential) (simp add: walk_start_def)
qed

lemma after_sleep_ok:
  assumes "router_ok (srv_router s)" "from_hex hex_decode SEARCHED = Inr target"
  shows "main_ok valid (after_sleep hex_decode s) \<and> main_energy (after_sleep hex_decode s) < Suc id_count + 2"
proof -
  obtain ns where "find_start s target = Inr (walk_start (srv_router s) ns)" using find_start_ok [OF assms(1)] by blast
  with assms walk_start_inv show ?thesis by (simp add: after_sleep_def walk_start_potential) (simp add: walk_start_def)
qed

lemma no_task_panics: "router_ok (wk_router w) \<Longrightarrow> \<not> task_panics find_peers w f"
  by (auto elim!: task_panics.cases) (metis Inl_Inr_False send_find_total)

lemma main_step_ok:
  assumes "main_step valid hex_decode x y" "main_ok valid x" "from_hex hex_decode SEARCHED = Inr target"
  shows "main_ok valid y \<and> main_energy y < main_energy x"
  using assms(1)
proof cases
  case (pinged s q result)
  with assms(2) after_ping_ok [of s valid result] show ?thesis by simp
next
  case (joins s w w')
  with assms(2) walk_step_inv [OF joins(3)] show ?thesis by auto
next
  case (joined w s)
  with assms(2) show ?thesis by (simp add: after_join_def walk_result_def k_closest_def)
next
  case (slept s)
  with assms(2) after_sleep_ok [OF _ assms(3), of s valid] show ?thesis by simp
next
  case (searches target w w' s)
  with assms(2) walk_step_inv [OF searches(3)] show ?thesis by auto
next
  case (searched w s target)
  with assms(2) show ?thesis by (simp add: after_search_def walk_result_def)
qed (use assms(2) no_task_panics in auto)

lemma main_progress:
  assumes "main_ok valid x" "\<nexists>y. main_step valid hex_decode x y"
  shows "(\<exists>s f. x = Done s f) \<or> x = Failed BootstrapUnreachable"
proof (cases x)
  case (Joining s w)
  with assms walk_can_step [of w valid False "router_own_id (srv_router s)"] show ?thesis by (auto intro: joins joined)
next
  case (Searching s target w)
  with assms walk_can_step [of w valid True target] show ?thesis by (auto intro: searches searched)
qed (use assms in \<open>auto intro: pinged slept\<close>)

text \<open>The text of the info hash is one that the crate \<open>hex\<close> reads.\<close>

definition reads_hash :: "(string \<Rightarrow> nat \<Rightarrow> 'e + bytes) \<Rightarrow> bool" where
  "reads_hash hex_decode \<longleftrightarrow> (\<exists>target. from_hex hex_decode SEARCHED = Inr target)"

interpretation program: bounded_system "main_step valid hex_decode"
    "\<lambda>x. main_ok valid x \<and> reads_hash hex_decode" main_energy
  by unfold_locales (unfold reads_hash_def, (blast dest: main_step_ok)+)

subsection \<open>A reader of hexadecimal text\<close>

definition hex_digit :: "char \<Rightarrow> u8" where
  "hex_digit c = (if CHR ''a'' \<le> c then of_nat (of_char c - 87) else if CHR ''A'' \<le> c then of_nat (of_char c - 55)
     else of_nat (of_char c - 48))"

fun unhex :: "string \<Rightarrow> nat \<Rightarrow> unit + bytes" where
  "unhex s n = (if length s = 2 * n then Inr (map (\<lambda>i. 16 * hex_digit (s ! (2 * i)) + hex_digit (s ! (2 * i + 1))) [0..<n]) else Inl ())"

lemma unhex_reads: "reads_hash unhex"
  by (simp add: reads_hash_def from_hex_def SEARCHED_def)

subsection \<open>Properties\<close>

lemma started_router_ok:
  assumes "main_start W (node_new open_db bucket_file bind crc rr rms rls key) = Inr (Inr (nd, target))" "isl bucket_file"
  shows "router_ok (srv_router (nd_server nd))"
proof -
  obtain addr ip where "node_new open_db bucket_file bind crc rr rms rls key addr True ip = Inr (Inr nd)"
    using main_start_node [OF assms(1)] by blast
  then obtain router where r: "router_new bucket_file (srv_me (nd_server nd)) = Inr router" "srv_router (nd_server nd) = router"
    by (elim node_newE) (metis server.select_convs(1))
  obtain e where "bucket_file = Inl e" using assms(2) by (cases bucket_file) simp_all
  with r router_ok_new show ?thesis by (simp add: router_new_empty) blast
qed



end
