(* ===== verification/KrpcTypes.thy ===== *)
theory KrpcTypes
  imports Message
begin

text \<open>
  Types for the trees that the bencode format carries, and the type of a KRPC message.  A tree has that
  type exactly when the derived \<open>Deserialize\<close> of \<open>KMessage\<close> accepts it: the type is a description of the
  accepted messages that does not mention the deserializer.
\<close>

subsection \<open>Types of trees\<close>

datatype ty =
    TUInt nat
  | TSInt nat
  | TFlag
  | TBytes
  | TId
  | TText
  | TError
  | TList ty
  | TRecord "(string \<times> ty) list" "(string \<times> ty) list"

definition is_uint :: "nat \<Rightarrow> bval \<Rightarrow> bool" where
  "is_uint n v = (case v of BInt i \<Rightarrow> 0 \<le> i \<and> i < 2 ^ n | _ \<Rightarrow> False)"

definition is_text :: "bval \<Rightarrow> bool" where
  "is_text v = (case v of BStr bs \<Rightarrow> utf8_valid bs | _ \<Rightarrow> False)"

text \<open>A record has required and optional fields; other keys may be present, a field may not come twice.\<close>

fun has_type :: "ty \<Rightarrow> bval \<Rightarrow> bool" where
  "has_type (TUInt n) v = is_uint n v"
| "has_type (TSInt n) v = (case v of BInt i \<Rightarrow> - (2 ^ (n - 1)) \<le> i \<and> i < 2 ^ (n - 1) | _ \<Rightarrow> False)"
| "has_type TFlag v = (v = BInt 0 \<or> v = BInt 1)"
| "has_type TBytes v = (case v of BStr bs \<Rightarrow> True | _ \<Rightarrow> False)"
| "has_type TId v = (case v of BStr bs \<Rightarrow> length bs \<le> 20 | _ \<Rightarrow> False)"
| "has_type TText v = is_text v"
| "has_type TError v =
     (case v of BList [] \<Rightarrow> True | BList [x] \<Rightarrow> is_uint 16 x | BList (x # y # vs) \<Rightarrow> is_uint 16 x \<and> is_text y | _ \<Rightarrow> False)"
| "has_type (TList t) v = (case v of BList vs \<Rightarrow> list_all (has_type t) vs | _ \<Rightarrow> False)"
| "has_type (TRecord req opt) v =
     (case v of
        BDict es \<Rightarrow>
          no_duplicates (map fst (req @ opt)) es \<and>
          list_all (\<lambda>(k, t). case map_of es k of None \<Rightarrow> False | Some x \<Rightarrow> has_type t x) req \<and>
          list_all (\<lambda>(k, t). case map_of es k of None \<Rightarrow> True | Some x \<Rightarrow> has_type t x) opt
      | _ \<Rightarrow> False)"

subsection \<open>The types of the KRPC records\<close>

definition args_type :: ty where
  "args_type = TRecord [(''id'', TId)]
     [(''target'', TId), (''port'', TUInt 16), (''implied_port'', TFlag), (''token'', TBytes), (''info_hash'', TId),
      (''v'', TBytes), (''seq'', TSInt 64), (''cas'', TSInt 64), (''k'', TBytes), (''salt'', TText), (''sig'', TBytes)]"

definition kresponse_type :: ty where
  "kresponse_type = TRecord [(''id'', TId)]
     [(''nodes'', TBytes), (''token'', TBytes), (''values'', TList TBytes),
      (''v'', TBytes), (''seq'', TSInt 64), (''k'', TBytes), (''sig'', TBytes),
      (''interval'', TUInt 16), (''samples'', TBytes), (''num'', TUInt 64)]"

definition kmessage_type :: ty where
  "kmessage_type = TRecord [(''y'', TText)]
     [(''t'', TBytes), (''q'', TText), (''a'', args_type), (''r'', kresponse_type), (''e'', TError),
      (''ip'', TBytes), (''ro'', TFlag), (''v'', TBytes)]"

subsection \<open>Acceptance\<close>

text \<open>A codec and the type of the trees it accepts.\<close>

definition accepts :: "(bval \<Rightarrow> 'a option) \<Rightarrow> ty \<Rightarrow> bool" where
  "accepts d t \<longleftrightarrow> (\<forall>v. (\<exists>a. d v = Some a) \<longleftrightarrow> has_type t v)"

named_theorems codecs \<open>the type that a codec accepts\<close>

lemma ok_of_Some: "(\<exists>a. ok_of x = Some a) \<longleftrightarrow> \<not> isl x"
  by (cases x) (simp_all add: ok_of_def)

lemma isl_de_uint: "isl (de_uint v :: de_error + 'a::len word) \<longleftrightarrow> \<not> is_uint LENGTH('a) v"
  by (auto simp: de_uint_def is_uint_def split: bval.split)

lemma isl_de_string: "isl (de_string v) \<longleftrightarrow> \<not> is_text v"
  by (auto simp: de_string_def is_text_def split: bval.split)

lemma accepts_uint: "accepts (\<lambda>v. ok_of (de_uint v :: de_error + 'a::len word)) (TUInt LENGTH('a))"
  by (simp add: accepts_def ok_of_Some isl_de_uint)

lemmas accepts_uint_widths [codecs] = accepts_uint [where ?'a = 16, simplified] accepts_uint [where ?'a = 64, simplified]

lemma accepts_sint [codecs]: "accepts de_i64 (TSInt 64)"
  by (auto simp: accepts_def de_i64_def split: bval.split)

lemma accepts_visit_bytes [codecs]: "accepts (\<lambda>v. map_option f (ok_of (de_bytes v))) TBytes"
  by (auto simp: accepts_def de_bytes_def ok_of_def split: bval.split)

lemma accepts_bytes [codecs]: "accepts (\<lambda>v. ok_of (de_bytes v)) TBytes"
  using accepts_visit_bytes [of id] by (simp add: option.map_id)

lemma accepts_addr [codecs]: "accepts de_addr TBytes"
  unfolding de_addr_def [abs_def] by (rule codecs)

lemma accepts_id [codecs]: "accepts de_u160 TId"
  by (auto simp: accepts_def de_u160_def de_bytes_def u160_visit_bytes_def ok_of_Some split: bval.split)

lemma accepts_text [codecs]: "accepts (\<lambda>v. ok_of (de_string v)) TText"
  by (simp add: accepts_def ok_of_Some isl_de_string)

lemma small_word:
  assumes "0 \<le> i" "i < 256"
  shows "(word_of_int i :: u8) = 0 \<longleftrightarrow> i = 0" "(word_of_int i :: u8) = 1 \<longleftrightarrow> i = 1"
  using assms by (simp_all add: word_uint_eq_iff uint_word_of_int)

lemma accepts_flag [codecs]: "accepts (\<lambda>v. ok_of (bool_from_int v)) TFlag"
proof -
  have "isl (bool_from_int v) \<longleftrightarrow> v \<noteq> BInt 0 \<and> v \<noteq> BInt 1" for v
    by (cases v) (auto simp: bool_from_int_def de_uint_def small_word)
  then show ?thesis by (simp add: accepts_def ok_of_Some)
qed

lemma accepts_error [codecs]: "accepts (\<lambda>v. ok_of (kerror_deserialize v)) TError"
proof -
  have "isl (kerror_deserialize (BList vs)) \<longleftrightarrow> \<not> has_type TError (BList vs)" for vs
    using isl_de_uint [where ?'a = 16, of "vs ! 0"] isl_de_string [of "vs ! 1"]
    by (cases vs; cases "tl vs"; cases "de_uint (vs ! 0) :: de_error + u16")
      (auto simp: kerror_deserialize_def kerror_visit_seq_def)
  then have "isl (kerror_deserialize v) \<longleftrightarrow> \<not> has_type TError v" for v
    by (cases v) (auto simp: kerror_deserialize_def)
  then show ?thesis by (simp add: accepts_def ok_of_Some)
qed

lemma accepts_list [codecs]: "accepts d t \<Longrightarrow> accepts (de_list d) (TList t)"
proof -
  assume d: "accepts d t"
  have "(\<exists>xs. those (map d vs) = Some xs) \<longleftrightarrow> list_all (has_type t) vs" for vs
  proof (induction vs)
    case (Cons a vs)
    moreover have "(\<exists>x. d a = Some x) \<longleftrightarrow> has_type t a" using d by (simp add: accepts_def)
    ultimately show ?case by (cases "d a"; cases "those (map d vs)") simp_all
  qed simp
  then show ?thesis by (auto simp: accepts_def de_list_def split: bval.split)
qed

subsection \<open>Records\<close>

lemma field_Some:
  assumes "accepts d t"
  shows "(\<exists>x. de_field es key d = Some x) \<longleftrightarrow> (case map_of es key of None \<Rightarrow> True | Some v \<Rightarrow> has_type t v)"
  using assms by (auto simp: accepts_def de_field_def split: option.split)

lemma required_Some:
  assumes "accepts d t"
  shows "(\<exists>v. map_of es key = Some v \<and> (\<exists>x. d v = Some x) \<and> P) \<longleftrightarrow>
    (case map_of es key of None \<Rightarrow> False | Some v \<Rightarrow> has_type t v) \<and> P"
  using assms by (auto simp: accepts_def split: option.split)

lemma bind_Some: "(\<exists>r. Option.bind a f = Some r) \<longleftrightarrow> (\<exists>x. a = Some x \<and> (\<exists>r. f x = Some r))"
  by (cases a) simp_all

lemma no_duplicates_Cons:
  "no_duplicates keys (e # es) \<longleftrightarrow> (fst e \<in> set keys \<longrightarrow> fst e \<notin> fst ` set es) \<and> no_duplicates keys es"
  by (auto simp: no_duplicates_def)

lemma no_duplicates_union:
  "set zs = set xs \<union> set ys \<Longrightarrow> no_duplicates zs es \<longleftrightarrow> no_duplicates xs es \<and> no_duplicates ys es"
  by (induction es) (auto simp: no_duplicates_Cons, simp_all add: no_duplicates_def)

lemmas record_simps = bind_Some codecs [THEN field_Some] accepts_id [THEN required_Some] accepts_text [THEN required_Some]

lemma record_type:
  "has_type (TRecord req opt) (BDict es) \<longleftrightarrow> no_duplicates (map fst (req @ opt)) es \<and>
     list_all (\<lambda>(k, t). case map_of es k of None \<Rightarrow> False | Some x \<Rightarrow> has_type t x) req \<and>
     list_all (\<lambda>(k, t). case map_of es k of None \<Rightarrow> True | Some x \<Rightarrow> has_type t x) opt"
  by simp

lemma if_Some: "(\<exists>x. (if b then None else y) = Some x) \<longleftrightarrow> \<not> b \<and> (\<exists>x. y = Some x)"
  by simp

lemma args_accepted [codecs]: "accepts args_deserialize args_type"
proof -
  have "no_duplicates [''id'', ''target'', ''port'', ''implied_port'', ''token'', ''info_hash'', ''v'', ''seq'', ''cas'',
        ''k'', ''salt'', ''sig''] es \<longleftrightarrow>
      no_duplicates [''id'', ''target'', ''port'', ''implied_port'', ''token'', ''info_hash''] es \<and>
      no_duplicates [''v'', ''seq'', ''cas'', ''k'', ''salt'', ''sig''] es" for es
    by (rule no_duplicates_union) auto
  then have "(\<exists>x. args_deserialize (BDict es) = Some x) \<longleftrightarrow> has_type args_type (BDict es)" for es
    unfolding args_type_def record_type args_deserialize_def args_bep44_de_def bval.case if_Some
    by (simp add: if_Some record_simps del: has_type.simps) blast
  then show ?thesis by (auto simp: accepts_def args_deserialize_def args_type_def split: bval.split)
qed

lemma kresponse_accepted [codecs]: "accepts kresponse_deserialize kresponse_type"
proof -
  have "no_duplicates [''id'', ''nodes'', ''token'', ''values'', ''v'', ''seq'', ''k'', ''sig'', ''interval'', ''samples'',
        ''num''] es \<longleftrightarrow> no_duplicates [''id'', ''nodes'', ''token'', ''values''] es \<and>
      no_duplicates [''v'', ''seq'', ''k'', ''sig'', ''interval'', ''samples'', ''num''] es" for es
    by (rule no_duplicates_union) auto
  moreover have "no_duplicates [''v'', ''seq'', ''k'', ''sig'', ''interval'', ''samples'', ''num''] es \<longleftrightarrow>
      no_duplicates [''v'', ''seq'', ''k'', ''sig''] es \<and> no_duplicates [''interval'', ''samples'', ''num''] es" for es
    by (rule no_duplicates_union) auto
  ultimately have "(\<exists>x. kresponse_deserialize (BDict es) = Some x) \<longleftrightarrow> has_type kresponse_type (BDict es)" for es
    unfolding kresponse_type_def record_type kresponse_deserialize_def kresponse_bep44_de_def response_bep51_de_def
      bval.case if_Some
    by (simp add: if_Some record_simps codecs [THEN accepts_list, THEN field_Some] del: has_type.simps) blast
  then show ?thesis by (auto simp: accepts_def kresponse_deserialize_def kresponse_type_def split: bval.split)
qed

lemma kmessage_accepted: "accepts kmessage_deserialize kmessage_type"
proof -
  have "no_duplicates [''y'', ''t'', ''q'', ''a'', ''r'', ''e'', ''ip'', ''ro'', ''v''] es \<longleftrightarrow>
      no_duplicates [''t'', ''y'', ''q'', ''a'', ''r'', ''e'', ''ip'', ''ro'', ''v''] es" for es
    by (subst no_duplicates_union [of _ "[''t'', ''y'', ''q'', ''a'', ''r'', ''e'', ''ip'', ''ro'', ''v'']" "[]"])
      (auto simp: no_duplicates_def)
  then have "(\<exists>x. kmessage_deserialize (BDict es) = Some x) \<longleftrightarrow> has_type kmessage_type (BDict es)" for es
    unfolding kmessage_type_def record_type kmessage_deserialize_def bval.case if_Some
    by (simp add: if_Some record_simps codecs [THEN field_Some] del: has_type.simps) blast
  then show ?thesis by (auto simp: accepts_def kmessage_deserialize_def kmessage_type_def split: bval.split)
qed

lemma received_typed: "(\<exists>k. kmessage_deserialize v = Some k) \<longleftrightarrow> has_type kmessage_type v"
  using kmessage_accepted by (simp add: accepts_def)

lemma receive_untyped:
  "receive bdecode bs a = Inl (None, Server) \<longleftrightarrow> (\<nexists>v. bdecode bs = Some v \<and> has_type kmessage_type v)"
  by (cases "bdecode bs") (auto simp: receive_def received_typed [symmetric] split: option.split sum.split)

lemma sent_typed:
  assumes "message_valid m"
  shows "\<exists>t. kmessage_serialize (to_kmsg m) = Inr t \<and> has_type kmessage_type (canon t)"
  using kmessage_roundtrip [OF to_kmsg_valid [OF assms]] received_typed by blast

subsection \<open>Properties\<close>



end
