(* ===== verification/Concurrent.thy ===== *)
theory Concurrent
  imports Router
begin

text \<open>
  The calls of a \<open>Router\<close> run as tasks: every query that arrives and every answer of a walk adds a
  node, every query that times out bans one, and they interleave wherever the Rust code waits for a
  lock.  The theory cuts \<open>add\<close> and \<open>ban_id\<close> (with \<open>add\<close>, \<open>add_or_update\<close>, \<open>make_next_bucket\<close> and
  \<open>remove\<close> of the buckets) at these points: one step reads or writes what one acquisition of a lock or
  one read of a \<open>OnceCell\<close> covers (the guard of a read in a condition is dropped before the next operand
  is evaluated).  A guard lives across steps only in the loop of
  \<open>make_next_bucket\<close>, which calls \<open>add\<close> of the next bucket while it holds its own.  The calls of
  \<open>lookup\<close>, which change nothing, are put beside these in \<open>Readers\<close>.

  The chain of buckets is the list of their vectors: \<open>next_bucket\<close> is set once and never unset, so it
  is set in all buckets but the last.  The bucket at position \<open>l\<close> has \<open>bucket_index\<close> \<open>l\<close>.
\<close>

subsection \<open>State\<close>

record shared =
  sh_own :: u160
  sh_k :: u8
  sh_levels :: "node_info list list"
  sh_banned :: "u160 list"

text \<open>Where a call of \<open>Bucket::add\<close> stands: before the first test of \<open>next_bucket\<close>, before the length is
  compared with \<open>k_size\<close>, before the write of \<open>add_or_update\<close>, before the second test of
  \<open>next_bucket\<close>, before the second comparison, at the call of \<open>make_next_bucket\<close>, before its write
  lock, in its loop at an index, before the test where the node belongs.\<close>

datatype add_pc = Enter | CheckRoom | Store | Recheck | CheckFull | MakeNext | LockNodes | MoveOut nat | Descend

datatype frame = Frame (fr_level: nat) (fr_pc: add_pc) (fr_node: node_info)

text \<open>A task that adds has a stack of calls, the innermost first; the others wait in their loops.\<close>

datatype task =
    AddCall node_info
  | Adding "frame list"
  | BanCall u160
  | Removing nat u160
  | RemoveHere nat u160
  | Finished
  | Panicked

subsection \<open>Steps of a task\<close>

definition belongs_at :: "shared \<Rightarrow> nat \<Rightarrow> u160 \<Rightarrow> bool" where
  "belongs_at s l i = get_bit (distance (sh_own s) i) (of_nat l)"

definition has_next :: "shared \<Rightarrow> nat \<Rightarrow> bool" where
  "has_next s l \<longleftrightarrow> Suc l < length (sh_levels s)"

definition set_level :: "shared \<Rightarrow> nat \<Rightarrow> node_info list \<Rightarrow> shared" where
  "set_level s l ns = s\<lparr>sh_levels := (sh_levels s)[l := ns]\<rparr>"

definition store :: "shared \<Rightarrow> nat \<Rightarrow> node_info \<Rightarrow> shared" where
  "store s l n =
     set_level s l (nodes (add_or_update (Bucket (sh_own s) (of_nat l) (sh_k s) (sh_levels s ! l) None) n))"

definition resume :: "frame list \<Rightarrow> task" where
  "resume fs = (if fs = [] then Finished else Adding fs)"

fun add_advance :: "shared \<Rightarrow> nat \<Rightarrow> add_pc \<Rightarrow> node_info \<Rightarrow> frame list \<Rightarrow> shared \<times> task" where
  "add_advance s l Enter n fs = (s, Adding (Frame l (if has_next s l then Recheck else CheckRoom) n # fs))"
| "add_advance s l CheckRoom n fs =
     (s, Adding (Frame l (if length (sh_levels s ! l) < unat (sh_k s) then Store else Recheck) n # fs))"
| "add_advance s l Store n fs = (store s l n, resume fs)"
| "add_advance s l Recheck n fs = (s, Adding (Frame l (if has_next s l then Descend else CheckFull) n # fs))"
| "add_advance s l CheckFull n fs =
     (s, Adding (Frame l (if length (sh_levels s ! l) = unat (sh_k s) then MakeNext else Descend) n # fs))"
| "add_advance s l MakeNext n fs =
     (if l = unat MAX_BUCKET_INDEX then (s, resume fs)
      else if has_next s l then (s, Adding (Frame l Descend n # fs))
      else (s\<lparr>sh_levels := sh_levels s @ [[]]\<rparr>, Adding (Frame l LockNodes n # fs)))"
| "add_advance s l LockNodes n fs = (s, Adding (Frame l (MoveOut 0) n # fs))"
| "add_advance s l (MoveOut i) n fs =
     (if i < length (sh_levels s ! l)
      then if belongs_at s l (node_id (sh_levels s ! l ! i)) then (s, Adding (Frame l (MoveOut (i + 1)) n # fs))
           else if \<not> has_next s l then (s, Panicked)
           else (case swap_remove (sh_levels s ! l) i of (m, ns) \<Rightarrow>
                  (set_level s l ns, Adding (Frame (l + 1) Enter m # Frame l (MoveOut i) n # fs)))
      else (s, Adding (Frame l Descend n # fs)))"
| "add_advance s l Descend n fs =
     (if \<not> belongs_at s l (node_id n)
      then if \<not> has_next s l then (s, Panicked) else (s, Adding (Frame (l + 1) Enter n # fs))
      else (s, Adding (Frame l Store n # fs)))"

fun advance :: "shared \<Rightarrow> task \<Rightarrow> shared \<times> task" where
  "advance s (AddCall n) =
     (s, if node_id n \<in> set (sh_banned s) then Finished else Adding [Frame 0 Enter n])"
| "advance s (Adding (Frame l pc n # fs)) = add_advance s l pc n fs"
| "advance s (BanCall i) = (s\<lparr>sh_banned := push_banned (sh_banned s) i\<rparr>, Removing 0 i)"
| "advance s (Removing l i) =
     (s, if \<not> has_next s l \<or> belongs_at s l i then RemoveHere l i else Removing (l + 1) i)"
| "advance s (RemoveHere l i) =
     (case position (\<lambda>n. node_id n = i) (sh_levels s ! l) of
        Some j \<Rightarrow> (set_level s l (vec_remove (sh_levels s ! l) j), Finished)
      | None \<Rightarrow> (s, Finished))"
| "advance s t = (s, t)"

subsection \<open>Locks and interleaving\<close>

text \<open>The bucket whose lock the next step of a task has to acquire, and the buckets whose write lock a
  task holds between its steps.\<close>

fun needs :: "task \<Rightarrow> nat option" where
  "needs (Adding (Frame l pc n # fs)) = (if pc \<in> {CheckRoom, Store, CheckFull, LockNodes} then Some l else None)"
| "needs (RemoveHere l i) = Some l"
| "needs t = None"

fun moving :: "add_pc \<Rightarrow> bool" where
  "moving (MoveOut i) = True"
| "moving pc = False"

fun held :: "task \<Rightarrow> nat list" where
  "held (Adding fs) = map fr_level (filter (\<lambda>f. moving (fr_pc f)) fs)"
| "held t = []"

definition running :: "task \<Rightarrow> bool" where
  "running t \<longleftrightarrow> t \<noteq> Finished \<and> t \<noteq> Panicked"

definition free_for :: "task list \<Rightarrow> task \<Rightarrow> bool" where
  "free_for ts t = (case needs t of None \<Rightarrow> True | Some l \<Rightarrow> list_all (\<lambda>u. l \<notin> set (held u)) ts)"

definition can_step :: "task list \<Rightarrow> nat \<Rightarrow> bool" where
  "can_step ts i \<longleftrightarrow> i < length ts \<and> running (ts ! i) \<and> free_for ts (ts ! i)"

definition step_task :: "nat \<Rightarrow> shared \<times> task list \<Rightarrow> shared \<times> task list" where
  "step_task i c = (case advance (fst c) (snd c ! i) of (s, t) \<Rightarrow> (s, (snd c)[i := t]))"

inductive task_step :: "shared \<times> task list \<Rightarrow> shared \<times> task list \<Rightarrow> bool" where
  one_task: "can_step ts i \<Longrightarrow> task_step (s, ts) (step_task i (s, ts))"

inductive_cases task_stepE: "task_step (s, ts) c'"

definition shared_of :: "router \<Rightarrow> shared" where
  "shared_of r = \<lparr>sh_own = own_id (buckets r), sh_k = k_size (buckets r), sh_levels = levels (buckets r),
     sh_banned = banned_ids r\<rparr>"

text \<open>A run of \<open>n\<close> steps from a router that is not in use and a list of calls.\<close>

definition fresh :: "task \<Rightarrow> bool" where
  "fresh t = (case t of AddCall n \<Rightarrow> True | BanCall i \<Rightarrow> True | _ \<Rightarrow> False)"

inductive tasks_run :: "router \<Rightarrow> task list \<Rightarrow> nat \<Rightarrow> shared \<times> task list \<Rightarrow> bool" for r :: router and calls :: "task list" where
  run_start: "list_all fresh calls \<Longrightarrow> tasks_run r calls 0 (shared_of r, calls)"
| run_step: "tasks_run r calls n c \<Longrightarrow> task_step c c' \<Longrightarrow> tasks_run r calls (Suc n) c'"

text \<open>A schedule names the task of every step.\<close>

fun schedule :: "nat list \<Rightarrow> shared \<times> task list \<Rightarrow> (shared \<times> task list) option" where
  "schedule [] c = Some c"
| "schedule (i # is) c = (if can_step (snd c) i then schedule is (step_task i c) else None)"

subsection \<open>Well-formed states\<close>

text \<open>Every call of a stack but the innermost one is in the loop of \<open>make_next_bucket\<close>, of a bucket
  above those of the calls it waits for.\<close>

definition frame_ok :: "nat \<Rightarrow> frame \<Rightarrow> bool" where
  "frame_ok d f \<longleftrightarrow> fr_level f < d \<and> (fr_pc f = LockNodes \<or> moving (fr_pc f) \<longrightarrow> Suc (fr_level f) < d)"

fun stack_ok :: "nat \<Rightarrow> frame list \<Rightarrow> bool" where
  "stack_ok d [] = True"
| "stack_ok d (f # fs) =
     (frame_ok d f \<and> stack_ok d fs \<and> (\<forall>g\<in>set fs. moving (fr_pc g) \<and> fr_level g < fr_level f))"

fun task_ok :: "nat \<Rightarrow> task \<Rightarrow> bool" where
  "task_ok d (Adding fs) = (fs \<noteq> [] \<and> stack_ok d fs)"
| "task_ok d (Removing l i) = (l < d)"
| "task_ok d (RemoveHere l i) = (l < d)"
| "task_ok d t = True"

definition vec_ok :: "u8 \<Rightarrow> node_info list \<Rightarrow> bool" where
  "vec_ok k ns \<longleftrightarrow> length ns \<le> unat k \<and> distinct (map node_id ns)"

definition shared_ok :: "shared \<Rightarrow> bool" where
  "shared_ok s \<longleftrightarrow> sh_levels s \<noteq> [] \<and> length (sh_levels s) \<le> 160 \<and> list_all (vec_ok (sh_k s)) (sh_levels s) \<and>
     length (sh_banned s) < BAN_COUNT"

lemma stack_ok_mono: "stack_ok d fs \<Longrightarrow> d \<le> d' \<Longrightarrow> stack_ok d' fs"
  by (induction fs) (auto simp: frame_ok_def)

lemma task_ok_mono: "task_ok d t \<Longrightarrow> d \<le> d' \<Longrightarrow> task_ok d' t"
  by (cases t) (auto intro: stack_ok_mono)

lemma task_ok_resume: "stack_ok d fs \<Longrightarrow> task_ok d (resume fs)"
  by (simp add: resume_def)

lemma set_level_simps [simp]:
  "sh_own (set_level s l ns) = sh_own s" "sh_k (set_level s l ns) = sh_k s" "sh_banned (set_level s l ns) = sh_banned s"
  "sh_levels (set_level s l ns) = (sh_levels s)[l := ns]"
  by (simp_all add: set_level_def)

lemma store_simps [simp]:
  "sh_own (store s l n) = sh_own s" "sh_k (store s l n) = sh_k s" "sh_banned (store s l n) = sh_banned s"
  "length (sh_levels (store s l n)) = length (sh_levels s)"
  by (simp_all add: store_def)

lemma stored_vec:
  "vec_ok (k_size b) (nodes b) \<Longrightarrow> vec_ok (k_size b) (nodes (add_or_update b n))"
  "length (nodes b) \<le> length (nodes (add_or_update b n))"
  "set (nodes (add_or_update b n)) \<subseteq> insert n (set (nodes b))"
proof -
  have "(vec_ok (k_size b) (nodes b) \<longrightarrow> vec_ok (k_size b) (nodes (add_or_update b n))) \<and>
    length (nodes b) \<le> length (nodes (add_or_update b n)) \<and> set (nodes (add_or_update b n)) \<subseteq> insert n (set (nodes b))"
  proof (cases "node_id n \<in> node_id ` set (nodes b)")
    case True
    then obtain ns where "add_or_update b n = with_nodes b ns" "mset ns = mset (nodes b)"
      using add_or_update_present by blast
    moreover from this have "length ns = length (nodes b)" "set ns = set (nodes b)"
        "distinct (map node_id ns) = distinct (map node_id (nodes b))"
      by (auto dest: mset_eq_length mset_eq_setD distinct_ids_mset)
    ultimately show ?thesis by (auto simp: vec_ok_def)
  next
    case False
    then show ?thesis by (auto simp: add_or_update_absent vec_ok_def)
  qed
  then show "vec_ok (k_size b) (nodes b) \<Longrightarrow> vec_ok (k_size b) (nodes (add_or_update b n))"
    "length (nodes b) \<le> length (nodes (add_or_update b n))"
    "set (nodes (add_or_update b n)) \<subseteq> insert n (set (nodes b))" by blast+
qed

lemma shared_ok_level: "shared_ok s \<Longrightarrow> l < length (sh_levels s) \<Longrightarrow> vec_ok (sh_k s) (sh_levels s ! l)"
  by (simp add: shared_ok_def list_all_length)

lemma shared_ok_set_level: "shared_ok s \<Longrightarrow> vec_ok (sh_k s) ns \<Longrightarrow> shared_ok (set_level s l ns)"
  by (auto simp: shared_ok_def list_all_iff dest!: subsetD [OF set_update_subset_insert])

lemma shared_ok_store: "shared_ok s \<Longrightarrow> l < length (sh_levels s) \<Longrightarrow> shared_ok (store s l n)"
  unfolding store_def using stored_vec(1) [of "Bucket (sh_own s) (of_nat l) (sh_k s) (sh_levels s ! l) None" n]
  by (intro shared_ok_set_level) (simp_all add: shared_ok_level)

lemma vec_ok_mset:
  assumes "vec_ok k xs" "mset xs = add_mset x (mset ys)"
  shows "vec_ok k ys"
proof -
  have "mset xs = mset (x # ys)" using assms(2) by simp
  from mset_eq_length [OF this] distinct_ids_mset [OF this] assms(1) show ?thesis by (simp add: vec_ok_def)
qed

lemma vec_ok_removed:
  assumes "vec_ok k xs" "i < length xs"
  shows "vec_ok k (snd (swap_remove xs i))" "vec_ok k (vec_remove xs i)"
  by (rule vec_ok_mset [OF assms(1) mset_swap_remove [OF assms(2)]]) (rule vec_ok_mset [OF assms(1) mset_vec_remove [OF assms(2)]])

lemma of_frame:
  "frame_ok d (Frame l pc n) \<longleftrightarrow> l < d \<and> (pc = LockNodes \<or> moving pc \<longrightarrow> Suc l < d)"
  by (simp add: frame_ok_def)

lemma max_index: "unat MAX_BUCKET_INDEX = 159"
  by (simp add: MAX_BUCKET_INDEX_def)

text \<open>The outcomes of the two steps with several branches.\<close>

lemma make_next_cases:
  assumes "add_advance s l MakeNext n fs = (s', t')"
  obtains (last) "l = 159" "s' = s" "t' = resume fs"
  | (raced) "l \<noteq> 159" "has_next s l" "s' = s" "t' = Adding (Frame l Descend n # fs)"
  | (made) "l \<noteq> 159" "\<not> has_next s l" "s' = s\<lparr>sh_levels := sh_levels s @ [[]]\<rparr>" "t' = Adding (Frame l LockNodes n # fs)"
proof -
  consider "l = 159" | "l \<noteq> 159" "has_next s l" | "l \<noteq> 159" "\<not> has_next s l" by blast
  then show thesis using assms by cases (simp_all add: max_index last raced made)
qed

lemma move_out_cases:
  assumes "add_advance s l (MoveOut i) n fs = (s', t')" "has_next s l"
  obtains (ended) "length (sh_levels s ! l) \<le> i" "s' = s" "t' = Adding (Frame l Descend n # fs)"
  | (stays) "i < length (sh_levels s ! l)" "s' = s" "t' = Adding (Frame l (MoveOut (Suc i)) n # fs)"
  | (moves) m ns where "i < length (sh_levels s ! l)" "swap_remove (sh_levels s ! l) i = (m, ns)"
      "s' = set_level s l ns" "t' = Adding (Frame (Suc l) Enter m # Frame l (MoveOut i) n # fs)"
proof -
  consider "length (sh_levels s ! l) \<le> i" | "i < length (sh_levels s ! l)" "belongs_at s l (node_id (sh_levels s ! l ! i))"
    | "i < length (sh_levels s ! l)" "\<not> belongs_at s l (node_id (sh_levels s ! l ! i))" by linarith
  then show thesis
  proof cases
    case 3
    with assms show thesis by (intro moves [of "fst (swap_remove (sh_levels s ! l) i)" "snd (swap_remove (sh_levels s ! l) i)"])
        (simp_all add: split_beta)
  qed (use assms in \<open>simp_all add: ended stays\<close>)
qed

lemma add_advance_ok:
  assumes "shared_ok s" "stack_ok (length (sh_levels s)) (Frame l pc n # fs)" "add_advance s l pc n fs = (s', t')"
  shows "shared_ok s' \<and> task_ok (length (sh_levels s')) t' \<and> length (sh_levels s) \<le> length (sh_levels s')"
proof -
  let ?d = "length (sh_levels s)"
  from assms(2) have l: "l < ?d" and fs: "stack_ok ?d fs" "\<forall>g\<in>set fs. moving (fr_pc g) \<and> fr_level g < l"
    by (simp_all add: frame_ok_def)
  have top: "task_ok ?d (Adding (Frame m q n' # fs)) \<longleftrightarrow> frame_ok ?d (Frame m q n')" if "l \<le> m" for m q n'
    using fs that by fastforce
  have res: "task_ok ?d (resume fs)" by (rule task_ok_resume [OF fs(1)])
  show ?thesis
  proof (cases pc)
    case MakeNext
    from assms(3) [unfolded MakeNext] show ?thesis
    proof (cases rule: make_next_cases)
      case made
      then show ?thesis using assms(1) l fs stack_ok_mono [OF fs(1), of "Suc ?d"]
        by (auto simp: shared_ok_def vec_ok_def frame_ok_def has_next_def)
    qed (use assms(1) res top [of l Descend n] l in \<open>auto simp: of_frame\<close>)
  next
    case (MoveOut i)
    from assms(2) MoveOut have "has_next s l" by (simp add: frame_ok_def has_next_def)
    with assms(3) [unfolded MoveOut] show ?thesis
    proof (cases rule: move_out_cases)
      case (moves m ns)
      have "task_ok ?d (Adding (Frame (Suc l) Enter m # Frame l (MoveOut i) n # fs))"
        using \<open>has_next s l\<close> fs by (auto simp: frame_ok_def has_next_def)
      with moves shared_ok_set_level [OF assms(1) vec_ok_removed(1) [OF shared_ok_level [OF assms(1) l] moves(1)]]
      show ?thesis by simp
    qed (use assms(1) \<open>has_next s l\<close> l top [of l] in \<open>auto simp: of_frame has_next_def\<close>)
  next
    case Store
    with assms(1,3) shared_ok_store [OF assms(1) l] res show ?thesis by auto
  next
    case Descend
    with assms(1,3) l top [of l Store n] top [of "Suc l" Enter n] show ?thesis
      by (auto simp: of_frame has_next_def split: if_split_asm)
  qed (use assms(1,3) assms(2) l fs in \<open>auto simp: of_frame\<close>)
qed

lemma advance_ok:
  assumes "shared_ok s" "task_ok (length (sh_levels s)) t" "advance s t = (s', t')"
  shows "shared_ok s' \<and> task_ok (length (sh_levels s')) t' \<and> length (sh_levels s) \<le> length (sh_levels s')"
proof (cases t)
  case (Adding gs)
  with assms(2) obtain l pc n fs where "gs = Frame l pc n # fs" by (cases gs; cases "hd gs") auto
  with add_advance_ok [OF assms(1)] assms(2,3) Adding show ?thesis by simp
next
  case (RemoveHere l i)
  then have "vec_ok (sh_k s) (vec_remove (sh_levels s ! l) j)" if "position (\<lambda>n. node_id n = i) (sh_levels s ! l) = Some j" for j
    using position_Some [OF that] vec_ok_removed(2) [OF shared_ok_level [OF assms(1)]] assms(2) by simp
  with RemoveHere assms show ?thesis by (auto simp: shared_ok_set_level split: option.split_asm)
qed (use assms in \<open>auto simp: shared_ok_def frame_ok_def has_next_def push_banned_props split: if_split_asm\<close>)

definition state_ok :: "shared \<times> task list \<Rightarrow> bool" where
  "state_ok c \<longleftrightarrow> shared_ok (fst c) \<and> list_all (task_ok (length (sh_levels (fst c)))) (snd c)"

lemma task_step_ok:
  assumes "task_step c c'" "state_ok c"
  shows "state_ok c'"
  using assms
proof cases
  case (one_task ts i s)
  obtain s' t' where a: "advance s (ts ! i) = (s', t')" by fastforce
  have "shared_ok s' \<and> task_ok (length (sh_levels s')) t' \<and> length (sh_levels s) \<le> length (sh_levels s')"
    using one_task assms(2) a by (intro advance_ok [of s "ts ! i"]) (simp_all add: state_ok_def can_step_def list_all_length)
  moreover have "task_ok (length (sh_levels s')) (ts[i := t'] ! j)"
    if "task_ok (length (sh_levels s')) t'" "length (sh_levels s) \<le> length (sh_levels s')" "j < length ts" for j
    using that one_task(1) assms(2) task_ok_mono [OF _ that(2), of "ts ! j"]
    by (cases "j = i") (auto simp: state_ok_def list_all_length)
  ultimately show ?thesis using one_task by (auto simp: state_ok_def step_task_def a list_all_length)
qed

lemma levels_ok: "bucket_ok b \<Longrightarrow> levels b \<noteq> [] \<and> length (levels b) + unat (bucket_index b) \<le> 160 \<and>
    list_all (vec_ok (k_size b)) (levels b)"
proof (induction b)
  case (Bucket own index k ns nx)
  then show ?case by (cases nx) (auto simp: vec_ok_def unat_index_Suc word_le_nat_alt)
qed

lemma shared_of_ok: "router_ok r \<Longrightarrow> shared_ok (shared_of r)"
  using levels_ok [of "buckets r"] by (auto simp: router_ok_def table_ok_def shared_ok_def shared_of_def)

lemma tasks_run_ok: "tasks_run r calls n c \<Longrightarrow> router_ok r \<Longrightarrow> state_ok c"
proof (induction rule: tasks_run.induct)
  case run_start
  moreover have "fresh t \<Longrightarrow> task_ok d t" for t d by (cases t) (simp_all add: fresh_def)
  ultimately show ?case using shared_of_ok by (auto simp: state_ok_def list_all_iff)
qed (blast intro: task_step_ok)

subsection \<open>Termination\<close>

text \<open>A call at level \<open>l\<close> costs at most ten units for each level from \<open>l\<close> on; each node that a loop of
  \<open>make_next_bucket\<close> has still to look at may cost a whole call; and each bucket that does not exist
  yet is a reserve for the loop that will fill it.\<close>

fun rank :: "add_pc \<Rightarrow> nat" where
  "rank Enter = 9" | "rank CheckRoom = 8" | "rank Recheck = 7" | "rank CheckFull = 6" | "rank MakeNext = 5"
| "rank LockNodes = 4" | "rank (MoveOut i) = 3" | "rank Descend = 2" | "rank Store = 1"

fun to_move :: "shared \<Rightarrow> nat \<Rightarrow> add_pc \<Rightarrow> nat" where
  "to_move s l LockNodes = unat (sh_k s)"
| "to_move s l (MoveOut i) = length (sh_levels s ! l) - i"
| "to_move s l pc = 0"

fun frame_weight :: "shared \<Rightarrow> frame \<Rightarrow> nat" where
  "frame_weight s (Frame l pc n) = 10 * (159 - l) + rank pc + 1601 * to_move s l pc"

fun task_weight :: "shared \<Rightarrow> task \<Rightarrow> nat" where
  "task_weight s (AddCall n) = 1600"
| "task_weight s (Adding fs) = sum_list (map (frame_weight s) fs)"
| "task_weight s (BanCall i) = 163"
| "task_weight s (Removing l i) = 162 - l"
| "task_weight s (RemoveHere l i) = 1"
| "task_weight s t = 0"

definition reserve :: "shared \<Rightarrow> nat" where
  "reserve s = (160 - length (sh_levels s)) * (1601 * unat (sh_k s))"

definition potential :: "shared \<times> task list \<Rightarrow> nat" where
  "potential c = reserve (fst c) + sum_list (map (task_weight (fst c)) (snd c))"

text \<open>Only a step that holds the lock of a bucket makes its vector longer.\<close>

lemma advance_shrinks:
  assumes "advance s t = (s', t')"
  shows "sh_k s' = sh_k s" "sh_own s' = sh_own s"
    and "l < length (sh_levels s) \<Longrightarrow> needs t \<noteq> Some l \<Longrightarrow> length (sh_levels s' ! l) \<le> length (sh_levels s ! l)"
proof -
  have "sh_k s' = sh_k s \<and> sh_own s' = sh_own s \<and>
    (l < length (sh_levels s) \<longrightarrow> needs t \<noteq> Some l \<longrightarrow> length (sh_levels s' ! l) \<le> length (sh_levels s ! l))"
  proof (cases t)
    case (Adding gs)
    show ?thesis
    proof (cases gs)
      case Nil
      with Adding assms show ?thesis by simp
    next
      case (Cons f fs)
      obtain m pc n where f: "f = Frame m pc n" by (cases f)
      have "add_advance s m pc n fs = (s', t')" using assms Adding Cons f by simp
      then show ?thesis using Adding Cons f
        by (cases pc; cases "m = l") (auto simp: nth_append swap_remove_def store_def split: if_split_asm)
    qed
  next
    case (RemoveHere m i)
    then show ?thesis using assms
      by (cases "m = l") (auto simp: vec_remove_def split: option.split_asm dest: position_Some)
  qed (use assms in auto)
  then show "sh_k s' = sh_k s" "sh_own s' = sh_own s"
    "l < length (sh_levels s) \<Longrightarrow> needs t \<noteq> Some l \<Longrightarrow> length (sh_levels s' ! l) \<le> length (sh_levels s ! l)"
    by blast+
qed

lemma frame_weight_mono:
  assumes "sh_k s' = sh_k s" "moving (fr_pc f) \<Longrightarrow> length (sh_levels s' ! fr_level f) \<le> length (sh_levels s ! fr_level f)"
  shows "frame_weight s' f \<le> frame_weight s f"
  using assms by (cases f; cases "fr_pc f") auto

lemma stack_weight_mono:
  assumes "sh_k s' = sh_k s"
    "\<And>f. f \<in> set fs \<Longrightarrow> moving (fr_pc f) \<Longrightarrow> length (sh_levels s' ! fr_level f) \<le> length (sh_levels s ! fr_level f)"
  shows "sum_list (map (frame_weight s') fs) \<le> sum_list (map (frame_weight s) fs)"
  by (rule sum_list_mono) (rule frame_weight_mono, use assms in auto)

lemma stack_ok_level: "stack_ok d fs \<Longrightarrow> f \<in> set fs \<Longrightarrow> fr_level f < d"
  by (induction fs) (auto simp: frame_ok_def)

lemma weight_others:
  assumes "advance s t = (s', t')" "task_ok (length (sh_levels s)) u" "\<And>l. needs t = Some l \<Longrightarrow> l \<notin> set (held u)"
  shows "task_weight s' u \<le> task_weight s u"
proof (cases u)
  case (Adding fs)
  with assms(2) have ok: "stack_ok (length (sh_levels s)) fs" by simp
  have "length (sh_levels s' ! fr_level f) \<le> length (sh_levels s ! fr_level f)" if "f \<in> set fs" "moving (fr_pc f)" for f
    using that assms(3) Adding by (intro advance_shrinks(3) [OF assms(1) stack_ok_level [OF ok]]) auto
  with Adding show ?thesis by (simp add: stack_weight_mono [OF advance_shrinks(1) [OF assms(1)]])
qed simp_all

lemma weight_resume [simp]: "task_weight s (resume fs) = sum_list (map (frame_weight s) fs)"
  by (simp add: resume_def)

lemma weight_add_advance:
  assumes "shared_ok s" "stack_ok (length (sh_levels s)) (Frame l pc n # fs)" "add_advance s l pc n fs = (s', t')"
  shows "reserve s' + task_weight s' t' < reserve s + task_weight s (Adding (Frame l pc n # fs))"
proof -
  let ?d = "length (sh_levels s)"
  have d: "?d \<le> 160" using assms(1) by (simp add: shared_ok_def)
  from assms(2) have l: "l < ?d" and fs: "stack_ok ?d fs" "\<forall>g\<in>set fs. moving (fr_pc g) \<and> fr_level g < l"
    by (simp_all add: frame_ok_def)
  have a: "advance s (Adding (Frame l pc n # fs)) = (s', t')" using assms(3) by simp
  have "length (sh_levels s' ! fr_level f) \<le> length (sh_levels s ! fr_level f)" if "f \<in> set fs" for f
    using that fs stack_ok_level [OF fs(1)] by (intro advance_shrinks(3) [OF a]) auto
  then have below: "sum_list (map (frame_weight s') fs) \<le> sum_list (map (frame_weight s) fs)"
    by (intro stack_weight_mono advance_shrinks(1) [OF a])
  have len: "length (sh_levels s ! l) \<le> unat (sh_k s)" using shared_ok_level [OF assms(1) l] by (simp add: vec_ok_def)
  show ?thesis
  proof (cases pc)
    case MakeNext
    from assms(3) [unfolded MakeNext] show ?thesis
    proof (cases rule: make_next_cases)
      case made
      with l d have "160 - ?d = Suc (160 - Suc ?d)" by (simp add: has_next_def)
      with made MakeNext below show ?thesis by (simp add: reserve_def)
    qed (use MakeNext below in auto)
  next
    case (MoveOut i)
    from assms(2) MoveOut have "has_next s l" by (simp add: frame_ok_def has_next_def)
    with assms(3) [unfolded MoveOut] show ?thesis
    proof (cases rule: move_out_cases)
      case (moves m ns)
      then have "length ns = length (sh_levels s ! l) - 1" using length_swap_remove [of "sh_levels s ! l" i] by simp
      with moves MoveOut below l d show ?thesis by (simp add: reserve_def)
    qed (use MoveOut below d l in \<open>auto simp: reserve_def\<close>)
  next
    case Store
    with assms(3) below show ?thesis by (auto simp: reserve_def)
  next
    case Descend
    with assms(3) below d l show ?thesis by (auto simp: has_next_def split: if_split_asm)
  next
    case LockNodes
    with assms(3) below len show ?thesis by auto
  qed (use assms(3) below in \<open>auto split: if_split_asm\<close>)
qed

lemma weight_advance:
  assumes "shared_ok s" "task_ok (length (sh_levels s)) t" "advance s t = (s', t')" "running t"
  shows "reserve s' + task_weight s' t' < reserve s + task_weight s t"
proof (cases t)
  case (Adding gs)
  with assms(2) obtain l pc n fs where "gs = Frame l pc n # fs" by (cases gs; cases "hd gs") auto
  with weight_add_advance [OF assms(1)] assms(2,3) Adding show ?thesis by simp
next
  case (Removing l i)
  with assms show ?thesis by (auto simp: shared_ok_def split: if_split_asm)
qed (use assms in \<open>auto simp: reserve_def running_def split: if_split_asm option.split_asm\<close>)

lemma sum_list_replaced:
  assumes "i < length ts" "\<And>j. j < length ts \<Longrightarrow> j \<noteq> i \<Longrightarrow> f (ts ! j) \<le> g (ts ! j)" "a + f t < b + (g (ts ! i) :: nat)"
  shows "a + sum_list (map f (ts[i := t])) < b + sum_list (map g ts)"
proof -
  have "f x \<le> g x" if x: "x \<in> set (take i ts)" for x
    using x assms(1,2) by (auto simp: in_set_conv_nth)
  moreover have "f x \<le> g x" if x: "x \<in> set (drop (Suc i) ts)" for x
  proof -
    from x obtain j where "j < length (drop (Suc i) ts)" "x = drop (Suc i) ts ! j" by (auto simp: in_set_conv_nth)
    with assms(2) [of "Suc i + j"] show ?thesis by simp
  qed
  ultimately have "sum_list (map f (take i ts)) \<le> sum_list (map g (take i ts))"
    "sum_list (map f (drop (Suc i) ts)) \<le> sum_list (map g (drop (Suc i) ts))"
    by (auto intro!: sum_list_mono)
  moreover have "sum_list (map g ts) = sum_list (map g (take i ts)) + g (ts ! i) + sum_list (map g (drop (Suc i) ts))"
    by (subst id_take_nth_drop [OF assms(1)]) simp
  ultimately show ?thesis using assms(1,3) by (simp add: upd_conv_take_nth_drop)
qed

lemma potential_less:
  assumes "task_step c c'" "state_ok c"
  shows "potential c' < potential c"
  using assms
proof cases
  case (one_task ts i s)
  obtain s' t' where a: "advance s (ts ! i) = (s', t')" by fastforce
  have i: "i < length ts" "running (ts ! i)" "free_for ts (ts ! i)" using one_task by (simp_all add: can_step_def)
  have ok: "shared_ok s" "\<And>j. j < length ts \<Longrightarrow> task_ok (length (sh_levels s)) (ts ! j)"
    using assms(2) one_task by (simp_all add: state_ok_def list_all_length)
  have "task_weight s' (ts ! j) \<le> task_weight s (ts ! j)" if "j < length ts" for j
    using i(3) that by (intro weight_others [OF a ok(2)]) (auto simp: free_for_def list_all_length)
  with weight_advance [OF ok(1) ok(2) [OF i(1)] a i(2)] i(1)
  have "reserve s' + sum_list (map (task_weight s') (ts[i := t'])) < reserve s + sum_list (map (task_weight s) ts)"
    by (intro sum_list_replaced) auto
  with one_task a show ?thesis by (simp add: potential_def step_task_def)
qed

interpretation tasks: bounded_system task_step state_ok potential
  by unfold_locales (rule task_step_ok potential_less; assumption)+

lemma tasks_run_relpow: "tasks_run r calls n c \<Longrightarrow> (task_step ^^ n) (shared_of r, calls) c"
  by (induction rule: tasks_run.induct) auto

lemma tasks_run_fresh: "tasks_run r calls n c \<Longrightarrow> list_all fresh calls"
  by (induction rule: tasks_run.induct)

lemma fresh_weight: "fresh t \<Longrightarrow> task_weight s t \<le> 1600"
  by (cases t) (simp_all add: fresh_def)

lemma potential_start:
  assumes "list_all fresh calls"
  shows "potential (shared_of r, calls) \<le> 256160 * capacity (buckets r) + 1600 * length calls"
proof -
  have "sum_list (map (task_weight s) calls) \<le> sum_list (map (\<lambda>t. 1600) calls)" for s
    using assms by (intro sum_list_mono) (auto simp: list_all_iff fresh_weight)
  moreover have "reserve (shared_of r) \<le> 160 * (1601 * capacity (buckets r))"
    by (auto simp: reserve_def shared_of_def capacity_def)
  ultimately show ?thesis by (simp add: potential_def sum_list_triv add_mono mult.commute le_trans)
qed

subsection \<open>Progress\<close>

lemma free_if_unheld: "(\<And>l u. needs t = Some l \<Longrightarrow> u \<in> set ts \<Longrightarrow> l \<notin> set (held u)) \<Longrightarrow> free_for ts t"
  by (auto simp: free_for_def list_all_iff split: option.split)

lemma can_step_task: "can_step ts i \<Longrightarrow> \<exists>c'. task_step (s, ts) c'"
  by (blast intro: one_task)

text \<open>The task that holds the lowest bucket waits for none of the buckets that are held.\<close>

lemma deepest_free:
  assumes "task_ok d u" "m \<in> set (held u)" "\<And>v l. v \<in> set ts \<Longrightarrow> l \<in> set (held v) \<Longrightarrow> l \<le> m"
  shows "running u \<and> free_for ts u"
proof -
  from assms(2) obtain fs where u: "u = Adding fs" by (cases u) auto
  with assms(1) obtain l pc n gs where fs: "fs = Frame l pc n # gs" by (cases fs; cases "hd fs") auto
  have "free_for ts u"
  proof (rule free_if_unheld)
    fix k v
    assume k: "needs u = Some k" and v: "v \<in> set ts"
    then have "k = l" "\<not> moving pc" using u fs by (auto split: if_split_asm)
    moreover from this(2) assms(1,2) u fs have "m < l" by auto
    ultimately show "k \<notin> set (held v)" using assms(3) [OF v, of k] by auto
  qed
  then show ?thesis using u by (simp add: running_def)
qed

lemma some_task_steps:
  assumes "state_ok (s, ts)" "t \<in> set ts" "running t"
  shows "\<exists>c'. task_step (s, ts) c'"
proof (cases "\<exists>u\<in>set ts. held u \<noteq> []")
  case True
  let ?H = "\<Union>u\<in>set ts. set (held u)"
  have "finite ?H" "?H \<noteq> {}" using True by auto
  then have "Max ?H \<in> ?H" by (rule Max_in)
  then obtain u where u: "u \<in> set ts" "Max ?H \<in> set (held u)" by blast
  have "task_ok (length (sh_levels s)) u" using assms(1) u(1) by (simp add: state_ok_def list_all_iff)
  moreover have "l \<le> Max ?H" if "v \<in> set ts" "l \<in> set (held v)" for v l
    using that \<open>finite ?H\<close> by (intro Max_ge) auto
  ultimately have "running u" "free_for ts u" using deepest_free [OF _ u(2)] by blast+
  with u(1) show ?thesis by (metis can_step_def can_step_task in_set_conv_nth)
next
  case False
  then have "free_for ts t" by (intro free_if_unheld) auto
  with assms(2,3) show ?thesis by (metis can_step_def can_step_task in_set_conv_nth)
qed

subsection \<open>Only known nodes\<close>

fun task_nodes :: "task \<Rightarrow> node_info set" where
  "task_nodes (AddCall n) = {n}"
| "task_nodes (Adding fs) = fr_node ` set fs"
| "task_nodes t = {}"

definition level_nodes :: "shared \<Rightarrow> node_info set" where
  "level_nodes s = \<Union> (set ` set (sh_levels s))"

lemma level_nodes_set:
  assumes "set ns \<subseteq> A" "level_nodes s \<subseteq> A"
  shows "level_nodes (set_level s l ns) \<subseteq> A"
proof -
  have "set xs \<subseteq> A" if "xs \<in> set ((sh_levels s)[l := ns])" for xs
    using that assms set_update_subset_insert [of "sh_levels s" l ns] by (auto simp: level_nodes_def)
  then show ?thesis by (auto simp: level_nodes_def)
qed

lemma level_nodes_nth: "l < length (sh_levels s) \<Longrightarrow> set (sh_levels s ! l) \<subseteq> level_nodes s"
  unfolding level_nodes_def using nth_mem [of l "sh_levels s"] by blast

lemma level_nodes_store:
  assumes "l < length (sh_levels s)" "level_nodes s \<subseteq> A" "n \<in> A"
  shows "level_nodes (store s l n) \<subseteq> A"
  unfolding store_def
  using stored_vec(3) [of "Bucket (sh_own s) (of_nat l) (sh_k s) (sh_levels s ! l) None" n]
    level_nodes_nth [OF assms(1)] assms(2,3)
  by (intro level_nodes_set) auto

lemma set_swap_remove: "i < length xs \<Longrightarrow> xs ! i \<in> set xs \<and> set (snd (swap_remove xs i)) \<subseteq> set xs"
  using arg_cong [OF mset_swap_remove [of i xs], of set_mset] by auto

lemma fst_swap_remove: "fst (swap_remove xs i) = xs ! i"
  by (simp add: swap_remove_def)

lemma nodes_resume: "task_nodes (resume fs) = fr_node ` set fs"
  by (simp add: resume_def)

lemma moved_out_nodes:
  assumes "l < length (sh_levels s)" "i < length (sh_levels s ! l)" "level_nodes s \<subseteq> A"
  shows "level_nodes (set_level s l (snd (swap_remove (sh_levels s ! l) i))) \<subseteq> A" "sh_levels s ! l ! i \<in> A"
proof -
  have lv: "set (sh_levels s ! l) \<subseteq> A" using level_nodes_nth [OF assms(1)] assms(3) by (rule subset_trans)
  note sr = set_swap_remove [OF assms(2)]
  show "level_nodes (set_level s l (snd (swap_remove (sh_levels s ! l) i))) \<subseteq> A"
    by (rule level_nodes_set [OF subset_trans [OF conjunct2 [OF sr] lv] assms(3)])
  show "sh_levels s ! l ! i \<in> A" by (rule subsetD [OF lv conjunct1 [OF sr]])
qed

lemma removed_nodes:
  assumes "l < length (sh_levels s)" "level_nodes s \<subseteq> A"
  shows "level_nodes (set_level s l (vec_remove (sh_levels s ! l) j)) \<subseteq> A"
  by (rule level_nodes_set [OF subset_trans [OF set_vec_remove_subset subset_trans [OF level_nodes_nth [OF assms(1)] assms(2)]] assms(2)])

lemma grown_nodes: "level_nodes (s\<lparr>sh_levels := sh_levels s @ [[]]\<rparr>) = level_nodes s"
  by (simp add: level_nodes_def)

lemma add_advance_nodes:
  assumes "l < length (sh_levels s)" "level_nodes s \<subseteq> A" "n \<in> A" "fr_node ` set fs \<subseteq> A"
  shows "level_nodes (fst (add_advance s l pc n fs)) \<subseteq> A \<and> task_nodes (snd (add_advance s l pc n fs)) \<subseteq> A"
  using assms
  by (cases pc) (simp_all add: nodes_resume grown_nodes level_nodes_store moved_out_nodes split_beta fst_swap_remove)

lemma advance_nodes:
  assumes "task_ok (length (sh_levels s)) t" "level_nodes s \<subseteq> A" "task_nodes t \<subseteq> A"
  shows "level_nodes (fst (advance s t)) \<subseteq> A \<and> task_nodes (snd (advance s t)) \<subseteq> A"
proof (cases t)
  case (Adding gs)
  with assms(1) obtain l pc n fs where gs: "gs = Frame l pc n # fs" by (cases gs; cases "hd gs") auto
  with Adding assms add_advance_nodes [OF _ assms(2)] show ?thesis by (simp add: frame_ok_def)
next
  case (RemoveHere l i)
  with assms removed_nodes show ?thesis by (simp split: option.split)
qed (use assms in \<open>simp_all add: level_nodes_def\<close>)

lemma levels_nodes: "\<Union> (set ` set (levels b)) = set (all_nodes b)"
  by (induction b) (auto split: option.splits)

lemma task_step_nodes:
  assumes "task_step c c'" "state_ok c" "level_nodes (fst c) \<union> \<Union> (task_nodes ` set (snd c)) \<subseteq> A"
  shows "level_nodes (fst c') \<union> \<Union> (task_nodes ` set (snd c')) \<subseteq> A"
  using assms(1)
proof cases
  case (one_task ts i s)
  obtain s' t' where a: "advance s (ts ! i) = (s', t')" by fastforce
  have "task_ok (length (sh_levels s)) (ts ! i)" "i < length ts"
    using assms(2) one_task by (auto simp: state_ok_def list_all_length can_step_def)
  moreover from this(2) have "task_nodes (ts ! i) \<subseteq> A"
    using assms(3) one_task nth_mem by (metis UN_subset_iff Un_subset_iff snd_conv)
  moreover have "level_nodes s \<subseteq> A" using assms(3) one_task by simp
  ultimately have t': "level_nodes s' \<subseteq> A" "task_nodes t' \<subseteq> A" using advance_nodes [of s "ts ! i" A] a by simp_all
  have "task_nodes u \<subseteq> A" if "u \<in> set (ts[i := t'])" for u
  proof (cases "u = t'")
    case False
    with that have "u \<in> set ts" using set_update_subset_insert [of ts i t'] by blast
    with assms(3) one_task(1) show ?thesis by (simp add: UN_subset_iff)
  qed (use t' in simp)
  with t' one_task a show ?thesis by (simp add: step_task_def UN_subset_iff)
qed

lemma tasks_run_nodes:
  assumes "tasks_run r calls n c" "router_ok r"
  shows "level_nodes (fst c) \<union> \<Union> (task_nodes ` set (snd c)) \<subseteq> set (all_nodes (buckets r)) \<union> {m. AddCall m \<in> set calls}"
  using assms(1)
proof (induction rule: tasks_run.induct)
  case run_start
  have "fresh t \<Longrightarrow> task_nodes t = {m. AddCall m = t}" for t by (cases t) (auto simp: fresh_def)
  with run_start levels_nodes [of "buckets r"] show ?case
    by (fastforce simp: level_nodes_def shared_of_def list_all_iff)
next
  case (run_step n c c')
  from task_step_nodes [OF run_step(2) tasks_run_ok [OF run_step(1) assms(2)] run_step(3)] show ?case .
qed

subsection \<open>Runs without bans\<close>

text \<open>While nothing is removed, a bucket that was found full stays full until it has a successor.\<close>

fun calm_frame :: "shared \<Rightarrow> frame \<Rightarrow> bool" where
  "calm_frame s (Frame l pc n) =
     ((pc = Recheck \<or> pc = CheckFull \<longrightarrow> has_next s l \<or> length (sh_levels s ! l) = unat (sh_k s)) \<and>
      (pc = Descend \<longrightarrow> has_next s l))"

fun calm :: "shared \<Rightarrow> task \<Rightarrow> bool" where
  "calm s (AddCall n) = True"
| "calm s (Adding fs) = list_all (calm_frame s) fs"
| "calm s Finished = True"
| "calm s t = False"

lemma moving_calm: "moving (fr_pc f) \<Longrightarrow> calm_frame s f"
  by (cases f; cases "fr_pc f") auto

lemma add_advance_calm:
  assumes "shared_ok s" "stack_ok (length (sh_levels s)) (Frame l pc n # fs)" "calm_frame s (Frame l pc n)"
  shows "calm (fst (add_advance s l pc n fs)) (snd (add_advance s l pc n fs))"
proof -
  from assms(2) have l: "l < length (sh_levels s)" and fs: "list_all (\<lambda>f. moving (fr_pc f)) fs"
    by (auto simp: frame_ok_def list_all_iff)
  have below: "list_all (calm_frame s') fs" for s'
    using fs by (rule list.pred_mono_strong) (rule moving_calm)
  then have res: "calm s' (resume fs)" for s' by (simp add: resume_def)
  have len: "length (sh_levels s ! l) \<le> unat (sh_k s)" using shared_ok_level [OF assms(1) l] by (simp add: vec_ok_def)
  show ?thesis
  proof (cases pc)
    case (MoveOut i)
    with assms(2) have "has_next s l" by (simp add: frame_ok_def has_next_def)
    with MoveOut below show ?thesis by (simp add: split_beta)
  qed (use assms(3) below res len l in \<open>auto simp: has_next_def\<close>)
qed

lemma advance_calm:
  assumes "shared_ok s" "task_ok (length (sh_levels s)) t" "calm s t"
  shows "calm (fst (advance s t)) (snd (advance s t))"
proof (cases t)
  case (Adding gs)
  with assms(2) obtain l pc n fs where "gs = Frame l pc n # fs" by (cases gs; cases "hd gs") auto
  with add_advance_calm [OF assms(1)] assms(2,3) Adding show ?thesis by simp
qed (use assms in auto)

lemma calm_grows:
  assumes "task_ok (length (sh_levels s)) t" "calm s t" "advance s t = (s', t')" "l < length (sh_levels s)" "\<not> has_next s' l"
  shows "length (sh_levels s ! l) \<le> length (sh_levels s' ! l)"
proof (cases t)
  case (Adding gs)
  with assms(1) obtain m pc n fs where gs: "gs = Frame m pc n # fs" by (cases gs; cases "hd gs") auto
  with Adding assms(1,3) have a: "add_advance s m pc n fs = (s', t')" and m: "frame_ok (length (sh_levels s)) (Frame m pc n)"
    by simp_all
  show ?thesis
  proof (cases pc)
    case Store
    with a stored_vec(2) [of "Bucket (sh_own s) (of_nat m) (sh_k s) (sh_levels s ! m) None" n] assms(4)
    show ?thesis by (cases "m = l") (auto simp: store_def)
  next
    case MakeNext
    with a assms(4) show ?thesis by (auto simp: nth_append split: if_split_asm)
  next
    case (MoveOut i)
    with a m assms(5) have "m = l \<Longrightarrow> s' = s" by (auto simp: has_next_def frame_ok_def split: if_split_asm prod.split_asm)
    with MoveOut a show ?thesis by (cases "m = l") (auto split: if_split_asm prod.split_asm)
  qed (use a in \<open>auto split: if_split_asm\<close>)
qed (use assms in \<open>auto split: if_split_asm\<close>)

lemma calm_others:
  assumes "task_ok (length (sh_levels s)) t" "calm s t" "advance s t = (s', t')" "shared_ok s'"
    "length (sh_levels s) \<le> length (sh_levels s')" "task_ok (length (sh_levels s)) u" "calm s u"
  shows "calm s' u"
proof (cases u)
  case (Adding fs)
  have "calm_frame s' f" if "f \<in> set fs" for f
  proof -
    obtain l pc n where f: "f = Frame l pc n" by (cases f)
    have l: "l < length (sh_levels s)" using stack_ok_level [of _ fs f] assms(6) Adding that f by simp
    have "length (sh_levels s' ! l) = unat (sh_k s')" if "length (sh_levels s ! l) = unat (sh_k s)" "\<not> has_next s' l"
      using calm_grows [OF assms(1-3) l that(2)] that(1) shared_ok_level [OF assms(4), of l] assms(5) l
        advance_shrinks(1) [OF assms(3)] by (simp add: vec_ok_def)
    moreover have "calm_frame s f" using assms(7) Adding that by (simp add: list_all_iff)
    moreover have "has_next s l \<Longrightarrow> has_next s' l" using assms(5) by (simp add: has_next_def)
    ultimately show ?thesis using f by auto
  qed
  with Adding show ?thesis by (simp add: list_all_iff)
qed (use assms(7) in simp_all)

lemma tasks_run_calm:
  assumes "tasks_run r calls n c" "router_ok r" "list_all (\<lambda>t. \<exists>m. t = AddCall m) calls"
  shows "list_all (calm (fst c)) (snd c)"
  using assms(1)
proof (induction rule: tasks_run.induct)
  case run_start
  then show ?case using assms(3) by (auto simp: list_all_iff)
next
  case (run_step n c c')
  from run_step(2) show ?case
  proof cases
    case (one_task ts i s)
    obtain s' t' where a: "advance s (ts ! i) = (s', t')" by fastforce
    have i: "i < length ts" using one_task by (simp add: can_step_def)
    have ok: "shared_ok s" "\<And>j. j < length ts \<Longrightarrow> task_ok (length (sh_levels s)) (ts ! j) \<and> calm s (ts ! j)"
      using tasks_run_ok [OF run_step(1) assms(2)] run_step(3) one_task by (simp_all add: state_ok_def list_all_length)
    have s': "shared_ok s'" "length (sh_levels s) \<le> length (sh_levels s')" using advance_ok [OF ok(1) _ a] ok(2) [OF i] by simp_all
    have "calm s' (ts[i := t'] ! j)" if "j < length ts" for j
    proof (cases "j = i")
      case True
      with advance_calm [OF ok(1)] ok(2) [OF i] a i show ?thesis by fastforce
    next
      case False
      with calm_others [OF _ _ a s'] ok(2) i that show ?thesis by simp
    qed
    with one_task a show ?thesis by (simp add: step_task_def list_all_length)
  qed
qed

subsection \<open>Schedules\<close>

lemma schedule_run:
  assumes "tasks_run r calls n c" "schedule is c = Some c'"
  shows "tasks_run r calls (n + length is) c'"
  using assms
proof (induction "is" arbitrary: n c)
  case (Cons i "is")
  then have "can_step (snd c) i" "schedule is (step_task i c) = Some c'" by (simp_all split: if_split_asm)
  moreover from this(1) have "task_step c (step_task i c)" using one_task [of "snd c" i "fst c"] by simp
  ultimately show ?case using Cons.IH [OF run_step [OF Cons.prems(1)]] by simp
qed simp

definition empty_router :: router where
  "empty_router = \<lparr>buckets = root u160_min K_SIZE, banned_ids = []\<rparr>"

lemma empty_router_ok: "router_ok empty_router"
  unfolding empty_router_def by (rule router_ok_new)

text \<open>Nodes whose identifier does and does not belong in the first bucket of the node with identifier 0.\<close>

definition far_node :: "u128 \<Rightarrow> node_info" where
  "far_node m = ex_node (m + 0x80000000000000000000000000000000)"

text \<open>A table of one bucket that holds some nodes is what adding them to an empty router gives.\<close>

definition filled_router :: "node_info list \<Rightarrow> router" where
  "filled_router ns = \<lparr>buckets = Bucket u160_min 0 K_SIZE ns None, banned_ids = []\<rparr>"

lemma add_with_room:
  assumes "length ns < unat k" "node_id n \<notin> node_id ` set ns"
  shows "add (Bucket own index k ns None) n = Inr (Bucket own index k (ns @ [n]) None)"
proof -
  have "add (Bucket own index k ns None) n = add_step (add_fuel 255) (Bucket own index k ns None) n"
    unfolding add_def by (simp add: add_fuel.simps(2) [of 255, simplified])
  with assms show ?thesis by (simp add: add_step_def add_or_update_absent with_nodes_def)
qed

lemma filled_reachable:
  assumes "length ns \<le> 8" "distinct (map node_id ns)"
  shows "router_reachable (ex_node 0) (filled_router ns)"
  using assms
proof (induction ns rule: rev_induct)
  case Nil
  have "router_new (Inl ()) (ex_node 0) = Inr (filled_router [])"
    by (simp add: router_new_empty filled_router_def root_def ex_node_def u160_min_def u160_new_def)
  then show ?case by (rule reach_new)
next
  case (snoc n ns)
  then have "router_add (filled_router ns) n = Inr (filled_router (ns @ [n]))"
    by (simp add: router_add_def filled_router_def add_with_room K_SIZE_def)
  with snoc show ?case by (auto intro: reach_step step_add)
qed

lemma filled_ok: "length ns \<le> 8 \<Longrightarrow> distinct (map node_id ns) \<Longrightarrow> router_ok (filled_router ns)"
  using filled_reachable router_reachable_ok by blast

subsection \<open>Two races\<close>

text \<open>Three nodes are added to a table that holds seven, with \<open>K_SIZE = 8\<close>.  The first call has found room
  in the first bucket when the others fill and split that bucket; it then stores its node where it does
  not belong.\<close>

definition race_router :: router where
  "race_router = filled_router (map far_node [1, 2, 3, 4, 5, 6] @ [ex_node 7])"

definition race_calls :: "task list" where
  "race_calls = map AddCall [ex_node 9, far_node 8, ex_node 10]"

definition race_schedule :: "nat list" where
  "race_schedule = replicate 3 0 @ replicate 4 1 @ replicate 23 2 @ [0]"

definition race_state :: shared where
  "race_state = \<lparr>sh_own = u160_min, sh_k = 8,
     sh_levels = [map far_node [1, 2, 3, 4, 5, 6, 8] @ [ex_node 9], [ex_node 7, ex_node 10]], sh_banned = []\<rparr>"

lemma race_adds_end: "schedule race_schedule (shared_of race_router, race_calls @ [BanCall (node_id (ex_node 9))]) =
   Some (race_state, replicate 3 Finished @ [BanCall (node_id (ex_node 9))])"
  by code_simp

lemma race_ban_end: "schedule [3, 3, 3, 3] (race_state, replicate 3 Finished @ [BanCall (node_id (ex_node 9))]) =
   Some (race_state\<lparr>sh_banned := [node_id (ex_node 9)]\<rparr>, replicate 4 Finished)"
  by code_simp

lemma race_router_reachable: "router_reachable (ex_node 0) race_router"
  unfolding race_router_def by (rule filled_reachable) (simp_all add: far_node_def ex_node_def u160_new_def)

text \<open>Eight nodes fill the first bucket.  A ninth call has seen that there is no room when one of them
  is banned; it then finds the bucket neither full nor split.\<close>

definition panic_router :: router where
  "panic_router = filled_router (map far_node [1, 2, 3, 4, 5, 6, 7, 8])"

definition panic_calls :: "task list" where
  "panic_calls = [AddCall (ex_node 9), BanCall (node_id (far_node 1))]"

lemma panic_end: "map_option snd (schedule [0, 0, 0, 0, 1, 1, 1, 0, 0] (shared_of panic_router, panic_calls)) =
   Some [Panicked, Finished]"
  by code_simp

lemma panic_router_reachable: "router_reachable (ex_node 0) panic_router"
  unfolding panic_router_def by (rule filled_reachable) (simp_all add: far_node_def ex_node_def u160_new_def)

lemma schedule_steps: "schedule is c = Some c' \<Longrightarrow> task_step\<^sup>*\<^sup>* c c'"
proof (induction "is" arbitrary: c)
  case (Cons i "is")
  then have "task_step c (step_task i c)" "task_step\<^sup>*\<^sup>* (step_task i c) c'"
    using one_task [of "snd c" i "fst c"] by (simp_all split: if_split_asm)
  then show ?case by (rule converse_rtranclp_into_rtranclp)
qed simp

subsection \<open>Properties\<close>

text \<open>C19: However the calls of \<open>add\<close> and \<open>ban_id\<close> interleave, no bucket ever holds more nodes than its
  capacity or one identifier twice, there are at most 160 buckets and 99 bans, and the table holds only
  nodes that it held before or that a call adds.\<close>

theorem concurrent_bounds:
  assumes "tasks_run r calls k (s, ts)" "router_ok r"
  shows "length (sh_levels s) \<le> 160 \<and> length (sh_banned s) < BAN_COUNT \<and>
    (\<forall>ns\<in>set (sh_levels s). length ns \<le> unat (sh_k s) \<and> distinct (map node_id ns) \<and>
       set ns \<subseteq> set (all_nodes (buckets r)) \<union> {m. AddCall m \<in> set calls})"
proof -
  have "shared_ok s" using tasks_run_ok [OF assms] by (simp add: state_ok_def)
  moreover have "level_nodes s \<subseteq> set (all_nodes (buckets r)) \<union> {m. AddCall m \<in> set calls}"
    using tasks_run_nodes [OF assms] by simp
  ultimately show ?thesis by (auto simp: shared_ok_def list_all_iff vec_ok_def level_nodes_def)
qed

lemma race_run: "\<exists>k. tasks_run race_router (race_calls @ [BanCall (node_id (ex_node 9))]) k
   (race_state, replicate 3 Finished @ [BanCall (node_id (ex_node 9))])"
  using schedule_run [OF run_start race_adds_end] by (auto simp: race_calls_def fresh_def)

theorem concurrent_bounds_witness:
  "length (sh_levels race_state) \<le> 160 \<and> distinct (map node_id (sh_levels race_state ! 0))"
proof -
  obtain k where "tasks_run race_router (race_calls @ [BanCall (node_id (ex_node 9))]) k
      (race_state, replicate 3 Finished @ [BanCall (node_id (ex_node 9))])" using race_run by blast
  moreover have "router_ok race_router" using race_router_reachable router_reachable_ok by blast
  ultimately show ?thesis using concurrent_bounds by (fastforce simp: race_state_def)
qed

text \<open>C13: Every run ends: it has at most \<open>256160 * k + 1600 * c\<close> steps for \<open>c\<close> calls on a table of capacity \<open>k\<close>, and
  as long as a call has not returned some call can go on, until all have returned: the locks of the
  buckets never deadlock.\<close>

theorem concurrent_ends:
  assumes "tasks_run r calls k (s, ts)" "router_ok r"
  shows "k \<le> 256160 * capacity (buckets r) + 1600 * length calls \<and>
    ((\<exists>t\<in>set ts. running t) \<longrightarrow> (\<exists>c. task_step (s, ts) c)) \<and>
    (\<exists>s' ts'. task_step\<^sup>*\<^sup>* (s, ts) (s', ts') \<and> (\<forall>t\<in>set ts'. \<not> running t))"
proof -
  note fr = tasks_run_fresh [OF assms(1)]
  have "state_ok (shared_of r, calls)" by (rule tasks_run_ok [OF run_start [OF fr] assms(2)])
  then have "k \<le> 256160 * capacity (buckets r) + 1600 * length calls"
    using tasks.run_bound [OF tasks_run_relpow [OF assms(1)]] potential_start [OF fr, of r] by fastforce
  moreover obtain s' ts' where "task_step\<^sup>*\<^sup>* (s, ts) (s', ts')" "state_ok (s', ts')" "\<nexists>c. task_step (s', ts') c"
    using tasks.comes_to_rest [OF tasks_run_ok [OF assms]] by (metis surj_pair)
  ultimately show ?thesis using some_task_steps [of s' ts'] some_task_steps [OF tasks_run_ok [OF assms]] by blast
qed

theorem concurrent_ends_witness:
  "\<exists>c. task_step (shared_of empty_router, [AddCall (ex_node 9), BanCall u160_max]) c"
  using concurrent_ends [OF run_start empty_router_ok, of "[AddCall (ex_node 9), BanCall u160_max]"]
  by (simp add: fresh_def running_def)



text \<open>C38: With bans they can: eight nodes are in the table when a call of \<open>add\<close> and a ban of one of them
  interleave so that \<open>add\<close> finds the bucket first without room and then not full, goes on to a next
  bucket that does not exist, and panics.  The table is one that a router reaches.\<close>

theorem ban_can_panic_add:
  "router_reachable (ex_node 0) panic_router \<and> (\<exists>k s. tasks_run panic_router panic_calls k (s, [Panicked, Finished]))"
proof -
  obtain s where s: "schedule [0, 0, 0, 0, 1, 1, 1, 0, 0] (shared_of panic_router, panic_calls) = Some (s, [Panicked, Finished])"
    using panic_end by (auto simp: map_option_eq_Some)
  have "list_all fresh panic_calls" by (simp add: panic_calls_def fresh_def)
  from schedule_run [OF run_start [OF this] s] panic_router_reachable show ?thesis by blast
qed

text \<open>C39: Three interleaved calls of \<open>add\<close> can leave a node in a bucket where it does not belong; a ban that is
  called when all of them have returned does not find it there, so the banned identifier stays in the
  table.\<close>

theorem ban_can_miss:
  "router_reachable (ex_node 0) race_router \<and>
   (\<exists>k s s'. tasks_run race_router (race_calls @ [BanCall (node_id (ex_node 9))]) k
      (s, replicate 3 Finished @ [BanCall (node_id (ex_node 9))]) \<and>
    task_step\<^sup>*\<^sup>* (s, replicate 3 Finished @ [BanCall (node_id (ex_node 9))]) (s', replicate 4 Finished) \<and>
    node_id (ex_node 9) \<in> set (sh_banned s') \<and> ex_node 9 \<in> \<Union> (set ` set (sh_levels s')))"
proof -
  have "task_step\<^sup>*\<^sup>* (race_state, replicate 3 Finished @ [BanCall (node_id (ex_node 9))])
      (race_state\<lparr>sh_banned := [node_id (ex_node 9)]\<rparr>, replicate 4 Finished)"
    by (rule schedule_steps [OF race_ban_end])
  with race_run race_router_reachable show ?thesis by (fastforce simp: race_state_def)
qed

end
