(* ===== verification/Solo.thy ===== *)
theory Solo
  imports Concurrent
begin

text \<open>
  The interleaved model of \<open>Concurrent\<close> agrees with the uninterrupted operations of \<open>Bucket\<close> and
  \<open>Router\<close>: a task that runs alone is simulated step by step.  A call of \<open>add\<close> at some bucket is compared
  with the function \<open>add_fuel\<close> on the rest of the chain, \<open>pre\<close> being the vectors of the buckets above.
\<close>

subsection \<open>A call on its own\<close>

text \<open>Steps of a single task.  The call stack below the innermost call is in the way of no lock it needs.\<close>

inductive solo_step :: "shared \<times> task \<Rightarrow> shared \<times> task \<Rightarrow> bool" where
  solo: "running t \<Longrightarrow> free_for [t] t \<Longrightarrow> solo_step (s, t) (advance s t)"

abbreviation solo_steps :: "shared \<times> task \<Rightarrow> shared \<times> task \<Rightarrow> bool" where
  "solo_steps \<equiv> solo_step\<^sup>*\<^sup>*"

definition outer :: "nat \<Rightarrow> frame list \<Rightarrow> bool" where
  "outer l fs \<longleftrightarrow> (\<forall>f\<in>set fs. fr_level f < l)"

lemma outer_Suc: "outer l fs \<Longrightarrow> outer (Suc l) fs"
  by (auto simp: outer_def)

lemma solo_add:
  assumes "outer l fs"
  shows "solo_step (s, Adding (Frame l pc n # fs)) (add_advance s l pc n fs)"
proof -
  have "free_for [Adding (Frame l pc n # fs)] (Adding (Frame l pc n # fs))"
    using assms by (cases pc) (auto simp: free_for_def outer_def)
  then show ?thesis using solo [of "Adding (Frame l pc n # fs)" s] by (simp add: running_def)
qed

lemma solo_add_then:
  assumes "outer l fs" "add_advance s l pc n fs = c" "solo_steps c c'"
  shows "solo_steps (s, Adding (Frame l pc n # fs)) c'"
  using solo_add [OF assms(1), of s pc n] assms(2,3) by (auto intro: converse_rtranclp_into_rtranclp)

text \<open>A bucket and its successors, at the positions that their indices say.\<close>

fun chain_ok :: "shared \<Rightarrow> nat \<Rightarrow> bucket \<Rightarrow> bool" where
  "chain_ok s l (Bucket own index k ns nx) =
     (own = sh_own s \<and> k = sh_k s \<and> index = of_nat l \<and> l \<le> 159 \<and>
      (case nx of None \<Rightarrow> True | Some nb \<Rightarrow> chain_ok s (Suc l) nb))"

definition simulates :: "(bucket \<Rightarrow> node_info \<Rightarrow> bucket res) \<Rightarrow> nat \<Rightarrow> bool" where
  "simulates g l \<longleftrightarrow> (\<forall>b n b' s pre fs. chain_ok s l b \<longrightarrow> g b n = Inr b' \<longrightarrow> sh_levels s = pre @ levels b \<longrightarrow>
     length pre = l \<longrightarrow> outer l fs \<longrightarrow>
     chain_ok s l b' \<and> solo_steps (s, Adding (Frame l Enter n # fs)) (s\<lparr>sh_levels := pre @ levels b'\<rparr>, resume fs))"

lemma simulatesD:
  assumes "simulates g l" "chain_ok s l b" "g b n = Inr b'" "sh_levels s = pre @ levels b" "length pre = l" "outer l fs"
  shows "chain_ok s l b'" "solo_steps (s, Adding (Frame l Enter n # fs)) (s\<lparr>sh_levels := pre @ levels b'\<rparr>, resume fs)"
  using assms by (auto simp: simulates_def)

lemma chain_ok_cong: "sh_own s' = sh_own s \<Longrightarrow> sh_k s' = sh_k s \<Longrightarrow> chain_ok s' l b = chain_ok s l b"
  by (induction b arbitrary: l) (auto split: option.splits)

lemma store_levels:
  assumes "sh_levels s = pre @ ns # rest" "length pre = l" "k = sh_k s"
  shows "store s l n = s\<lparr>sh_levels := pre @ nodes (add_or_update (Bucket own index k ns nx) n) # rest\<rparr>"
proof -
  have "sh_levels s ! l = ns" using assms(1,2) by (auto simp: nth_append)
  moreover have "nodes (add_or_update (Bucket own index k ns nx) n) = nodes (add_or_update (Bucket (sh_own s) (of_nat l) k ns None) n)"
    by (simp add: add_or_update_def split: option.split)
  ultimately show ?thesis using assms by (auto simp: store_def set_level_def)
qed

lemma add_or_update_chain:
  "chain_ok s l (add_or_update (Bucket own index k ns nx) n) = chain_ok s l (Bucket own index k ns nx)"
  "levels (add_or_update (Bucket own index k ns nx) n) =
     nodes (add_or_update (Bucket own index k ns nx) n) # (case nx of None \<Rightarrow> [] | Some nb \<Rightarrow> levels nb)"
  by (simp_all add: add_or_update_def with_nodes_def split: option.split)

lemma levels_nonempty: "levels b \<noteq> []"
  by (cases b) simp

text \<open>One turn of the loop of \<open>make_next_bucket\<close> that moves a node.\<close>

lemma solo_move_one:
  assumes g: "simulates g (Suc l)" and o: "outer l fs"
    and lv: "sh_levels s = pre @ ns # levels nb" "length pre = l" and nb: "chain_ok s (Suc l) nb" "g nb (ns ! i) = Inr nb1"
    and i: "i < length ns" "\<not> belongs_at s l (node_id (ns ! i))"
  shows "chain_ok s (Suc l) nb1 \<and> solo_steps (s, Adding (Frame l (MoveOut i) n # fs))
    (s\<lparr>sh_levels := pre @ snd (swap_remove ns i) # levels nb1\<rparr>, Adding (Frame l (MoveOut i) n # fs))"
proof -
  let ?ns = "snd (swap_remove ns i)"
  let ?s = "set_level s l ?ns"
  have here: "sh_levels s ! l = ns" "has_next s l" using lv levels_nonempty [of nb] by (auto simp: nth_append has_next_def)
  have c1: "chain_ok ?s (Suc l) nb" using nb(1) by (simp add: chain_ok_cong [of ?s s])
  have "sh_levels ?s = (pre @ [?ns]) @ levels nb" "length (pre @ [?ns]) = Suc l"
    "outer (Suc l) (Frame l (MoveOut i) n # fs)" using lv o by (auto simp: outer_def)
  note sim = simulatesD [OF g c1 nb(2) this]
  have "chain_ok s (Suc l) nb1" using sim(1) by (simp add: chain_ok_cong [of ?s s])
  moreover have "?s\<lparr>sh_levels := (pre @ [?ns]) @ levels nb1\<rparr> = s\<lparr>sh_levels := pre @ ?ns # levels nb1\<rparr>"
    by (simp add: set_level_def)
  moreover have "solo_steps (s, Adding (Frame l (MoveOut i) n # fs))
      (?s\<lparr>sh_levels := (pre @ [?ns]) @ levels nb1\<rparr>, Adding (Frame l (MoveOut i) n # fs))"
    using sim(2) i here by (intro solo_add_then [OF o refl]) (simp add: swap_remove_def resume_def)
  ultimately show ?thesis by metis
qed

lemma solo_split:
  assumes g: "simulates g (Suc l)" and o: "outer l fs"
  shows "split_loop g (\<lambda>m. get_bit (distance own (node_id m)) (of_nat l)) ns i nb = Inr (ns', nb') \<Longrightarrow>
    sh_own s = own \<Longrightarrow> sh_levels s = pre @ ns # levels nb \<Longrightarrow> length pre = l \<Longrightarrow> chain_ok s (Suc l) nb \<Longrightarrow>
    chain_ok s (Suc l) nb' \<and>
    solo_steps (s, Adding (Frame l (MoveOut i) n # fs)) (s\<lparr>sh_levels := pre @ ns' # levels nb'\<rparr>, Adding (Frame l Descend n # fs))"
proof (induction "length ns - i" arbitrary: ns i nb s rule: less_induct)
  case less
  let ?belongs = "\<lambda>m. get_bit (distance own (node_id m)) (of_nat l)"
  have lv: "sh_levels s ! l = ns" using less.prems(3,4) by (auto simp: nth_append)
  consider "\<not> i < length ns" | "i < length ns" "?belongs (ns ! i)" | "i < length ns" "\<not> ?belongs (ns ! i)" by blast
  then show ?case
  proof cases
    case 1
    with less.prems have "ns' = ns" "nb' = nb" by (simp_all add: split_loop.simps [of g _ ns])
    moreover have "s\<lparr>sh_levels := pre @ ns # levels nb\<rparr> = s" using less.prems(3) by simp
    moreover have "solo_steps (s, Adding (Frame l (MoveOut i) n # fs)) (s, Adding (Frame l Descend n # fs))"
      using 1 lv by (intro solo_add_then [OF o refl]) simp
    ultimately show ?thesis using less.prems(5) by simp
  next
    case 2
    have sl: "split_loop g ?belongs ns (Suc i) nb = Inr (ns', nb')" "length ns - Suc i < length ns - i"
      using less.prems(1) 2 by (simp_all add: split_loop.simps [of g _ ns i])
    have "add_advance s l (MoveOut i) n fs = (s, Adding (Frame l (MoveOut (Suc i)) n # fs))"
      using 2 lv less.prems(2) by (simp add: belongs_at_def)
    with less.hyps [OF sl(2,1) less.prems(2-5)] show ?thesis using solo_add_then [OF o] by blast
  next
    case 3
    then obtain nb1 where nb1: "g nb (ns ! i) = Inr nb1" "split_loop g ?belongs (snd (swap_remove ns i)) i nb1 = Inr (ns', nb')"
      using less.prems(1) by (auto simp: split_loop.simps [of g _ ns i] fst_swap_remove split: sum.split_asm)
    let ?s1 = "s\<lparr>sh_levels := pre @ snd (swap_remove ns i) # levels nb1\<rparr>"
    have "\<not> belongs_at s l (node_id (ns ! i))" using 3 less.prems(2) by (simp add: belongs_at_def)
    note one = solo_move_one [OF g o less.prems(3-5) nb1(1) 3(1) this, of n]
    have "chain_ok ?s1 (Suc l) nb' \<and> solo_steps (?s1, Adding (Frame l (MoveOut i) n # fs))
        (?s1\<lparr>sh_levels := pre @ ns' # levels nb'\<rparr>, Adding (Frame l Descend n # fs))"
      using one 3(1) by (intro less.hyps [OF _ nb1(2)]) (simp_all add: less.prems(2,4) chain_ok_cong [of ?s1 s])
    with one show ?thesis by (auto simp: chain_ok_cong [of ?s1 s] intro: rtranclp_trans)
  qed
qed

text \<open>What \<open>add\<close> does once it knows whether there is a next bucket, and that a task does it.\<close>

definition descended :: "(bucket \<Rightarrow> node_info \<Rightarrow> bucket res) \<Rightarrow> bucket \<Rightarrow> node_info \<Rightarrow> bucket res" where
  "descended g b n =
     (if \<not> belongs_here b n
      then (case next_bucket b of None \<Rightarrow> Inl UnwrapNone | Some nb \<Rightarrow> rbind (g nb n) (\<lambda>nb'. Inr (with_next b nb')))
      else Inr (add_or_update b n))"

definition arrives :: "shared \<Rightarrow> node_info list list \<Rightarrow> frame list \<Rightarrow> node_info \<Rightarrow> bucket \<Rightarrow> add_pc \<Rightarrow> bool" where
  "arrives s pre fs n b' pc \<longleftrightarrow> chain_ok s (length pre) b' \<and>
     solo_steps (s, Adding (Frame (length pre) pc n # fs)) (s\<lparr>sh_levels := pre @ levels b'\<rparr>, resume fs)"

lemma arrives_step:
  assumes "outer (length pre) fs" "add_advance s (length pre) pc n fs = (s, Adding (Frame (length pre) pc' n # fs))"
    "arrives s pre fs n b' pc'"
  shows "arrives s pre fs n b' pc"
  using assms solo_add_then unfolding arrives_def by blast

lemma arrives_store:
  assumes o: "outer (length pre) fs" and b: "chain_ok s (length pre) b" and lv: "sh_levels s = pre @ levels b"
  shows "arrives s pre fs n (add_or_update b n) Store"
proof -
  let ?l = "length pre"
  obtain ns nx where bk: "b = Bucket (sh_own s) (of_nat ?l) (sh_k s) ns nx" using b by (cases b) auto
  have "store s ?l n = s\<lparr>sh_levels := pre @ levels (add_or_update b n)\<rparr>"
    using store_levels [of s pre ns _ ?l "sh_k s" n "sh_own s" "of_nat ?l" nx] lv by (simp add: bk add_or_update_chain(2))
  moreover have "chain_ok s ?l (add_or_update b n)" using b unfolding bk by (simp add: add_or_update_chain(1) del: chain_ok.simps)
  ultimately show ?thesis by (auto simp: arrives_def intro!: solo_add_then [OF o refl])
qed

lemma arrives_descend:
  assumes g: "simulates g (Suc (length pre))" and o: "outer (length pre) fs" and b: "chain_ok s (length pre) b"
    and lv: "sh_levels s = pre @ levels b" and step: "descended g b n = Inr b'"
  shows "arrives s pre fs n b' Descend"
proof -
  let ?l = "length pre"
  obtain ns nx where bk: "b = Bucket (sh_own s) (of_nat ?l) (sh_k s) ns nx" using b by (cases b) auto
  have here: "belongs_here b n = belongs_at s ?l (node_id n)" by (simp add: bk belongs_here_def belongs_at_def)
  show ?thesis
  proof (cases "belongs_here b n")
    case True
    with step have "b' = add_or_update b n" by (simp add: descended_def)
    with True here arrives_store [OF o b lv] show ?thesis by (intro arrives_step [OF o, of s Descend n Store]) simp_all
  next
    case False
    with step obtain nb nb' where nb: "nx = Some nb" "g nb n = Inr nb'" "b' = with_next b nb'"
      by (auto simp: bk descended_def rbind_eq_Inr split: option.split_asm)
    have "chain_ok s (Suc ?l) nb" "sh_levels s = (pre @ [ns]) @ levels nb" "length (pre @ [ns]) = Suc ?l"
      using b lv by (simp_all add: bk nb(1))
    note sim = simulatesD [OF g this(1) nb(2) this(2,3) outer_Suc [OF o]]
    moreover have "has_next s ?l" using lv levels_nonempty [of nb] by (auto simp: has_next_def bk nb(1))
    ultimately show ?thesis using False here b nb(3)
      by (auto intro!: solo_add_then [OF o refl] simp: arrives_def bk with_next_def)
  qed
qed

lemma arrives_split:
  assumes g: "simulates g (Suc (length pre))" and o: "outer (length pre) fs"
    and b: "b = Bucket (sh_own s) (of_nat (length pre)) (sh_k s) ns None" "length pre < 159" and lv: "sh_levels s = pre @ [ns]"
    and split: "split_loop g (belongs_here b) ns 0 (Bucket (sh_own s) (of_nat (length pre) + 1) (sh_k s) [] None) = Inr (ns', nb')"
    and step: "descended g (Bucket (sh_own s) (of_nat (length pre)) (sh_k s) ns' (Some nb')) n = Inr b'"
  shows "arrives s pre fs n b' MakeNext"
proof -
  let ?l = "length pre"
  let ?nb = "Bucket (sh_own s) (of_nat ?l + 1) (sh_k s) [] None"
  let ?b1 = "Bucket (sh_own s) (of_nat ?l) (sh_k s) ns' (Some nb')"
  let ?s1 = "s\<lparr>sh_levels := sh_levels s @ [[]]\<rparr>"
  let ?s2 = "?s1\<lparr>sh_levels := pre @ ns' # levels nb'\<rparr>"
  have "belongs_here b = (\<lambda>m. get_bit (distance (sh_own s) (node_id m)) (of_nat ?l))"
    by (simp add: fun_eq_iff belongs_here_def b(1))
  note split = split [unfolded this]
  have "sh_levels ?s1 = pre @ ns # levels ?nb" "chain_ok ?s1 (Suc ?l) ?nb" using lv b(2) by simp_all
  note sp = solo_split [OF g o split _ this(1) refl this(2), of n, simplified]
  then have "chain_ok ?s2 ?l ?b1" using b(2) chain_ok_cong [of ?s2 ?s1 "Suc ?l" nb'] by simp
  from arrives_descend [OF g o this _ step] have
    de: "chain_ok ?s2 ?l b'" "solo_steps (?s2, Adding (Frame ?l Descend n # fs)) (s\<lparr>sh_levels := pre @ levels b'\<rparr>, resume fs)"
    by (simp_all add: arrives_def)
  have "solo_steps (?s1, Adding (Frame ?l LockNodes n # fs)) (?s2, Adding (Frame ?l Descend n # fs))"
    using sp by (intro solo_add_then [OF o refl]) simp
  with de(2) have st: "solo_steps (?s1, Adding (Frame ?l LockNodes n # fs)) (s\<lparr>sh_levels := pre @ levels b'\<rparr>, resume fs)"
    by (auto intro: rtranclp_trans)
  have "\<not> has_next s ?l" "?l \<noteq> unat MAX_BUCKET_INDEX" using lv b(2) by (simp_all add: has_next_def max_index)
  then have "add_advance s ?l MakeNext n fs = (?s1, Adding (Frame ?l LockNodes n # fs))" by simp
  from solo_add_then [OF o this st] de(1) chain_ok_cong [of ?s2 s ?l b'] show ?thesis by (simp add: arrives_def)
qed

lemma arrives_full:
  assumes g: "simulates g (Suc (length pre))" and o: "outer (length pre) fs" and b: "chain_ok s (length pre) b"
    and lv: "sh_levels s = pre @ levels b" and full: "next_bucket b = None" "length (nodes b) = unat (k_size b)"
    and step: "add_step g b n = Inr b'"
  shows "arrives s pre fs n b' MakeNext"
proof -
  let ?l = "length pre"
  obtain ns where bk: "b = Bucket (sh_own s) (of_nat ?l) (sh_k s) ns None" and l: "?l \<le> 159"
    using b full(1) by (cases b) auto
  show ?thesis
  proof (cases "?l = 159")
    case True
    with step full have "b' = b" by (simp add: add_step_def bk make_next_bucket_def MAX_BUCKET_INDEX_def)
    moreover have "s\<lparr>sh_levels := pre @ levels b\<rparr> = s" using lv by simp
    moreover have "solo_steps (s, Adding (Frame ?l MakeNext n # fs)) (s, resume fs)"
      using True by (intro solo_add_then [OF o refl]) (simp add: max_index)
    ultimately show ?thesis using b by (simp add: arrives_def)
  next
    case False
    with l have "(of_nat ?l :: u8) \<noteq> 159" "(of_nat ?l :: u8) \<noteq> 255"
      by (auto dest!: arg_cong [of _ _ unat] simp: unat_of_nat)
    with step full obtain ns' nb' where
      sp: "split_loop g (belongs_here b) ns 0 (Bucket (sh_own s) (of_nat ?l + 1) (sh_k s) [] None) = Inr (ns', nb')"
      and de: "descended g (Bucket (sh_own s) (of_nat ?l) (sh_k s) ns' (Some nb')) n = Inr b'"
      by (auto simp: add_step_def descended_def bk make_next_bucket_def MAX_BUCKET_INDEX_def rbind_eq_Inr)
    have "?l < 159" "sh_levels s = pre @ [ns]" using bk False l lv by simp_all
    from arrives_split [OF g o bk this sp de] show ?thesis .
  qed
qed

lemma arrives_add_step:
  assumes g: "simulates g (Suc (length pre))" and o: "outer (length pre) fs" and b: "chain_ok s (length pre) b"
    and lv: "sh_levels s = pre @ levels b" and step: "add_step g b n = Inr b'"
  shows "arrives s pre fs n b' Enter"
proof -
  let ?l = "length pre" and ?k = "unat (sh_k s)"
  obtain ns nx where bk: "b = Bucket (sh_own s) (of_nat ?l) (sh_k s) ns nx" using b by (cases b) auto
  have here: "sh_levels s ! ?l = ns" "has_next s ?l \<longleftrightarrow> nx \<noteq> None"
    using lv levels_nonempty by (auto simp: bk has_next_def split: option.split)
  note go = arrives_step [OF o, of s _ n]
  note to_full = go [of Enter CheckRoom] go [of CheckRoom Recheck] go [of Recheck CheckFull]
  have descend: "arrives s pre fs n b' Descend" if "nx \<noteq> None \<or> ?k < length ns"
    using step that unfolding bk by (intro arrives_descend [OF g o b [unfolded bk] lv [unfolded bk]]) (auto simp: add_step_def descended_def)
  consider "nx \<noteq> None" | "nx = None" "length ns < ?k" | "nx = None" "length ns = ?k" | "nx = None" "?k < length ns" by linarith
  then show ?thesis
  proof cases
    case 1
    with go [of Enter Recheck] go [of Recheck Descend] descend here show ?thesis by simp
  next
    case 2
    then have "b' = add_or_update b n" using step by (simp add: add_step_def bk)
    with go [of Enter CheckRoom] go [of CheckRoom Store] arrives_store [OF o b lv] 2 here show ?thesis by simp
  next
    case 3
    then have "arrives s pre fs n b' MakeNext" by (intro arrives_full [OF g o b lv _ _ step]) (simp_all add: bk)
    with go [of CheckFull MakeNext] to_full 3 here show ?thesis by simp
  next
    case 4
    with go [of CheckFull Descend] to_full descend here show ?thesis by simp
  qed
qed

lemma simulates_step:
  assumes "simulates g (Suc l)"
  shows "simulates (add_step g) l"
  using arrives_add_step [of g] assms by (auto simp: simulates_def arrives_def)

lemma simulates_add: "simulates (add_fuel fuel) l"
proof (induction fuel arbitrary: l)
  case 0
  show ?case by (simp add: simulates_def)
next
  case (Suc fuel)
  have "add_fuel (Suc fuel) = add_step (add_fuel fuel)" by (simp add: fun_eq_iff)
  with simulates_step [OF Suc] show ?case by simp
qed

lemma table_chain: "bucket_ok b \<Longrightarrow> sh_own s = own_id b \<Longrightarrow> sh_k s = k_size b \<Longrightarrow> unat (bucket_index b) = l \<Longrightarrow> chain_ok s l b"
proof (induction b arbitrary: l)
  case (Bucket own index k ns nx)
  then show ?case by (cases nx) (auto simp: unat_index_Suc word_le_nat_alt word_less_nat_alt)
qed

lemma chain_own: "chain_ok s l b \<Longrightarrow> own_id b = sh_own s \<and> k_size b = sh_k s"
  by (cases b) simp

lemma solo_router_add:
  assumes "router_ok r" "router_add r n = Inr r'"
  shows "solo_steps (shared_of r, AddCall n) (shared_of r', Finished)"
proof -
  have first: "solo_step (s, AddCall n) (advance s (AddCall n))" for s
    by (rule solo) (simp_all add: running_def free_for_def)
  show ?thesis
  proof (cases "node_id n \<in> set (banned_ids r)")
    case True
    with assms(2) first [of "shared_of r"] show ?thesis by (auto simp: router_add_def shared_of_def)
  next
    case False
    with assms(2) obtain b' where b': "add (buckets r) n = Inr b'" "r' = r\<lparr>buckets := b'\<rparr>"
      by (auto simp: router_add_def rbind_eq_Inr)
    have "chain_ok (shared_of r) 0 (buckets r)"
      using assms(1) by (intro table_chain) (simp_all add: router_ok_def table_ok_def shared_of_def)
    from simulatesD [OF simulates_add this b'(1) [unfolded add_def], of "[]" "[]"]
    have st: "chain_ok (shared_of r) 0 b'"
      "solo_steps (shared_of r, Adding [Frame 0 Enter n]) (shared_of r\<lparr>sh_levels := levels b'\<rparr>, Finished)"
      by (simp_all add: shared_of_def outer_def resume_def)
    have "shared_of r\<lparr>sh_levels := levels b'\<rparr> = shared_of r'"
      using chain_own [OF st(1)] by (simp add: shared_of_def b'(2))
    with st(2) first [of "shared_of r"] False show ?thesis
      by (auto simp: shared_of_def intro: converse_rtranclp_into_rtranclp)
  qed
qed

lemma solo_removing:
  "chain_ok s l b \<Longrightarrow> sh_levels s = pre @ levels b \<Longrightarrow> length pre = l \<Longrightarrow>
   solo_steps (s, Removing l i) (s\<lparr>sh_levels := pre @ levels (snd (remove b i))\<rparr>, Finished)"
proof (induction b arbitrary: l pre)
  case (Bucket own index k ns nx)
  have one: "solo_steps (s, t) c" if "t \<in> {Removing l i, RemoveHere l i}" "solo_steps (advance s t) c" for t c
    using that solo [of t s] by (auto simp: running_def free_for_def intro: converse_rtranclp_into_rtranclp)
  have here: "sh_levels s ! l = ns" "has_next s l \<longleftrightarrow> nx \<noteq> None"
    using Bucket.prems levels_nonempty by (auto simp: nth_append has_next_def split: option.split)
  have bel: "id_belongs_here (Bucket own index k ns nx) i = belongs_at s l i"
    using Bucket.prems(1) by (simp add: id_belongs_here_def belongs_at_def)
  have upd: "set_level s l ns' = s\<lparr>sh_levels := pre @ ns' # (case nx of None \<Rightarrow> [] | Some nb \<Rightarrow> levels nb)\<rparr>"
    "s\<lparr>sh_levels := pre @ ns # (case nx of None \<Rightarrow> [] | Some nb \<Rightarrow> levels nb)\<rparr> = s" for ns'
    using Bucket.prems(2,3) by (auto simp: set_level_def)
  show ?case
  proof (cases "nx = None \<or> belongs_at s l i")
    case True
    then have "levels (snd (remove (Bucket own index k ns nx) i)) =
        (case position (\<lambda>n. node_id n = i) ns of Some j \<Rightarrow> vec_remove ns j | None \<Rightarrow> ns) #
        (case nx of None \<Rightarrow> [] | Some nb \<Rightarrow> levels nb)"
      using bel by (auto split: option.split)
    moreover have "solo_steps (s, Removing l i)
        (case position (\<lambda>n. node_id n = i) ns of Some j \<Rightarrow> set_level s l (vec_remove ns j) | None \<Rightarrow> s, Finished)"
      using True here by (intro one; simp; intro one; simp split: option.split)
    ultimately show ?thesis using upd by (simp split: option.split_asm)
  next
    case False
    then obtain nb where nb: "nx = Some nb" by (cases nx) auto
    with False bel have "levels (snd (remove (Bucket own index k ns nx) i)) = ns # levels (snd (remove nb i))"
      by (simp split: prod.split)
    moreover have "solo_steps (s, Removing (Suc l) i) (s\<lparr>sh_levels := (pre @ [ns]) @ levels (snd (remove nb i))\<rparr>, Finished)"
      using Bucket.prems nb by (intro Bucket.IH [of nb]) simp_all
    ultimately show ?thesis using False here by (intro one) simp_all
  qed
qed

lemma solo_ban:
  assumes "router_ok r"
  shows "solo_steps (shared_of r, BanCall i) (shared_of (ban_id r i), Finished)"
proof -
  let ?s = "shared_of r\<lparr>sh_banned := push_banned (banned_ids r) i\<rparr>"
  have "bucket_ok (buckets r)" using assms by (simp add: router_ok_def table_ok_def)
  then have "chain_ok ?s 0 (buckets r)"
    using assms by (intro table_chain) (simp_all add: router_ok_def table_ok_def shared_of_def)
  from solo_removing [OF this, of "[]" i]
  have "solo_steps (?s, Removing 0 i) (?s\<lparr>sh_levels := levels (snd (remove (buckets r) i))\<rparr>, Finished)"
    by (simp add: shared_of_def)
  moreover have "own_id (snd (remove b j)) = own_id b \<and> k_size (snd (remove b j)) = k_size b" for b j
    by (cases b) (auto split: option.split prod.split)
  then have "?s\<lparr>sh_levels := levels (snd (remove (buckets r) i))\<rparr> = shared_of (ban_id r i)"
    by (simp add: shared_of_def ban_id_def)
  moreover have "solo_step (shared_of r, BanCall i) (?s, Removing 0 i)"
    using solo [of "BanCall i" "shared_of r"] by (simp add: running_def free_for_def shared_of_def)
  ultimately show ?thesis by (metis converse_rtranclp_into_rtranclp)
qed

lemma solo_lift: "solo_step (s, t) (s', t') \<Longrightarrow> task_step (s, [t]) (s', [t'])"
  by (elim solo_step.cases) (use one_task [of "[t]" 0 s] in \<open>auto simp: can_step_def step_task_def split: prod.splits\<close>)

inductive_cases tasks_run_SucE: "tasks_run r calls (Suc k) c"

lemma solo_run: "solo_steps (s, t) c \<Longrightarrow> tasks_run r calls k (s, [t]) \<Longrightarrow> \<exists>m. tasks_run r calls m (fst c, [snd c])"
proof (induction rule: rtranclp_induct)
  case (step c c')
  then show ?case using solo_lift [of "fst c" "snd c" "fst c'" "snd c'"] run_step by fastforce
qed auto

lemma tasks_run_length: "tasks_run r calls k c \<Longrightarrow> length (snd c) = length calls"
proof (induction rule: tasks_run.induct)
  case (run_step n c c')
  then show ?case by (auto elim!: task_step.cases simp: step_task_def split: prod.splits)
qed simp

text \<open>A single task has no choice.\<close>

lemma single_step_unique: "task_step c x \<Longrightarrow> task_step c y \<Longrightarrow> length (snd c) = 1 \<Longrightarrow> x = y"
  by (auto elim!: task_step.cases simp: can_step_def)

lemma single_run_unique:
  assumes "tasks_run r [t] k x" "tasks_run r [t] k y"
  shows "x = y"
  using assms
proof (induction k arbitrary: x y)
  case 0
  then show ?case by (auto elim: tasks_run.cases)
next
  case (Suc k)
  from Suc.prems obtain x' y' where "tasks_run r [t] k x'" "task_step x' x" "tasks_run r [t] k y'" "task_step y' y"
    by (elim tasks_run_SucE)
  with Suc.IH tasks_run_length show ?case by (metis One_nat_def length_Cons list.size(3) single_step_unique)
qed

lemma tasks_run_prefix: "tasks_run r calls m y \<Longrightarrow> k < m \<Longrightarrow> \<exists>x x'. tasks_run r calls k x \<and> task_step x x'"
proof (induction rule: tasks_run.induct)
  case (run_step m c c')
  then show ?case by (cases "k = m") (blast, simp)
qed simp

lemma single_end_unique:
  assumes "tasks_run r [t] k x" "tasks_run r [t] m y" "\<nexists>x'. task_step x x'" "\<nexists>y'. task_step y y'"
  shows "x = y"
proof -
  have "k = m"
  proof (rule ccontr)
    assume "k \<noteq> m"
    then consider "k < m" | "m < k" by linarith
    then show False using tasks_run_prefix [OF assms(1)] tasks_run_prefix [OF assms(2)] single_run_unique assms by cases metis+
  qed
  with single_run_unique assms show ?thesis by blast
qed

lemma ended: "\<not> running t \<Longrightarrow> \<nexists>x. task_step (s, [t]) x"
  by (auto elim!: task_stepE simp: can_step_def)

lemma solo_outcome:
  assumes "solo_steps (shared_of r, t0) (s, Finished)" "fresh t0"
  shows "(\<exists>k. tasks_run r [t0] k (s, [Finished])) \<and>
    (\<forall>k s' t. tasks_run r [t0] k (s', [t]) \<and> \<not> running t \<longrightarrow> s' = s \<and> t = Finished)"
proof -
  obtain k where k: "tasks_run r [t0] k (s, [Finished])"
    using solo_run [OF assms(1) run_start] assms(2) by fastforce
  moreover have "s' = s \<and> t = Finished" if "tasks_run r [t0] m (s', [t])" "\<not> running t" for m s' t
  proof -
    have "(s, [Finished]) = (s', [t])"
      by (rule single_end_unique [OF k that(1) ended ended [OF that(2)]]) (simp add: running_def)
    then show ?thesis by simp
  qed
  ultimately show ?thesis by blast
qed

subsection \<open>Properties\<close>

text \<open>C14: A call that nothing interleaves with does what the uninterrupted operation does, and nothing else can
  come of it: \<open>add\<close> and \<open>ban_id\<close> of \<open>Router\<close> are the runs of a single task.\<close>

theorem alone_is_sequential:
  assumes "router_ok r"
  shows "(\<exists>r'. router_add r n = Inr r' \<and> (\<exists>k. tasks_run r [AddCall n] k (shared_of r', [Finished])) \<and>
      (\<forall>k s t. tasks_run r [AddCall n] k (s, [t]) \<and> \<not> running t \<longrightarrow> s = shared_of r' \<and> t = Finished)) \<and>
    (\<exists>k. tasks_run r [BanCall i] k (shared_of (ban_id r i), [Finished])) \<and>
    (\<forall>k s t. tasks_run r [BanCall i] k (s, [t]) \<and> \<not> running t \<longrightarrow> s = shared_of (ban_id r i) \<and> t = Finished)"
proof -
  obtain r' where r': "router_add r n = Inr r'" using router_add_total [OF assms] by blast
  have "fresh (AddCall n)" "fresh (BanCall i)" by (simp_all add: fresh_def)
  with solo_outcome [OF solo_router_add [OF assms r']] solo_outcome [OF solo_ban [OF assms, of i]] r' show ?thesis by blast
qed

theorem alone_is_sequential_witness:
  "\<exists>k. tasks_run empty_router [BanCall u160_max] k (shared_of (ban_id empty_router u160_max), [Finished])"
  using alone_is_sequential [OF empty_router_ok, of "ex_node 9" u160_max] by blast

end
