(* ===== verification/Readers.thy ===== *)
theory Readers
  imports Solo
begin

text \<open>
  Calls of \<open>Router::lookup\<close> beside the calls of \<open>Concurrent\<close>.  A lookup waits for the read lock of a bucket
  while it copies nodes from it, and gives the lock back before it asks another bucket; so it never
  stands in the way of another call, but what it collects comes from different moments.  One step reads
  \<open>next_bucket\<close> or copies nodes under one acquisition of the lock.
\<close>

subsection \<open>Steps of a lookup\<close>

text \<open>Where a call of \<open>Bucket::lookup\<close> stands: before the first test of \<open>next_bucket\<close>, waiting for the first
  call on the next bucket, before it copies its own nodes, before the second test, waiting for the
  second call.\<close>

datatype look_pc =
    LookEnter
  | LookFirst
  | LookHere "node_info list"
  | LookAgain "node_info list"
  | LookRest "node_info list"

datatype look_frame = LookFrame (lf_level: nat) (lf_pc: look_pc)

datatype reader =
    LookCall u160
  | Looking u160 "look_frame list"
  | Returned "node_info list"
  | LookPanicked fault

text \<open>A call returns a vector to the innermost call that waits for it, which goes on with it; a call that
  waits for its second vector takes what fills its gap and returns in turn.\<close>

fun deliver :: "nat \<Rightarrow> u160 \<Rightarrow> node_info list \<Rightarrow> look_frame list \<Rightarrow> reader" where
  "deliver k i ns [] = Returned ns"
| "deliver k i ns (LookFrame l pc # fs) =
     (case pc of
        LookRest k_nearest \<Rightarrow> deliver k i (k_nearest @ take (k - length k_nearest) ns) fs
      | _ \<Rightarrow> Looking i (LookFrame l (LookHere ns) # fs))"

fun look_advance :: "shared \<Rightarrow> reader \<Rightarrow> reader" where
  "look_advance s (LookCall i) = Looking i [LookFrame 0 LookEnter]"
| "look_advance s (Looking i (LookFrame l LookEnter # fs)) =
     (if has_next s l \<and> \<not> belongs_at s l i
      then Looking i (LookFrame (l + 1) LookEnter # LookFrame l LookFirst # fs)
      else Looking i (LookFrame l (LookHere []) # fs))"
| "look_advance s (Looking i (LookFrame l (LookHere k_nearest) # fs)) =
     (if unat (sh_k s) < length k_nearest then LookPanicked ArithOverflow
      else let gap = unat (sh_k s) - length k_nearest
           in Looking i (LookFrame l (LookAgain (if gap > 0 then k_nearest @ take gap (sh_levels s ! l) else k_nearest)) # fs))"
| "look_advance s (Looking i (LookFrame l (LookAgain k_nearest) # fs)) =
     (if unat (sh_k s) < length k_nearest then LookPanicked ArithOverflow
      else let gap = unat (sh_k s) - length k_nearest
           in if gap > 0 \<and> has_next s l
              then Looking i (LookFrame (l + 1) LookEnter # LookFrame l (LookRest k_nearest) # fs)
              else deliver (unat (sh_k s)) i k_nearest fs)"
| "look_advance s rd = rd"

definition looking :: "reader \<Rightarrow> bool" where
  "looking rd = (case rd of LookCall i \<Rightarrow> True | Looking i fs \<Rightarrow> True | _ \<Rightarrow> False)"

text \<open>The bucket whose read lock the next step has to acquire.\<close>

fun look_needs :: "nat \<Rightarrow> reader \<Rightarrow> nat option" where
  "look_needs k (Looking i (LookFrame l (LookHere k_nearest) # fs)) = (if length k_nearest < k then Some l else None)"
| "look_needs k rd = None"

definition can_look :: "shared \<times> task list \<Rightarrow> reader \<Rightarrow> bool" where
  "can_look c rd \<longleftrightarrow> looking rd \<and>
     (case look_needs (unat (sh_k (fst c))) rd of None \<Rightarrow> True | Some l \<Rightarrow> list_all (\<lambda>u. l \<notin> set (held u)) (snd c))"

type_synonym mixed = "(shared \<times> task list) \<times> reader list"

inductive mixed_step :: "mixed \<Rightarrow> mixed \<Rightarrow> bool" where
  writer: "task_step c c' \<Longrightarrow> mixed_step (c, rs) (c', rs)"
| reader: "j < length rs \<Longrightarrow> can_look c (rs ! j) \<Longrightarrow> mixed_step (c, rs) (c, rs[j := look_advance (fst c) (rs ! j)])"

inductive_cases mixed_stepE: "mixed_step (c, rs) x"

text \<open>A run of \<open>n\<close> steps from a router that is not in use, with calls of \<open>add\<close> and \<open>ban_id\<close> and with lookups.\<close>

inductive mixed_run :: "router \<Rightarrow> task list \<Rightarrow> u160 list \<Rightarrow> nat \<Rightarrow> mixed \<Rightarrow> bool"
  for r :: router and calls :: "task list" and targets :: "u160 list" where
  mixed_start: "list_all fresh calls \<Longrightarrow> mixed_run r calls targets 0 ((shared_of r, calls), map LookCall targets)"
| mixed_next: "mixed_run r calls targets n x \<Longrightarrow> mixed_step x y \<Longrightarrow> mixed_run r calls targets (Suc n) y"

text \<open>A schedule names the call of every step: a writer or a reader.\<close>

fun mixed_schedule :: "(nat + nat) list \<Rightarrow> mixed \<Rightarrow> mixed option" where
  "mixed_schedule [] x = Some x"
| "mixed_schedule (Inl i # is) (c, rs) = (if can_step (snd c) i then mixed_schedule is (step_task i c, rs) else None)"
| "mixed_schedule (Inr j # is) (c, rs) =
     (if j < length rs \<and> can_look c (rs ! j) then mixed_schedule is (c, rs[j := look_advance (fst c) (rs ! j)]) else None)"

subsection \<open>Lookups disturb nobody\<close>

lemma mixed_run_writers: "mixed_run r calls targets n x \<Longrightarrow> \<exists>m\<le>n. tasks_run r calls m (fst x)"
proof (induction rule: mixed_run.induct)
  case (mixed_next n x y)
  then obtain m where m: "m \<le> n" "tasks_run r calls m (fst x)" by blast
  from mixed_next(2) show ?case
  proof cases
    case (writer c c' rs)
    with m run_step [OF m(2)] show ?thesis by (intro exI [of _ "Suc m"]) simp
  next
    case (reader j rs c)
    with m show ?thesis by (intro exI [of _ m]) simp
  qed
qed (auto intro: run_start)

subsection \<open>What lookups collect\<close>

fun waiting :: "look_pc \<Rightarrow> bool" where
  "waiting LookFirst = True"
| "waiting (LookRest k_nearest) = True"
| "waiting pc = False"

fun collected :: "look_pc \<Rightarrow> node_info list" where
  "collected (LookHere ns) = ns"
| "collected (LookAgain ns) = ns"
| "collected (LookRest ns) = ns"
| "collected pc = []"

definition sound_vec :: "nat \<Rightarrow> node_info set \<Rightarrow> node_info list \<Rightarrow> bool" where
  "sound_vec k A ns \<longleftrightarrow> length ns \<le> k \<and> set ns \<subseteq> A"

definition look_frame_ok :: "nat \<Rightarrow> node_info set \<Rightarrow> nat \<Rightarrow> look_frame \<Rightarrow> bool" where
  "look_frame_ok k A d f \<longleftrightarrow> lf_level f < d \<and> sound_vec k A (collected (lf_pc f))"

definition look_stack_ok :: "nat \<Rightarrow> node_info set \<Rightarrow> nat \<Rightarrow> look_frame list \<Rightarrow> bool" where
  "look_stack_ok k A d fs \<longleftrightarrow> list_all (\<lambda>f. look_frame_ok k A d f \<and> waiting (lf_pc f)) fs"

fun reader_ok :: "nat \<Rightarrow> node_info set \<Rightarrow> nat \<Rightarrow> reader \<Rightarrow> bool" where
  "reader_ok k A d (LookCall i) = True"
| "reader_ok k A d (Looking i fs) =
     (case fs of [] \<Rightarrow> False | f # gs \<Rightarrow> look_frame_ok k A d f \<and> \<not> waiting (lf_pc f) \<and> look_stack_ok k A d gs)"
| "reader_ok k A d (Returned ns) = sound_vec k A ns"
| "reader_ok k A d (LookPanicked e) = False"

lemma sound_vec_extend: "sound_vec k A ns \<Longrightarrow> set ms \<subseteq> A \<Longrightarrow> sound_vec k A (ns @ take (k - length ns) ms)"
  by (auto simp: sound_vec_def dest: in_set_takeD)

lemma look_stack_Cons:
  "look_stack_ok k A d (LookFrame l pc # fs) \<longleftrightarrow> l < d \<and> sound_vec k A (collected pc) \<and> waiting pc \<and> look_stack_ok k A d fs"
  by (simp add: look_stack_ok_def look_frame_ok_def)

lemma deliver_ok: "look_stack_ok k A d fs \<Longrightarrow> sound_vec k A ns \<Longrightarrow> reader_ok k A d (deliver k i ns fs)"
proof (induction k i ns fs rule: deliver.induct)
  case (2 k i ns l pc fs)
  then show ?case
    by (cases pc) (auto simp: look_stack_Cons look_frame_ok_def sound_vec_extend sound_vec_def [of k A ns])
qed simp

lemma look_advance_ok:
  assumes "reader_ok (unat (sh_k s)) A (length (sh_levels s)) rd" "level_nodes s \<subseteq> A" "sh_levels s \<noteq> []"
  shows "reader_ok (unat (sh_k s)) A (length (sh_levels s)) (look_advance s rd)"
proof (cases rd)
  case (Looking i gs)
  with assms(1) obtain l pc fs where gs: "gs = LookFrame l pc # fs" by (cases gs; cases "hd gs") auto
  with Looking assms(1) have ok: "l < length (sh_levels s)" "sound_vec (unat (sh_k s)) A (collected pc)" "\<not> waiting pc"
      "look_stack_ok (unat (sh_k s)) A (length (sh_levels s)) fs"
    by (simp_all add: look_frame_ok_def)
  have nodes: "set (sh_levels s ! l) \<subseteq> A" using level_nodes_nth [OF ok(1)] assms(2) by (rule subset_trans)
  have empty: "sound_vec (unat (sh_k s)) A []" by (simp add: sound_vec_def)
  show ?thesis
  proof (cases pc)
    case (LookHere ns)
    with ok sound_vec_extend [OF _ nodes, of _ ns] Looking gs show ?thesis
      by (auto simp: Let_def look_frame_ok_def sound_vec_def [of _ _ ns])
  next
    case (LookAgain ns)
    with ok deliver_ok [OF ok(4), of ns] empty Looking gs show ?thesis
      by (auto simp: Let_def look_frame_ok_def look_stack_Cons has_next_def sound_vec_def [of _ _ ns])
  qed (use ok empty Looking gs in \<open>auto simp: look_frame_ok_def look_stack_Cons has_next_def\<close>)
qed (use assms in \<open>auto simp: look_frame_ok_def look_stack_ok_def sound_vec_def\<close>)

lemma look_stack_mono: "look_stack_ok k A d fs \<Longrightarrow> d \<le> d' \<Longrightarrow> look_stack_ok k A d' fs"
  by (auto simp: look_stack_ok_def look_frame_ok_def list_all_iff)

lemma reader_ok_mono: "reader_ok k A d rd \<Longrightarrow> d \<le> d' \<Longrightarrow> reader_ok k A d' rd"
  by (cases rd) (auto simp: look_frame_ok_def look_stack_mono split: list.split_asm)

text \<open>Readers depend on the writers only through the number of buckets, which never shrinks, and through the
  nodes that are in the table or on their way into it.\<close>

definition mixed_ok :: "node_info set \<Rightarrow> mixed \<Rightarrow> bool" where
  "mixed_ok A x = (case x of ((s, ts), rs) \<Rightarrow> state_ok (s, ts) \<and> level_nodes s \<union> \<Union> (task_nodes ` set ts) \<subseteq> A \<and>
     list_all (reader_ok (unat (sh_k s)) A (length (sh_levels s))) rs)"

lemma task_step_shape:
  assumes "task_step c c'" "state_ok c"
  shows "sh_k (fst c') = sh_k (fst c) \<and> sh_own (fst c') = sh_own (fst c) \<and>
    length (sh_levels (fst c)) \<le> length (sh_levels (fst c'))"
  using assms(1)
proof cases
  case (one_task ts i s)
  obtain s' t' where a: "advance s (ts ! i) = (s', t')" by fastforce
  with advance_ok [OF _ _ a] advance_shrinks [OF a] one_task assms(2) show ?thesis
    by (auto simp: state_ok_def step_task_def can_step_def list_all_length)
qed

lemma mixed_step_ok:
  assumes "mixed_step x y" "mixed_ok A x"
  shows "mixed_ok A y"
  using assms(1)
proof cases
  case (writer c c' rs)
  obtain s ts s' ts' where c: "c = (s, ts)" "c' = (s', ts')" by (metis surj_pair)
  with writer assms(2) have ok: "state_ok (s, ts)" "level_nodes s \<union> \<Union> (task_nodes ` set ts) \<subseteq> A"
      "list_all (reader_ok (unat (sh_k s)) A (length (sh_levels s))) rs"
    by (simp_all add: mixed_ok_def)
  have "sh_k s' = sh_k s" "length (sh_levels s) \<le> length (sh_levels s')"
    using task_step_shape [OF writer(3)] c ok(1) by simp_all
  with ok(3) have "list_all (reader_ok (unat (sh_k s')) A (length (sh_levels s'))) rs"
    by (auto simp: list_all_iff intro: reader_ok_mono)
  with task_step_ok [OF writer(3)] task_step_nodes [OF writer(3), of A] ok c writer(2) show ?thesis
    by (simp add: mixed_ok_def)
next
  case (reader j rs c)
  obtain s ts where c: "c = (s, ts)" by (metis surj_pair)
  with reader assms(2) have ok: "state_ok (s, ts)" "level_nodes s \<union> \<Union> (task_nodes ` set ts) \<subseteq> A"
      "list_all (reader_ok (unat (sh_k s)) A (length (sh_levels s))) rs"
    by (simp_all add: mixed_ok_def)
  have "reader_ok (unat (sh_k s)) A (length (sh_levels s)) (look_advance s (rs ! j))"
    using ok reader(3) by (intro look_advance_ok) (auto simp: state_ok_def shared_ok_def list_all_length)
  with ok(3) have "list_all (reader_ok (unat (sh_k s)) A (length (sh_levels s))) (rs[j := look_advance s (rs ! j)])"
    by (auto simp: list_all_iff dest!: subsetD [OF set_update_subset_insert])
  with ok reader(2) c show ?thesis by (simp add: mixed_ok_def)
qed

lemma mixed_run_ok:
  assumes "mixed_run r calls targets n x" "router_ok r"
  shows "mixed_ok (set (all_nodes (buckets r)) \<union> {m. AddCall m \<in> set calls}) x"
  using assms(1)
proof (induction rule: mixed_run.induct)
  case mixed_start
  from run_start [OF this] have "tasks_run r calls 0 (shared_of r, calls)" .
  from tasks_run_ok [OF this assms(2)] tasks_run_nodes [OF this assms(2)] show ?case
    by (simp add: mixed_ok_def list_all_iff)
qed (rule mixed_step_ok)

lemma mixed_run_k: "mixed_run r calls targets n x \<Longrightarrow> router_ok r \<Longrightarrow> sh_k (fst (fst x)) = k_size (buckets r)"
proof (induction rule: mixed_run.induct)
  case (mixed_next n x y)
  have "state_ok (fst x)" using mixed_run_ok [OF mixed_next(1,4)] by (auto simp: mixed_ok_def split: prod.split_asm)
  with mixed_next show ?case by (auto elim!: mixed_step.cases dest: task_step_shape)
qed (simp add: shared_of_def)

subsection \<open>Termination\<close>

text \<open>A lookup of the bucket at level \<open>l\<close> takes fewer than \<open>4 * 2 ^ (160 - l)\<close> steps, as it may ask the next
  bucket twice.\<close>

fun look_cost :: "nat \<Rightarrow> nat" where
  "look_cost 0 = 0"
| "look_cost (Suc m) = 4 + 2 * look_cost m"

lemma look_cost_closed: "look_cost m + 4 = 4 * 2 ^ m"
  by (induction m) simp_all

fun look_weight :: "look_frame \<Rightarrow> nat" where
  "look_weight (LookFrame l LookEnter) = look_cost (160 - l)"
| "look_weight (LookFrame l LookFirst) = look_cost (159 - l) + 3"
| "look_weight (LookFrame l (LookHere ns)) = look_cost (159 - l) + 2"
| "look_weight (LookFrame l (LookAgain ns)) = look_cost (159 - l) + 1"
| "look_weight (LookFrame l (LookRest ns)) = 0"

fun reader_weight :: "reader \<Rightarrow> nat" where
  "reader_weight (LookCall i) = Suc (look_cost 160)"
| "reader_weight (Looking i fs) = sum_list (map look_weight fs)"
| "reader_weight rd = 0"

lemma look_cost_level: "l < 160 \<Longrightarrow> look_cost (160 - l) = 4 + 2 * look_cost (159 - l)"
  using look_cost.simps(2) [of "159 - l"] by (simp add: Suc_diff_le [symmetric])

lemma deliver_weight: "list_all (\<lambda>f. waiting (lf_pc f)) fs \<Longrightarrow> reader_weight (deliver k i ns fs) \<le> sum_list (map look_weight fs)"
proof (induction k i ns fs rule: deliver.induct)
  case (2 k i ns l pc fs)
  then show ?case by (cases pc) auto
qed simp

lemma reader_weight_less:
  assumes "reader_ok k A (length (sh_levels s)) rd" "length (sh_levels s) \<le> 160" "looking rd" "k = unat (sh_k s)"
  shows "reader_weight (look_advance s rd) < reader_weight rd"
proof (cases rd)
  case (Looking i gs)
  with assms(1) obtain l pc fs where gs: "gs = LookFrame l pc # fs" by (cases gs; cases "hd gs") auto
  with Looking assms have ok: "l < 160" "sound_vec k A (collected pc)" "\<not> waiting pc" "list_all (\<lambda>f. waiting (lf_pc f)) fs"
    by (auto simp: look_frame_ok_def look_stack_ok_def list_all_iff)
  note cost = look_cost_level [OF ok(1)]
  show ?thesis
  proof (cases pc)
    case (LookAgain ns)
    with ok assms(4) deliver_weight [OF ok(4), of k i ns] Looking gs show ?thesis
      by (auto simp: Let_def sound_vec_def)
  qed (use ok assms(4) cost Looking gs in \<open>auto simp: Let_def sound_vec_def\<close>)
qed (use assms(3) in \<open>simp_all add: looking_def\<close>)

definition mixed_potential :: "mixed \<Rightarrow> nat" where
  "mixed_potential x = potential (fst x) + sum_list (map reader_weight (snd x))"

lemma mixed_potential_less:
  assumes "mixed_step x y" "mixed_ok A x"
  shows "mixed_potential y < mixed_potential x"
  using assms(1)
proof cases
  case (writer c c' rs)
  with assms(2) have "state_ok c" by (cases c) (simp add: mixed_ok_def)
  with writer potential_less [OF writer(3)] show ?thesis by (simp add: mixed_potential_def)
next
  case (reader j rs c)
  obtain s ts where c: "c = (s, ts)" by (metis surj_pair)
  have "reader_weight (look_advance s (rs ! j)) < reader_weight (rs ! j)"
    using assms(2) reader c
    by (intro reader_weight_less [of "unat (sh_k s)" A])
      (auto simp: mixed_ok_def list_all_length state_ok_def shared_ok_def can_look_def)
  then have "0 + sum_list (map reader_weight (rs[j := look_advance s (rs ! j)])) < 0 + sum_list (map reader_weight rs)"
    using reader(3) by (intro sum_list_replaced) auto
  with reader c show ?thesis by (simp add: mixed_potential_def)
qed

interpretation mixed: bounded_system mixed_step "mixed_ok A" mixed_potential for A
  by unfold_locales (rule mixed_step_ok mixed_potential_less; assumption)+

lemma mixed_run_relpow:
  "mixed_run r calls targets n x \<Longrightarrow> (mixed_step ^^ n) ((shared_of r, calls), map LookCall targets) x"
  by (induction rule: mixed_run.induct) auto

lemma mixed_run_fresh: "mixed_run r calls targets n x \<Longrightarrow> list_all fresh calls"
  by (induction rule: mixed_run.induct)

lemma mixed_potential_start:
  assumes "list_all fresh calls"
  shows "mixed_potential ((shared_of r, calls), map LookCall targets) \<le>
    256160 * capacity (buckets r) + 1600 * length calls + 2 ^ 162 * length targets"
proof -
  have "look_cost 160 \<le> 2 ^ 162 - 1" using look_cost_closed [of 160] by simp
  then have "length targets * Suc (look_cost 160) \<le> length targets * 2 ^ 162" by (intro mult_le_mono2) simp
  then have "sum_list (map (\<lambda>i. reader_weight (LookCall i)) targets) \<le> 2 ^ 162 * length targets"
    by (simp only: reader_weight.simps sum_list_triv of_nat_id mult.commute)
  with potential_start [OF assms, of r] show ?thesis by (simp add: mixed_potential_def comp_def)
qed

text \<open>When the writers have returned no lock is held, so every lookup can go on.\<close>

lemma some_call_steps:
  assumes "mixed_ok A ((s, ts), rs)" "(\<exists>t\<in>set ts. running t) \<or> (\<exists>rd\<in>set rs. looking rd)"
  shows "\<exists>y. mixed_step ((s, ts), rs) y"
proof (cases "\<exists>t\<in>set ts. running t")
  case True
  moreover have "state_ok (s, ts)" using assms(1) by (simp add: mixed_ok_def)
  ultimately obtain c' where "task_step (s, ts) c'" using some_task_steps by blast
  then show ?thesis by (blast intro: writer)
next
  case False
  have "held t = []" if "\<not> running t" for t using that by (cases t) (simp_all add: running_def)
  with False have "list_all (\<lambda>u. l \<notin> set (held u)) ts" for l by (simp add: list_all_iff)
  then have "can_look (s, ts) rd" if "looking rd" for rd using that by (simp add: can_look_def split: option.split)
  with assms(2) False show ?thesis by (metis in_set_conv_nth reader)
qed

subsection \<open>A lookup on its own\<close>

abbreviation look_steps :: "shared \<Rightarrow> reader \<Rightarrow> reader \<Rightarrow> bool" where
  "look_steps s rd rd' \<equiv> \<exists>m. (look_advance s ^^ m) rd = rd'"

lemma look_then: "look_steps s (look_advance s rd) rd' \<Longrightarrow> look_steps s rd rd'"
  by (metis comp_apply funpow_Suc_right)

lemma look_trans: "look_steps s rd rd' \<Longrightarrow> look_steps s rd' rd'' \<Longrightarrow> look_steps s rd rd''"
  by (metis comp_apply funpow_add)

lemma look_refl: "look_steps s rd rd"
  by (rule exI [of _ 0]) simp

lemma chain_here:
  assumes "chain_ok s l (Bucket own index k ns nx)" "sh_levels s = pre @ levels (Bucket own index k ns nx)" "length pre = l"
  shows "sh_levels s ! l = ns" "has_next s l \<longleftrightarrow> nx \<noteq> None" "sh_k s = k"
    "belongs_at s l i = id_belongs_here (Bucket own index k ns nx) i"
  using assms levels_nonempty
  by (auto simp: has_next_def belongs_at_def id_belongs_here_def nth_append split: option.split)

text \<open>The three parts of a call: the first vector, the nodes of the bucket itself, the second vector.\<close>

lemma lookup_parts:
  assumes "lookup (Bucket own index k ms nx) i = Inr ns"
  obtains kn where
    "if nx \<noteq> None \<and> \<not> id_belongs_here (Bucket own index k ms nx) i then lookup (the nx) i = Inr kn else kn = []"
    "length kn \<le> unat k"
    "let kn' = kn @ take (unat k - length kn) ms
     in if nx \<noteq> None \<and> length kn' < unat k
        then \<exists>m. lookup (the nx) i = Inr m \<and> ns = kn' @ take (unat k - length kn') m else ns = kn'"
proof -
  obtain kn where kn: "(case nx of Some nb \<Rightarrow> if \<not> id_belongs_here (Bucket own index k ms nx) i then lookup nb i else Inr []
      | None \<Rightarrow> Inr []) = Inr kn" "length kn \<le> unat k"
    using assms by (auto split: if_split_asm)
  have gap: "(if 0 < unat k - length kn then kn @ take (unat k - length kn) ms else kn) = kn @ take (unat k - length kn) ms"
    by simp
  show thesis
  proof (rule that [of kn])
    show "let kn' = kn @ take (unat k - length kn) ms in if nx \<noteq> None \<and> length kn' < unat k
        then \<exists>m. lookup (the nx) i = Inr m \<and> ns = kn' @ take (unat k - length kn') m else ns = kn'"
      using assms unfolding lookup.simps kn(1) rbind.simps gap Let_def
      using kn(2) by (cases nx) (auto split: if_split_asm)
  qed (use kn in \<open>auto split: option.split_asm if_split_asm\<close>)
qed

lemma look_bucket:
  assumes "lookup b i = Inr ns" "chain_ok s l b" "sh_levels s = pre @ levels b" "length pre = l"
  shows "look_steps s (Looking i (LookFrame l LookEnter # fs)) (deliver (unat (sh_k s)) i ns fs)"
  using assms
proof (induction b arbitrary: l pre ns fs)
  case (Bucket own index k ms nx)
  note here = chain_here [OF Bucket.prems(2-4)]
  have down: "look_steps s (Looking i (LookFrame (Suc l) LookEnter # gs)) (deliver (unat k) i m gs)"
    if "nx \<noteq> None" "lookup (the nx) i = Inr m" for m gs
    using Bucket.IH [of "the nx" m "Suc l" "pre @ [ms]" gs] that Bucket.prems(2-4) here(3) by (cases nx) auto
  obtain kn where kn: "if nx \<noteq> None \<and> \<not> id_belongs_here (Bucket own index k ms nx) i then lookup (the nx) i = Inr kn else kn = []"
    "length kn \<le> unat k"
    "let kn' = kn @ take (unat k - length kn) ms
     in if nx \<noteq> None \<and> length kn' < unat k
        then \<exists>m. lookup (the nx) i = Inr m \<and> ns = kn' @ take (unat k - length kn') m else ns = kn'"
    using lookup_parts [OF Bucket.prems(1)] by blast
  define kn' where "kn' = kn @ take (unat k - length kn) ms"
  have "look_steps s (Looking i (LookFrame l LookEnter # fs)) (Looking i (LookFrame l (LookHere kn) # fs))"
  proof (cases "has_next s l \<and> \<not> belongs_at s l i")
    case True
    with kn(1) here down [of kn "LookFrame l LookFirst # fs"] show ?thesis by - (rule look_then, simp)
  next
    case False
    with kn(1) here(2,4) have "kn = []" by (simp split: if_split_asm)
    with False show ?thesis by - (rule look_then, auto simp: look_refl)
  qed
  moreover have "look_steps s (Looking i (LookFrame l (LookHere kn) # fs)) (Looking i (LookFrame l (LookAgain kn') # fs))"
    using kn(2) here(1,3) by - (rule look_then, simp add: Let_def kn'_def look_refl)
  moreover have "look_steps s (Looking i (LookFrame l (LookAgain kn') # fs)) (deliver (unat (sh_k s)) i ns fs)"
  proof (cases "nx \<noteq> None \<and> length kn' < unat k")
    case True
    with kn(3) obtain m where m: "lookup (the nx) i = Inr m" "ns = kn' @ take (unat k - length kn') m"
      by (auto simp: Let_def kn'_def)
    from down [OF _ m(1), of "LookFrame l (LookRest kn') # fs"] True m(2) here(2,3) show ?thesis
      by - (rule look_then, simp add: Let_def)
  next
    case False
    with kn(3) have "ns = kn'" by (auto simp: Let_def kn'_def)
    moreover have "length kn' \<le> unat k" using kn(2) by (simp add: kn'_def)
    ultimately show ?thesis using False here(2,3) by - (rule look_then, auto simp: Let_def look_refl)
  qed
  ultimately show ?case using look_trans by blast
qed

lemma chain_of_router: "router_ok r \<Longrightarrow> chain_ok (shared_of r) 0 (buckets r)"
  by (intro table_chain) (simp_all add: router_ok_def table_ok_def shared_of_def)

text \<open>A single lookup has no choice: a run of it is an iteration of its step.\<close>

lemma look_ended: "\<not> looking rd \<Longrightarrow> (look_advance s ^^ m) rd = rd"
  by (induction m) (cases rd; simp add: looking_def)+

lemma single_look_run: "mixed_run r [] [i] n x \<Longrightarrow> x = ((shared_of r, []), [(look_advance (shared_of r) ^^ n) (LookCall i)])"
proof (induction rule: mixed_run.induct)
  case (mixed_next n x y)
  from mixed_next(2) show ?case unfolding mixed_next(3) 
    by (auto elim!: mixed_stepE task_stepE simp: can_step_def)
qed simp

lemma single_look_exists: "\<exists>m. mixed_run r [] [i] m ((shared_of r, []), [(look_advance (shared_of r) ^^ n) (LookCall i)])"
proof (induction n)
  case 0
  show ?case using mixed_start [of "[]" r "[i]"] by auto
next
  case (Suc n)
  then obtain m where m: "mixed_run r [] [i] m ((shared_of r, []), [(look_advance (shared_of r) ^^ n) (LookCall i)])" by blast
  let ?rd = "(look_advance (shared_of r) ^^ n) (LookCall i)"
  show ?case
  proof (cases "looking ?rd")
    case True
    then have "can_look (shared_of r, []) ?rd" by (simp add: can_look_def split: option.split)
    with mixed_next [OF m] reader [of 0 "[?rd]" "(shared_of r, [])"] show ?thesis by (intro exI [of _ "Suc m"]) simp
  next
    case False
    with m show ?thesis using look_ended [OF False, where s = "shared_of r" and m = 1] by auto
  qed
qed

lemma look_end_unique:
  assumes "(look_advance s ^^ m) rd = x" "(look_advance s ^^ n) rd = y" "\<not> looking x" "\<not> looking y"
  shows "x = y"
proof (cases "m \<le> n")
  case True
  then have "y = (look_advance s ^^ (n - m)) x" using assms(1,2) by (metis funpow_add comp_apply le_add_diff_inverse2)
  with assms(3) show ?thesis by (simp add: look_ended)
next
  case False
  then have "x = (look_advance s ^^ (m - n)) y" using assms(1,2) by (metis funpow_add comp_apply le_add_diff_inverse2 nat_le_linear)
  with assms(4) show ?thesis by (simp add: look_ended)
qed

subsection \<open>A lookup beside a split\<close>

text \<open>A call of \<open>add\<close> splits a full bucket while a lookup for the identifier of one of its nodes is under
  way.  The lookup has read the new bucket before that node is moved there, and reads the old one after.\<close>

definition miss_router :: router where
  "miss_router = filled_router (ex_node 7 # map far_node [1, 2, 3, 4, 5, 6, 7])"

definition miss_schedule :: "(nat + nat) list" where
  "miss_schedule = replicate 6 (Inl 0) @ replicate 5 (Inr 0) @ replicate 15 (Inl 0) @ replicate 2 (Inr 0)"

definition miss_state :: shared where
  "miss_state = \<lparr>sh_own = u160_min, sh_k = 8, sh_levels = [map far_node [7, 1, 2, 3, 4, 5, 6, 8], [ex_node 7]], sh_banned = []\<rparr>"

lemma miss_end: "mixed_schedule miss_schedule ((shared_of miss_router, [AddCall (far_node 8)]), [LookCall (node_id (ex_node 7))]) =
   Some ((miss_state, [Finished]), [Returned (map far_node [7, 1, 2, 3, 4, 5, 6, 8])])"
  by code_simp

lemma mixed_schedule_run:
  "mixed_run r calls targets n x \<Longrightarrow> mixed_schedule is x = Some y \<Longrightarrow> mixed_run r calls targets (n + length is) y"
proof (induction "is" x arbitrary: n rule: mixed_schedule.induct)
  case (2 i "is" c rs)
  then have "can_step (snd c) i" by (simp split: if_split_asm)
  then have "task_step c (step_task i c)" using one_task [of "snd c" i "fst c"] by simp
  with 2 show ?case using mixed_next [OF 2(2) writer] by (fastforce split: if_split_asm)
next
  case (3 j "is" c rs)
  with mixed_next [OF 3(2) reader] show ?case by (fastforce split: if_split_asm)
qed simp

lemma miss_router_reachable: "router_reachable (ex_node 0) miss_router"
  unfolding miss_router_def by (rule filled_reachable) (simp_all add: far_node_def ex_node_def u160_new_def)

lemma miss_run: "\<exists>n. mixed_run miss_router [AddCall (far_node 8)] [node_id (ex_node 7)] n
    ((miss_state, [Finished]), [Returned (map far_node [7, 1, 2, 3, 4, 5, 6, 8])])"
proof -
  have "mixed_run miss_router [AddCall (far_node 8)] [node_id (ex_node 7)] 0
      ((shared_of miss_router, [AddCall (far_node 8)]), [LookCall (node_id (ex_node 7))])"
    using mixed_start [of "[AddCall (far_node 8)]" miss_router "[node_id (ex_node 7)]"] by (simp add: fresh_def)
  from mixed_schedule_run [OF this miss_end] show ?thesis by blast
qed

subsection \<open>Properties\<close>

text \<open>C16: Lookups beside any interleaving of \<open>add\<close> and \<open>ban_id\<close> do not panic (the capacity minus the length of
  what is collected never underflows), return at most \<open>k\<close> nodes, and only nodes that the table held or
  that a call adds; and to the other calls they are invisible.\<close>

theorem lookups_sound:
  assumes "mixed_run r calls targets n ((s, ts), rs)" "router_ok r"
  shows "(\<exists>m\<le>n. tasks_run r calls m (s, ts)) \<and> (\<forall>e. LookPanicked e \<notin> set rs) \<and>
    (\<forall>ns. Returned ns \<in> set rs \<longrightarrow> length ns \<le> capacity (buckets r) \<and>
       set ns \<subseteq> set (all_nodes (buckets r)) \<union> {m. AddCall m \<in> set calls})"
proof -
  let ?A = "set (all_nodes (buckets r)) \<union> {m. AddCall m \<in> set calls}"
  have "reader_ok (capacity (buckets r)) ?A (length (sh_levels s)) rd" if "rd \<in> set rs" for rd
    using mixed_run_ok [OF assms] mixed_run_k [OF assms] that by (simp add: mixed_ok_def list_all_iff capacity_def)
  then show ?thesis using mixed_run_writers [OF assms(1)] by (fastforce simp: sound_vec_def)
qed

theorem lookups_sound_witness:
  "set (map far_node [7, 1, 2, 3, 4, 5, 6, 8]) \<subseteq> set (all_nodes (buckets miss_router)) \<union> {m. AddCall m \<in> set [AddCall (far_node 8)]}"
proof -
  obtain n where "mixed_run miss_router [AddCall (far_node 8)] [node_id (ex_node 7)] n
    ((miss_state, [Finished]), [Returned (map far_node [7, 1, 2, 3, 4, 5, 6, 8])])" using miss_run by blast
  moreover have "router_ok miss_router" using miss_router_reachable router_reachable_ok by blast
  ultimately show ?thesis using lookups_sound by (metis list.set_intros(1))
qed

text \<open>C36: With lookups every run still ends: as long as a call has not returned some call can go on, until all
  have, after at most \<open>2 ^ 162\<close> steps for each lookup beside those of the other calls.\<close>

theorem lookups_end:
  assumes "mixed_run r calls targets n ((s, ts), rs)" "router_ok r"
  shows "n \<le> 256160 * capacity (buckets r) + 1600 * length calls + 2 ^ 162 * length targets \<and>
    ((\<exists>t\<in>set ts. running t) \<or> (\<exists>rd\<in>set rs. looking rd) \<longrightarrow> (\<exists>y. mixed_step ((s, ts), rs) y)) \<and>
    (\<exists>c ts' rs'. mixed_step\<^sup>*\<^sup>* ((s, ts), rs) ((c, ts'), rs') \<and> (\<forall>t\<in>set ts'. \<not> running t) \<and> (\<forall>rd\<in>set rs'. \<not> looking rd))"
proof -
  note fr = mixed_run_fresh [OF assms(1)] and ok = mixed_run_ok [OF assms]
  have b: "n \<le> mixed_potential ((shared_of r, calls), map LookCall targets)"
    using mixed.run_bound [OF mixed_run_relpow [OF assms(1)] mixed_run_ok [OF mixed_start [OF fr] assms(2)]] by simp
  have "n \<le> 256160 * capacity (buckets r) + 1600 * length calls + 2 ^ 162 * length targets"
    by (rule le_trans [OF b mixed_potential_start [OF fr]])
  moreover obtain c ts' rs' where "mixed_step\<^sup>*\<^sup>* ((s, ts), rs) ((c, ts'), rs')"
      "mixed_ok (set (all_nodes (buckets r)) \<union> {m. AddCall m \<in> set calls}) ((c, ts'), rs')" "\<nexists>y. mixed_step ((c, ts'), rs') y"
    using mixed.comes_to_rest [OF ok] by (metis surj_pair)
  ultimately show ?thesis using some_call_steps [OF ok] some_call_steps [of _ c ts' rs'] by blast
qed

theorem lookups_end_witness:
  "\<exists>y. mixed_step ((shared_of empty_router, [AddCall (ex_node 9)]), [LookCall u160_max]) y"
  using lookups_end [OF mixed_start empty_router_ok, of "[AddCall (ex_node 9)]" "[u160_max]"]
  by (simp add: fresh_def running_def)

text \<open>C17: A lookup that nothing interleaves with returns what the uninterrupted \<open>lookup\<close> of \<open>Bucket\<close> returns.\<close>

theorem lookup_alone:
  assumes "router_ok r"
  shows "\<exists>ns. lookup (buckets r) i = Inr ns \<and> (\<exists>n. mixed_run r [] [i] n ((shared_of r, []), [Returned ns])) \<and>
    (\<forall>n s rd. mixed_run r [] [i] n ((s, []), [rd]) \<and> \<not> looking rd \<longrightarrow> s = shared_of r \<and> rd = Returned ns)"
proof -
  let ?f = "look_advance (shared_of r)"
  obtain ns where ns: "lookup (buckets r) i = Inr ns"
    using assms bucket.lookup_ok [of "buckets r" i] by (auto simp: router_ok_def)
  have "look_steps (shared_of r) (Looking i [LookFrame 0 LookEnter]) (Returned ns)"
    using look_bucket [OF ns chain_of_router [OF assms], of "[]" "[]"] by (simp add: shared_of_def)
  then obtain m where m: "(?f ^^ m) (LookCall i) = Returned ns"
    using look_then [of "shared_of r" "LookCall i" "Returned ns"] by auto
  have "s = shared_of r \<and> rd = Returned ns" if "mixed_run r [] [i] n ((s, []), [rd])" "\<not> looking rd" for n s rd
  proof -
    have eq: "s = shared_of r" "(?f ^^ n) (LookCall i) = rd" using single_look_run [OF that(1)] by simp_all
    moreover have "rd = Returned ns" by (rule look_end_unique [OF eq(2) m that(2)]) (simp add: looking_def)
    ultimately show ?thesis by blast
  qed
  moreover have "\<exists>n. mixed_run r [] [i] n ((shared_of r, []), [Returned ns])"
    using single_look_exists [of r i m] unfolding m .
  ultimately show ?thesis using ns by blast
qed

theorem lookup_alone_witness: "\<exists>n. mixed_run empty_router [] [u160_max] n ((shared_of empty_router, []), [Returned []])"
proof -
  have "lookup (buckets empty_router) u160_max = Inr []" by (simp add: empty_router_def root_def Let_def)
  with lookup_alone [OF empty_router_ok, of u160_max] show ?thesis by auto
qed

text \<open>C37: A lookup can miss the very node it is for: while the bucket of that node is split by a concurrent
  \<open>add\<close>, the lookup reads the new bucket before the node is moved there and the old one after it is full
  again, and returns eight nodes that are all further away.\<close>

theorem lookup_can_miss:
  "router_reachable (ex_node 0) miss_router \<and> ex_node 7 \<in> set (all_nodes (buckets miss_router)) \<and>
   (\<exists>n s ns. mixed_run miss_router [AddCall (far_node 8)] [node_id (ex_node 7)] n ((s, [Finished]), [Returned ns]) \<and>
      ex_node 7 \<in> \<Union> (set ` set (sh_levels s)) \<and> ex_node 7 \<notin> set ns \<and> length ns = 8)"
proof -
  have "ex_node 7 \<notin> set (map far_node [7, 1, 2, 3, 4, 5, 6, 8])" by (simp add: far_node_def ex_node_def u160_new_def)
  moreover have "ex_node 7 \<in> \<Union> (set ` set (sh_levels miss_state))" by (simp add: miss_state_def)
  moreover have "ex_node 7 \<in> set (all_nodes (buckets miss_router))" by (simp add: miss_router_def filled_router_def)
  ultimately show ?thesis using miss_run miss_router_reachable by fastforce
qed

end
