(* ===== verification/Storage.thy ===== *)
theory Storage
  imports Router Bencode
begin

text \<open>
  The file of the routing table: \<open>save_to_file\<close> and \<open>load_from_file\<close> of \<open>router/bucket.rs\<close> and the start of
  a router from it, down to the bytes.  A file is \<open>None\<close> when it does not exist.  The byte format of
  \<open>bt_bencode\<close> is the parameters \<open>enc\<close> and \<open>dec\<close>; \<open>file_laws\<close> says that it reads back the trees that have
  no dictionaries.
\<close>

subsection \<open>Operations\<close>

datatype save_error = OpeningFile | SerializeLabel | JoinLabel

text \<open>Opening truncates the file.  The serialization runs in a blocking task: its panic is the error of the
  join, which carries the label \<open>serialize\<close>, and its own error carries the label \<open>join\<close>; in both cases the
  file holds what had been written by then, \<open>written\<close>.\<close>

definition save_to_file ::
  "(bval \<Rightarrow> 'e + bytes) \<Rightarrow> bool \<Rightarrow> bytes \<Rightarrow> bucket \<Rightarrow> bytes option \<Rightarrow> (save_error + unit) \<times> bytes option" where
  "save_to_file enc can_open written b old =
     (if \<not> can_open then (Inl OpeningFile, old)
      else case bucket_serialize b of
             Inl f \<Rightarrow> (Inl SerializeLabel, Some written)
           | Inr es \<Rightarrow>
               (case enc (BList es) of
                  Inl e \<Rightarrow> (Inl JoinLabel, Some written)
                | Inr bs \<Rightarrow> (Inr (), Some bs)))"

definition read_sequence :: "(bytes \<Rightarrow> bval option) \<Rightarrow> bytes option \<Rightarrow> unit + bval list" where
  "read_sequence dec file =
     (case file of
        None \<Rightarrow> Inl ()
      | Some bs \<Rightarrow> (case dec bs of Some (BList es) \<Rightarrow> Inr es | _ \<Rightarrow> Inl ()))"

definition start_router :: "(bytes \<Rightarrow> bval option) \<Rightarrow> bytes option \<Rightarrow> node_info \<Rightarrow> router res" where
  "start_router dec file node = router_new (read_sequence dec file) node"

subsection \<open>Laws of the format\<close>

fun plain_tree :: "bval \<Rightarrow> bool" where
  "plain_tree (BDict es) = False"
| "plain_tree (BList vs) = list_all plain_tree vs"
| "plain_tree v = True"

definition file_laws :: "(bval \<Rightarrow> 'e + bytes) \<Rightarrow> (bytes \<Rightarrow> bval option) \<Rightarrow> bool" where
  "file_laws enc dec \<longleftrightarrow> (\<forall>t. plain_tree t \<longrightarrow> (\<exists>bs. enc t = Inr bs \<and> dec bs = Some t))"

lemma plain_canon: "plain_tree t \<Longrightarrow> canon t = t"
  by (induction t) (auto simp: list_all_iff intro: map_idI)

lemma file_laws_bencode: "file_laws benc bdec"
  by (auto simp: file_laws_def benc_def bdec_emit plain_canon)

lemma plain_ser_df: "ser_df b depth = Inr es \<Longrightarrow> list_all plain_tree es"
proof (induction b arbitrary: depth es)
  case (Bucket own index k ns nx)
  then show ?case by (cases nx) (auto simp: list_all_iff rbind_eq_Inr split: if_split_asm)
qed

lemma plain_bucket: "bucket_serialize b = Inr es \<Longrightarrow> plain_tree (BList es)"
  by (auto simp: bucket_serialize_def rbind_eq_Inr plain_ser_df)

lemma saved_file:
  assumes "file_laws enc dec" "table_ok b" "\<forall>n\<in>set (all_nodes b). plain_addr (node_addr n)"
  shows "\<exists>bs. save_to_file enc True written b old = (Inr (), Some bs) \<and>
    start_router dec (Some bs) node = Inr \<lparr>buckets = b, banned_ids = []\<rparr>"
proof -
  obtain es where es: "bucket_serialize b = Inr es" "bucket_visit_seq es = Inr b"
    using bucket_serde [of b] assms(2,3) by (auto simp: table_ok_def)
  obtain bs where "enc (BList es) = Inr bs" "dec bs = Some (BList es)"
    using assms(1) plain_bucket [OF es(1)] unfolding file_laws_def by blast
  with es show ?thesis
    by (simp add: save_to_file_def start_router_def read_sequence_def router_new_def load_from_file_def)
qed

lemma short_file:
  assumes "table_ok b" "bucket_serialize b = Inr es" "j < 4"
  shows "bucket_visit_seq (take j es) = Inl (DePanic UnwrapNone)"
proof -
  have len: "length (levels b) \<le> 160" using levels_bound [of b] assms(1) by (simp add: table_ok_def)
  then have "ser_df b 1 = Inr (BInt (int (length (levels b))) # map ser_nodes (rev (levels b)))"
    using ser_df_eq [of 1 b] by simp
  with assms(2) have es: "es = BStr (u160_serialize (own_id b)) # BInt (uint (k_size b)) #
      BInt (int (length (levels b))) # map ser_nodes (rev (levels b))"
    by (simp add: bucket_serialize_def)
  have idx: "de_uint (BInt (int (length (levels b)))) = Inr (of_nat (length (levels b)) :: u8)"
    using len by (simp add: de_uint_def)
  from assms(3) consider "j = 0" | "j = 1" | "j = 2" | "j = 3" by linarith
  then show ?thesis
    by cases (simp_all add: es bucket_visit_seq_def de_elem_def de_bytes_def idx numeral_2_eq_2 numeral_3_eq_3)
qed

subsection \<open>Properties\<close>

text \<open>C40: Saving a well-formed table of plain addresses succeeds whatever the file held before, and a router
  started from the file has exactly that table, with its owner's identifier even when the node has another
  one, and no bans; a save that cannot open the file leaves it as it was.\<close>

theorem saved_table_restarts:
  assumes "file_laws enc dec" "table_ok b" "\<forall>n\<in>set (all_nodes b). plain_addr (node_addr n)"
  shows "fst (save_to_file enc True written b old) = Inr () \<and>
    start_router dec (snd (save_to_file enc True written b old)) node = Inr \<lparr>buckets = b, banned_ids = []\<rparr> \<and>
    save_to_file enc False written b old = (Inl OpeningFile, old)"
  using saved_file [OF assms, where written = written and old = old and node = node] by (auto simp: save_to_file_def)

theorem saved_table_restarts_witness:
  "start_router bdec (snd (save_to_file benc True [] (ex_table 8) None)) (ex_node 1) =
     Inr \<lparr>buckets = ex_table 8, banned_ids = []\<rparr>"
proof -
  have "\<forall>n\<in>set (all_nodes (ex_table 8)). plain_addr (node_addr n)" by (simp add: ex_table_def ex_node_def)
  from saved_table_restarts [OF file_laws_bencode ex_table_ok this] show ?thesis by blast
qed

text \<open>A router whose file is missing or cannot be parsed starts with an empty table under the identifier of its
  node.  A file that holds fewer than the first four elements of a saved table is not treated like
  that: starting the router panics.\<close>

theorem start_without_table:
  assumes "dec garbage = None" "table_ok b" "bucket_serialize b = Inr es" "dec short = Some (BList (take j es))" "j < 4"
  shows "start_router dec None node = Inr \<lparr>buckets = root (node_id node) K_SIZE, banned_ids = []\<rparr> \<and>
    start_router dec (Some garbage) node = Inr \<lparr>buckets = root (node_id node) K_SIZE, banned_ids = []\<rparr> \<and>
    start_router dec (Some short) node = Inl UnwrapNone"
  using assms short_file [OF assms(2,3,5)]
  by (simp add: start_router_def read_sequence_def router_new_def load_from_file_def)

theorem start_without_table_witness:
  "start_router bdec (Some [108, 101]) (ex_node 1) = Inl UnwrapNone \<and>
   start_router bdec (Some [1]) (ex_node 1) = Inr \<lparr>buckets = root (node_id (ex_node 1)) K_SIZE, banned_ids = []\<rparr>"
proof -
  obtain es where es: "bucket_serialize (ex_table 8) = Inr es" "plain_tree (BList es)"
    using bucket_serde [of "ex_table 8"] ex_table_ok plain_bucket by (fastforce simp: table_ok_def ex_table_def ex_node_def)
  have "bdec [1] = None" "bdec [108, 101] = Some (BList (take 0 es))" by (simp_all add: bdec_def) code_simp+
  from start_without_table [OF this(1) ex_table_ok es(1) this(2)] show ?thesis by simp
qed

end
