(* ===== verification/LookupCost.thy ===== *)
theory LookupCost
  imports Bucket
begin

text \<open>
  How often \<open>lookup\<close> of \<open>router/bucket.rs\<close> calls itself.  A bucket asks the next one before its own nodes
  when the target does not belong to it, and asks it once more when there is still room.
\<close>

fun lookup_calls :: "bucket \<Rightarrow> u160 \<Rightarrow> nat" where
  "lookup_calls (Bucket own index k ns nx) i =
     1 + (case nx of
            None \<Rightarrow> 0
          | Some nb \<Rightarrow>
              let first = \<not> id_belongs_here (Bucket own index k ns nx) i;
                  k_nearest = (if first then length (projr (lookup nb i)) else 0);
                  k_nearest' = k_nearest + min (unat k - k_nearest) (length ns)
              in (if first then lookup_calls nb i else 0) + (if 0 < unat k - k_nearest' then lookup_calls nb i else 0))"

lemma double_bound: "a \<le> 2 ^ m - 1 \<Longrightarrow> 1 + (a + a) \<le> 2 ^ Suc m - (1 :: nat)"
proof -
  assume "a \<le> 2 ^ m - 1"
  moreover have "1 \<le> (2 :: nat) ^ m" by simp
  ultimately show ?thesis by (simp only: power_Suc)
qed

lemma lookup_calls_bound: "lookup_calls b i \<le> 2 ^ length (levels b) - 1"
proof (induction b)
  case (Bucket own index k ns nx)
  show ?case
  proof (cases nx)
    case (Some nb)
    have "lookup_calls (Bucket own index k ns nx) i \<le> 1 + (lookup_calls nb i + lookup_calls nb i)"
      using Some by (simp add: Let_def)
    also have "\<dots> \<le> 2 ^ Suc (length (levels nb)) - 1" using Bucket.IH [of nb] Some by (intro double_bound) simp
    finally show ?thesis using Some by simp
  qed simp
qed

subsection \<open>Tables that were emptied\<close>

definition remove_all :: "u160 list \<Rightarrow> bucket \<Rightarrow> bucket" where
  "remove_all is b = fold (\<lambda>i b. snd (remove b i)) is b"

lemma remove_shape: "length (levels (snd (remove b i))) = length (levels b) \<and> own_id (snd (remove b i)) = own_id b"
proof (induction b)
  case (Bucket own index k ns nx)
  show ?case
  proof (cases nx)
    case (Some nb)
    with Bucket.IH [of nb] show ?thesis by (cases "remove nb i") (simp split: option.split)
  qed (simp split: option.split)
qed

lemma remove_all_table:
  assumes "table_ok b"
  shows "table_ok (remove_all is b) \<and> set (all_nodes (remove_all is b)) = {n \<in> set (all_nodes b). node_id n \<notin> set is} \<and>
    length (levels (remove_all is b)) = length (levels b) \<and> own_id (remove_all is b) = own_id b"
  using assms
proof (induction "is" arbitrary: b)
  case (Cons i "is")
  from Cons.IH [OF remove_table(1) [OF Cons.prems, of i]] remove_table(5) [OF Cons.prems, of i] remove_shape [of b i]
  show ?case by (auto simp: remove_all_def)
qed (simp add: remove_all_def)

lemma lookup_calls_empty:
  assumes "bucket_ok b" "all_nodes b = []" "own_id b = own"
  shows "lookup b own = Inr [] \<and> lookup_calls b own = 2 ^ length (levels b) - 1"
  using assms
proof (induction b)
  case (Bucket own' index k ns nx)
  show ?case
  proof (cases nx)
    case (Some nb)
    with Bucket have nb: "lookup nb own = Inr []" "lookup_calls nb own = 2 ^ length (levels nb) - 1"
      and k: "0 < unat k" by (auto simp: word_le_nat_alt)
    have "\<not> id_belongs_here (Bucket own index k ns nx) own" by (simp add: id_belongs_here_def u160.dist_self_bit)
    then have "lookup (Bucket own index k ns nx) own = Inr []"
      "lookup_calls (Bucket own index k ns nx) own = 1 + (lookup_calls nb own + lookup_calls nb own)"
      using Some Bucket.prems nb(1) k by (simp_all add: Let_def)
    moreover have "1 + ((2 ^ m - 1) + (2 ^ m - 1)) = 2 ^ Suc m - (1 :: nat)" for m
    proof -
      have "1 \<le> (2 :: nat) ^ m" by simp
      then show ?thesis by (simp only: power_Suc)
    qed
    ultimately show ?thesis using Some Bucket.prems(3) nb(2) by (simp del: lookup.simps lookup_calls.simps)
  qed (use Bucket.prems in \<open>auto simp: Let_def\<close>)
qed

subsection \<open>Tables that were not\<close>

text \<open>A bucket is split when it is full; as long as nothing is removed, at least \<open>k\<close> nodes are held from it on.\<close>

fun well_filled :: "bucket \<Rightarrow> bool" where
  "well_filled (Bucket own index k ns nx) =
     (case nx of None \<Rightarrow> True
      | Some nb \<Rightarrow> unat k \<le> length (all_nodes (Bucket own index k ns nx)) \<and> well_filled nb)"

lemma lookup_fills:
  assumes "bucket_ok b" "well_filled b" "next_bucket b \<noteq> None"
  shows "length (projr (lookup b i)) = unat (k_size b)"
  using lookup_visit [OF assms(1), of i] length_visit_order [of b i] assms(2,3)
  by (cases b) (auto split: option.split_asm)

lemma lookup_calls_linear: "bucket_ok b \<Longrightarrow> well_filled b \<Longrightarrow> lookup_calls b i \<le> length (levels b) + 1"
proof (induction b)
  case (Bucket own index k ns nx)
  show ?case
  proof (cases nx)
    case (Some nb)
    with Bucket.prems have nb: "bucket_ok nb" "well_filled nb" "k_size nb = k" by auto
    with Bucket.IH [of nb] Some have ih: "lookup_calls nb i \<le> length (levels nb) + 1" by simp
    show ?thesis
    proof (cases "next_bucket nb")
      case None
      then have "lookup_calls nb i = 1" by (cases nb) simp
      with Some show ?thesis by (cases nb) (simp add: Let_def)
    next
      case (Some nb')
      with lookup_fills [OF nb(1,2), of i] nb(3) have "length (projr (lookup nb i)) = unat k" by simp
      with \<open>nx = Some nb\<close> ih show ?thesis by (simp add: Let_def)
    qed
  qed simp
qed

subsection \<open>Properties\<close>



end
