(* ===== verification/Session.thy ===== *)
theory Session
  imports Exchange
begin

text \<open>
  The server over time: sequences of queries, each answered in the environment of its moment.
  What a server has stored it does not lose, and the handshake of BEP 5 works: the token that an
  answer to \<open>get_peers\<close> carries makes a later announcement stick.
\<close>

subsection \<open>Sequences of queries\<close>

fun answer_all ::
  "(('d, 'e) env \<times> query) list \<Rightarrow> server \<times> 'd \<Rightarrow> ((server \<times> 'd) \<times> query_result list) res" where
  "answer_all [] h = Inr (h, [])"
| "answer_all ((E, q) # qs) h =
     rbind (handle_query E h q) (\<lambda>(h', r). rbind (answer_all qs h') (\<lambda>(h'', rs). Inr (h'', r # rs)))"

text \<open>The environments of one node: the same database, format, checksum and cipher at every moment.\<close>

definition same_node :: "('d, 'e) env \<Rightarrow> ('d \<Rightarrow> bytes \<Rightarrow> bytes option) \<Rightarrow> ('d, 'e) env \<Rightarrow> bool" where
  "same_node E0 contents E \<longleftrightarrow> tree_laws E contents \<and> codec_laws E \<and> bdecode E = bdecode E0 \<and>
     crc32c E = crc32c E0 \<and> apply_keystream E = apply_keystream E0"

lemma stored_cong: "bdecode E = bdecode E' \<Longrightarrow> stored E contents d h ps = stored E' contents d h ps"
  by (simp add: stored_def cong: option.case_cong)

lemma handle_query_keeps:
  assumes "same_node E0 contents E" "stored E0 contents d i ps" "handle_query E (s, d) q = Inr ((s', d'), r)"
  shows "\<exists>qs. stored E0 contents d' i (ps @ qs)"
proof (cases "d' = d")
  case True
  with assms(2) show ?thesis by (metis append_Nil2)
next
  case False
  from assms(1) have E: "tree_laws E contents" "codec_laws E" "bdecode E = bdecode E0" by (simp_all add: same_node_def)
  from only_announce_writes [OF assms(3) False] obtain h port token where q: "query_meth q = AnnouncePeer h port token"
    by blast
  from served_announce [OF assms(3) q] False obtain p where
    p: "tree_update E d (u160_to_be_bytes h) (announce_update E \<lparr>socket_addr = Some p\<rparr>) = Inr (Inr d')" "plain_addr p"
    by auto
  show ?thesis
  proof (cases "h = i")
    case True
    with announce_contents(1) [OF E(1,2) _ p, of ps] assms(2) have "stored E0 contents d' i (insert_peer p ps)"
      by (simp add: stored_cong [OF E(3)])
    then show ?thesis unfolding insert_peer_def by (metis append_Nil2)
  next
    case False
    then have i: "i \<noteq> h" by simp
    have "contents d' (u160_to_be_bytes i) = contents d (u160_to_be_bytes i)"
    proof (cases "\<exists>qs. stored E contents d h qs")
      case True
      then obtain qs where "stored E contents d h qs" by blast
      from announce_contents(2) [OF E(1,2) this p i] show ?thesis .
    next
      case False
      obtain v where "contents d' = (contents d)(u160_to_be_bytes h := v)"
        using E(1) p(1) unfolding tree_laws_def by blast
      then show ?thesis using i by (metis fun_upd_other u160_to_be_bytes_inj)
    qed
    with assms(2) have "stored E0 contents d' i (ps @ [])" by (simp add: stored_def)
    then show ?thesis by blast
  qed
qed

lemma handle_query_same_server:
  assumes "handle_query E (s, d) q = Inr ((s', d'), r)"
  shows "srv_tokens s' = srv_tokens s" "srv_me s' = srv_me s"
proof -
  have "srv_tokens s' = srv_tokens s \<and> srv_me s' = srv_me s"
    using assms serve_base(1) by (fastforce simp: handle_query_split split: if_split_asm)
  then show "srv_tokens s' = srv_tokens s" "srv_me s' = srv_me s" by simp_all
qed

lemma answer_all_keeps:
  assumes "answer_all qs (s, d) = Inr ((s', d'), rs)" "\<forall>(E, q)\<in>set qs. same_node E0 contents E"
  shows "stored E0 contents d i ps \<Longrightarrow> \<exists>more. stored E0 contents d' i (ps @ more)"
    "srv_tokens s' = srv_tokens s" "srv_me s' = srv_me s"
proof -
  have "(stored E0 contents d i ps \<longrightarrow> (\<exists>more. stored E0 contents d' i (ps @ more))) \<and>
    srv_tokens s' = srv_tokens s \<and> srv_me s' = srv_me s"
    using assms
  proof (induction qs arbitrary: s d ps rs)
    case Nil
    then show ?case by (auto intro: exI [of _ "[]"])
  next
    case (Cons x qs)
    obtain E q where x: "x = (E, q)" by fastforce
    with Cons.prems obtain s1 d1 r rs' where
      hq: "handle_query E (s, d) q = Inr ((s1, d1), r)" and rest: "answer_all qs (s1, d1) = Inr ((s', d'), rs')"
      by auto
    have E: "same_node E0 contents E" and qs: "\<forall>(E, q)\<in>set qs. same_node E0 contents E"
      using Cons.prems(2) x by auto
    note ih = Cons.IH [OF rest qs]
    have "\<exists>more. stored E0 contents d' i (ps @ more)" if "stored E0 contents d i ps"
    proof -
      from handle_query_keeps [OF E that hq] obtain a where "stored E0 contents d1 i (ps @ a)" by blast
      with ih [of "ps @ a"] show ?thesis by auto
    qed
    with ih [of ps] handle_query_same_server [OF hq] show ?case by simp
  qed
  then show "stored E0 contents d i ps \<Longrightarrow> \<exists>more. stored E0 contents d' i (ps @ more)"
    "srv_tokens s' = srv_tokens s" "srv_me s' = srv_me s" by simp_all
qed

subsection \<open>The handshake\<close>

fun kind_token :: "response_kind \<Rightarrow> bytes option" where
  "kind_token (KNearest ns token) = token"
| "kind_token (Peers peers token ns) = Some token"
| "kind_token _ = None"

lemma get_peers_answer:
  assumes "tree_laws E contents" "stored E contents d i ps" "query_meth q = GetPeers i"
    "sender_id (origin (query_base q)) \<noteq> node_id (srv_me s)" "handle_query E (s, d) q = Inr ((s', d'), Inr resp)"
  shows "d' = d"
    "\<exists>token ns. token_generate (crc32c E) (apply_keystream E) (token_rand E) (clock E) (srv_tokens s)
        (sock_ip (sender_addr (origin (query_base q)))) = Inr token \<and>
      resp_kind resp = (if contents d (u160_to_be_bytes i) = None then KNearest ns (Some token)
                        else Peers ps token (Some ns))"
proof -
  from assms(3-5) obtain rt where gp: "handle_get_peers E (s\<lparr>srv_router := rt\<rparr>) d (query_reply_base s q)
      (sender_node (origin (query_base q))) i = Inr (Inr resp)" and d: "d' = d"
    by (auto simp: handle_query_split serve_def split: if_split_asm)
  have "node_addr (sender_node x) = sender_addr x" for x by (cases x) simp_all
  with handle_get_peers_stored [OF assms(1,2) gp] show
    "\<exists>token ns. token_generate (crc32c E) (apply_keystream E) (token_rand E) (clock E) (srv_tokens s)
        (sock_ip (sender_addr (origin (query_base q)))) = Inr token \<and>
      resp_kind resp = (if contents d (u160_to_be_bytes i) = None then KNearest ns (Some token)
                        else Peers ps token (Some ns))" by auto
  from d show "d' = d" .
qed

lemma announce_answer:
  assumes "query_meth q = AnnouncePeer i port token" "sender_id (origin (query_base q)) \<noteq> node_id (srv_me s)"
    "token_validate (crc32c E) (apply_keystream E) (clock E) (srv_tokens s) token
       (sock_ip (sender_addr (origin (query_base q)))) = Inr True"
    "node_validate (crc32c E) (rnd_ms E) (rnd_ls E) (sender_node (origin (query_base q)))"
    "handle_query E (s, d) q = Inr ((s', d'), r)"
  shows "r = Inl (into_error (query_reply_base s q) Server) \<or>
    r = Inr (into_response (query_reply_base s q) Ok) \<and>
    tree_update E d (u160_to_be_bytes i)
      (announce_update E \<lparr>socket_addr = Some (sock_new (sock_ip (sender_addr (origin (query_base q)))) port)\<rparr>) = Inr (Inr d')"
proof -
  have addr: "node_addr (sender_node x) = sender_addr x" for x by (cases x) simp_all
  from assms(1,2,5) obtain rt where
    "handle_announce E (s\<lparr>srv_router := rt\<rparr>) d (query_reply_base s q) (sender_node (origin (query_base q))) i port token = Inr (d', r)"
    by (auto simp: handle_query_split serve_def split: if_split_asm)
  with assms(3,4) show ?thesis
    by (auto simp: handle_announce_def addr split: sum.split_asm)
qed

lemma stored_Some: "stored E contents d i ps \<Longrightarrow> p \<in> set ps \<Longrightarrow> contents d (u160_to_be_bytes i) \<noteq> None"
  by (cases "contents d (u160_to_be_bytes i)") (auto simp: stored_def)

text \<open>C2: A node asks for the peers of an info hash and later, within the 120 seconds of the token it
  got, announces itself from the same IP address under an identifier that fits its address: unless
  the database fails the announcement is acknowledged, and every later answer about that info hash
  lists the announced address, whatever other queries the server has answered in between.\<close>

theorem announce_session:
  assumes node: "stream_cipher (apply_keystream E0)" "same_node E0 contents E1" "same_node E0 contents E2"
      "same_node E0 contents E3" "\<forall>(E, q)\<in>set (qs1 @ qs2). same_node E0 contents E" "stored E0 contents d0 i ps"
    and ask: "query_meth q1 = GetPeers i" "sender_id (origin (query_base q1)) \<noteq> node_id (srv_me s0)"
      "clock E1 = Some t1" "length (token_rand E1) = 8"
      "handle_query E1 (s0, d0) q1 = Inr ((s1, d1), Inr resp1)" "kind_token (resp_kind resp1) = Some token"
    and between: "answer_all qs1 (s1, d1) = Inr ((s2, d2), rs1)"
    and announce: "query_meth q2 = AnnouncePeer i port token" "sender_id (origin (query_base q2)) \<noteq> node_id (srv_me s0)"
      "sock_ip (sender_addr (origin (query_base q2))) = sock_ip (sender_addr (origin (query_base q1)))"
      "node_validate (crc32c E2) (rnd_ms E2) (rnd_ls E2) (sender_node (origin (query_base q2)))"
      "clock E2 = Some t2" "t1 \<le> t2" "unat t2 < unat t1 + 120" "unat t1 + 120 < 2 ^ 64"
      "handle_query E2 (s2, d2) q2 = Inr ((s3, d3), r2)" "r2 \<noteq> Inl (into_error (query_reply_base s2 q2) Server)"
    and after: "answer_all qs2 (s3, d3) = Inr ((s4, d4), rs2)"
    and ask_again: "query_meth q3 = GetPeers i" "sender_id (origin (query_base q3)) \<noteq> node_id (srv_me s0)"
      "handle_query E3 (s4, d4) q3 = Inr ((s5, d5), Inr resp3)"
  shows "r2 = Inr (into_response (query_reply_base s2 q2) Ok) \<and>
    (\<exists>peers token' ns. resp_kind resp3 = Peers peers token' (Some ns) \<and>
       sock_new (sock_ip (sender_addr (origin (query_base q2)))) port \<in> set peers)"
proof -
  let ?p = "sock_new (sock_ip (sender_addr (origin (query_base q2)))) port"
  have E: "tree_laws E contents" "codec_laws E" "bdecode E = bdecode E0" "crc32c E = crc32c E0"
    "apply_keystream E = apply_keystream E0" if "same_node E0 contents E" for E
    using that by (simp_all add: same_node_def)
  have st0: "stored E1 contents d0 i ps" using node(6) by (simp add: stored_cong [OF E(3) [OF node(2)]])
  note got = get_peers_answer [OF E(1) [OF node(2)] st0 ask(1,2,5)]
  from got(2) ask(3,6) have tok: "token_generate (crc32c E0) (apply_keystream E0) (token_rand E1) (Some t1) (srv_tokens s0)
      (sock_ip (sender_addr (origin (query_base q1)))) = Inr token"
    by (auto simp: E(4,5) [OF node(2)] split: if_split_asm)
  have qs: "\<forall>(E, q)\<in>set qs1. same_node E0 contents E" "\<forall>(E, q)\<in>set qs2. same_node E0 contents E"
    using node(5) by auto
  have s: "srv_tokens s2 = srv_tokens s0" "srv_me s2 = srv_me s0"
    using answer_all_keeps(2,3) [OF between qs(1)] handle_query_same_server [OF ask(5)] by simp_all
  have st1: "stored E0 contents d1 i ps" using node(6) got(1) by simp
  from answer_all_keeps(1) [OF between qs(1) st1] obtain more where
    st2: "stored E2 contents d2 i (ps @ more)" by (auto simp: stored_cong [OF E(3) [OF node(3)]])
  have valid: "token_validate (crc32c E2) (apply_keystream E2) (clock E2) (srv_tokens s2) token
       (sock_ip (sender_addr (origin (query_base q2)))) = Inr True"
    using token_validate_generated [OF node(1) ask(4) announce(8) tok, of t2] announce(3,5-7)
    by (simp add: E(4,5) [OF node(3)] s)
  from announce_answer [OF announce(1) _ valid announce(4,9)] announce(2,10) s have
    r2: "r2 = Inr (into_response (query_reply_base s2 q2) Ok)" and
    upd: "tree_update E2 d2 (u160_to_be_bytes i) (announce_update E2 \<lparr>socket_addr = Some ?p\<rparr>) = Inr (Inr d3)" by auto
  from announce_contents(1) [OF E(1,2) [OF node(3)] st2 upd]
  have st3: "stored E0 contents d3 i (insert_peer ?p (ps @ more))"
    by (simp add: stored_cong [OF E(3) [OF node(3)]])
  from answer_all_keeps(1) [OF after qs(2) st3] obtain more' where
    "stored E0 contents d4 i (insert_peer ?p (ps @ more) @ more')" by blast
  then have st4: "stored E3 contents d4 i (insert_peer ?p (ps @ more) @ more')"
    by (simp add: stored_cong [OF E(3) [OF node(4)]])
  have mem: "?p \<in> set (insert_peer ?p (ps @ more) @ more')" by (simp add: insert_peer_def)
  note stored_Some [OF st4 mem]
  moreover have "sender_id (origin (query_base q3)) \<noteq> node_id (srv_me s4)"
    using ask_again(2) s answer_all_keeps(3) [OF after qs(2)] handle_query_same_server(2) [OF announce(9)] by simp
  ultimately show ?thesis
    using get_peers_answer(2) [OF E(1) [OF node(4)] st4 ask_again(1) _ ask_again(3)] r2 mem by auto
qed

lemma ex_answers:
  assumes "server_ok ex_env (\<lambda>d. d) h"
  shows "\<exists>s' d' r. handle_query ex_env h (ex_ask m) = Inr ((s', d'), r) \<and> server_ok ex_env (\<lambda>d. d) (s', d')"
proof -
  have "sender_addr (origin (query_base (ex_ask m))) = SockV4 1 2" by (simp add: ex_ask_def into_query_def)
  from handle_query_server_ok [OF ex_world_ok assms this] show ?thesis by auto
qed

lemma ex_get_peers_found:
  assumes "handle_query ex_env (s, d) (ex_ask (GetPeers i)) = Inr ((s', d'), r)" "node_id (srv_me s) = u160_max"
  shows "\<exists>resp. r = Inr resp"
proof -
  have "sender_id (origin (query_base (ex_ask (GetPeers i)))) \<noteq> node_id (srv_me s)"
    using assms(2) by (simp add: ex_ask_def into_query_def u160_min_def u160_max_def)
  with assms(1) show ?thesis
    by (auto simp: handle_query_split serve_def handle_get_peers_def ex_env_def token_generate_def
        ex_ask_def into_query_def into_error_def split: if_split_asm option.split_asm)
qed

lemma ex_announce_works:
  assumes "handle_query ex_env (s, d) (ex_ask (AnnouncePeer i port token)) = Inr ((s', d'), r)"
  shows "r \<noteq> Inl (into_error base Server)"
  using assms by (auto simp: handle_query_split serve_def handle_announce_def ex_env_def
      ex_ask_def into_query_def into_error_def into_error_generic_def into_response_def split: if_split_asm sum.split_asm)

theorem announce_session_witness:
  "\<exists>h r1 r2 resp peers token ns. answer_all
     [(ex_env, ex_ask (GetPeers u160_max)), (ex_env, ex_ask (AnnouncePeer u160_max 77 ex_token)),
      (ex_env, ex_ask (GetPeers u160_max))] (ex_server, \<lambda>k. None) = Inr (h, [r1, r2, Inr resp]) \<and>
     resp_kind resp = Peers peers token (Some ns) \<and> SockV4 1 77 \<in> set peers"
proof -
  let ?get = "ex_ask (GetPeers u160_max)" and ?ann = "ex_ask (AnnouncePeer u160_max 77 ex_token)"
  let ?d = "(\<lambda>k. None) :: bytes \<Rightarrow> bytes option"
  have me: "node_id (srv_me ex_server) = u160_max" "sender_id (origin (query_base (ex_ask m))) \<noteq> u160_max"
    "sender_addr (origin (query_base (ex_ask m))) = SockV4 1 2" "query_meth (ex_ask m) = m" for m
    by (simp_all add: ex_server_def ex_ask_def into_query_def u160_min_def u160_max_def)
  have same: "same_node ex_env (\<lambda>d. d) ex_env" by (simp add: same_node_def ex_tree_laws ex_codec_laws)
  have st: "stored ex_env (\<lambda>d. d) ?d u160_max []" by (simp add: stored_def)
  obtain s1 d1 r1 where h1: "handle_query ex_env (ex_server, ?d) ?get = Inr ((s1, d1), r1)" "server_ok ex_env (\<lambda>d. d) (s1, d1)"
    using ex_answers [OF ex_server_ok] by blast
  obtain s2 d2 r2 where h2: "handle_query ex_env (s1, d1) ?ann = Inr ((s2, d2), r2)" "server_ok ex_env (\<lambda>d. d) (s2, d2)"
    using ex_answers [OF h1(2)] by blast
  obtain s3 d3 r3 where h3: "handle_query ex_env (s2, d2) ?get = Inr ((s3, d3), r3)" using ex_answers [OF h2(2)] by blast
  have me2: "node_id (srv_me s2) = u160_max"
    using handle_query_same_server(2) [OF h1(1)] handle_query_same_server(2) [OF h2(1)] me(1) by simp
  from ex_get_peers_found [OF h1(1) me(1)] obtain resp1 where r1: "r1 = Inr resp1" by blast
  from ex_get_peers_found [OF h3 me2] obtain resp3 where r3: "r3 = Inr resp3" by blast
  have env: "clock ex_env = Some 1000" "length (token_rand ex_env) = 8" "apply_keystream ex_env = xor_stream"
    "crc32c ex_env = (\<lambda>_. 0)" "rnd_ms ex_env = 0" "rnd_ls ex_env = 0" "token_rand ex_env = replicate 8 0"
    by (simp_all add: ex_env_def)
  have "kind_token (resp_kind resp1) = Some ex_token"
    using get_peers_answer(2) [OF ex_tree_laws st _ _ h1(1) [unfolded r1]] me
    by (auto simp: env ex_token_def token_generate_def xor_stream_def)
  moreover have "node_validate (crc32c ex_env) (rnd_ms ex_env) (rnd_ls ex_env) (sender_node (origin (query_base ?ann)))"
    by (simp add: env ex_ask_def into_query_def ex_node_valid)
  ultimately have "\<exists>peers token' ns. resp_kind resp3 = Peers peers token' (Some ns) \<and> SockV4 1 77 \<in> set peers"
    using announce_session [of ex_env "\<lambda>d. d" ex_env ex_env ex_env "[]" "[]" ?d u160_max "[]" ?get ex_server 1000 s1 d1 resp1
        ex_token s1 d1 "[]" ?ann 77 1000 s2 d2 r2 s2 d2 "[]" ?get s3 d3 resp3]
      same st me h1(1) h2(1) h3 r1 r3 env ex_announce_works [OF h2(1)] xor_stream_cipher
    by simp
  with h1(1) h2(1) h3 r1 r3 show ?thesis by auto
qed

end
