(* ===== verification/Spec2Isabelle.thy ===== *)
theory Spec2Isabelle
  imports Program KrpcTypes Readers Storage LookupCost Session
begin

text \<open>
  A verification library for the DHT node of this repository (crate \<open>dht-explorer\<close>, the files under
  \<open>src/src/\<close>).

  \<^bold>\<open>The program.\<close>  A node of the Mainline DHT.  A \<open>Node\<close> (\<open>node.rs\<close>) owns a \<open>Messenger\<close>
  (\<open>messenger.rs\<close>), whose \<open>Service\<close> (\<open>messenger/service.rs\<close>) sends KRPC messages over UDP, keeps the
  queue of queries that wait for a reply, hands replies to their callers and incoming queries to a
  \<open>QueryHandler\<close>; and a \<open>Server\<close> (\<open>node.rs\<close>), which is that handler unless the node is read-only.
  The server keeps a \<open>Router\<close> (\<open>router.rs\<close>: a chain of k-buckets of \<open>router/bucket.rs\<close> and a list of
  banned identifiers), a \<open>TokenGenerator\<close> (\<open>node/token.rs\<close>) and a database of announced peers.  As a
  client the node numbers its queries, walks towards a target (\<open>find_n_starting_at\<close>) and sweeps the
  whole identifier space (\<open>infohash_sweep\<close>).  Messages (\<open>messenger/message.rs\<close>, \<open>message_impl.rs\<close>) are
  turned into KRPC records (\<open>message/kmsg.rs\<close>, \<open>kmsg/kresponse.rs\<close>) and these by serde into bencoded
  bytes; identifiers and addresses have codecs of their own (\<open>kmsg/wrappers.rs\<close>, \<open>kmsg/serde_extra.rs\<close>,
  \<open>kmsg/error.rs\<close>, \<open>node_info.rs\<close>).

  \<^bold>\<open>Theories.\<close>
  \<^item> \<open>Prelude\<close>: integers of fixed width, the faults a function can end in and the result type, checked
    shifts, big-endian bytes, the slice, vector and ordered-set operations of the standard library, the
    task set of \<open>utils.rs\<close>; the contracts \<open>fixed_codec\<close>, \<open>id_space\<close>, \<open>routing_table\<close> and
    \<open>bounded_system\<close> (a step relation with an invariant and a potential) as locales.
  \<^item> \<open>U160\<close> (\<open>u160.rs\<close>): the identifier as two words, its operators, order and conversions, BEP 42.
    Lemmas: the operators refine those of a 160-bit word, the exclusive-or metric (interpretation of
    \<open>id_space\<close>), an identifier made for an address validates against it.
  \<^item> \<open>NodeInfo\<close> (\<open>node_info.rs\<close>), \<open>Wire\<close> (\<open>wrappers.rs\<close>, \<open>serde_extra.rs\<close>, \<open>error.rs\<close>): data, order and
    byte codecs; round trips, with the lengths and addresses on which they fail (interpretations of
    \<open>fixed_codec\<close>).
  \<^item> \<open>Kmsg\<close> (\<open>kmsg.rs\<close>, \<open>kresponse.rs\<close>): the records, and what their derived serde implementations make
    of them: a tree (\<open>bval\<close>) and back.  \<open>Bencode\<close>: one concrete byte format for such trees.  \<open>KrpcTypes\<close>: types
    of trees; the deserializer accepts exactly the trees of the type of a KRPC message.
  \<^item> \<open>Message\<close> (\<open>message.rs\<close>, \<open>message_impl.rs\<close>): messages, \<open>to_kmsg\<close>, \<open>from_kmsg\<close>, \<open>to_bytes\<close>, \<open>receive\<close>;
    what a receiver makes of a message that was sent, every refusal.  \<open>Text\<close>: the \<open>Display\<close>
    implementations and \<open>safe_string_from_slice\<close> of \<open>utils.rs\<close>; what they let into the log.
  \<^item> \<open>Bucket\<close> (\<open>router/bucket.rs\<close>): the routing table, every operation; the table invariant, what \<open>add\<close>,
    \<open>lookup\<close> and \<open>remove\<close> do to the nodes held, serialization (interpretation of \<open>routing_table\<close>).  \<open>LookupCost\<close>: how often \<open>lookup\<close> calls itself.
    \<open>Router\<close> (\<open>router.rs\<close>): the table with its bans, its reachable states.  \<open>Concurrent\<close>: the same calls
    as tasks that interleave where the code waits for a lock; bounds, termination and freedom from
    deadlock in every interleaving, and two races; \<open>Solo\<close>: a call that runs alone does what \<open>Bucket\<close> and
    \<open>Router\<close> say; \<open>Readers\<close>: lookups beside such calls, which never panic, see only known nodes and end, but
    can miss a node that a split is moving.  \<open>Storage\<close>: \<open>save_to_file\<close> and \<open>load_from_file\<close> down to the bytes of the file; what a router
    started from the file holds.
  \<^item> \<open>Token\<close> (\<open>node/token.rs\<close>): tokens; a token is accepted exactly when it was issued to the address
    and has not expired.
  \<^item> \<open>Service\<close> (\<open>messenger/service.rs\<close>, the trait of \<open>messenger.rs\<close>): sending, receiving, the queue, the
    semaphore; the step relation \<open>caller_step\<close> interleaves any number of callers of \<open>query\<close> and
    \<open>query_unbounded\<close> with arrivals and timeouts.  The locale \<open>query_handler\<close> is the contract between the
    service and its handler.
  \<^item> \<open>Server\<close> (\<open>node.rs\<close>, \<open>impl QueryHandler for Server\<close>): every handler; what is stored, answered and
    refused, freedom from panics (interpretation of \<open>query_handler\<close>).
  \<^item> \<open>Exchange\<close>: service and server over the bytes of datagrams: any traffic is survived, and a query
    gets its answer back.  \<open>Session\<close>: sequences of queries; the token handshake of an announcement.
  \<^item> \<open>Find\<close> (\<open>node.rs\<close>: \<open>build_query\<close>, \<open>send_find\<close>, \<open>find_n_starting_at\<close>) and \<open>Sweep\<close>
    (\<open>infohash_sweep\<close>): step relations whose steps are the results the network may give in any order;
    termination (interpretations of \<open>bounded_system\<close>, as in \<open>Concurrent\<close>), no node asked twice, what a
    finished walk or sweep has done.
  \<^item> \<open>Node\<close> (\<open>node.rs\<close>, \<open>messenger.rs\<close>): \<open>Node::new\<close>, \<open>Messenger::new\<close>, \<open>find\<close>, \<open>bootstrap\<close>.
    \<open>Explorer\<close> (\<open>main.rs\<close>, \<open>parameters.rs\<close>): the options, the start of the program, the texts of IPv4
    addresses, the configuration and the lines of the log; the program's node answers no query.
    \<open>Program\<close> (\<open>main.rs\<close>): \<open>main\<close> from the start of the node to its end, as a step relation over the walks of
    \<open>Find\<close>; it does not panic and comes to its end (interpretation of \<open>bounded_system\<close>).

  \<^bold>\<open>Correspondence.\<close>  Structs are records, enums datatypes, integers words of their width.  A function
  that can panic returns \<open>fault + 'a\<close> (\<open>Inl\<close> the panic), one that returns \<open>Result\<close> an inner sum, so that
  every \<open>?\<close>, \<open>unwrap\<close>, assertion and early return is a branch.  The arithmetic checks are those of the
  debug build.  Shared state behind a lock is a record that is passed and returned; what one critical
  section does is one step.  The order of tasks is left open by the step relations: \<open>get_next_result\<close>
  takes a task at any index.  A \<open>BTreeSet\<close> is the sorted list of its elements.  Ghost fields
  (\<open>wk_answered\<close>, \<open>sw_asked\<close>, \<open>sw_late\<close>) record history and are read by no operation.

  \<^bold>\<open>Bounds and fuel.\<close>  \<open>add\<close> runs with fuel 256, which is enough because every turn of its loop moves one
  bucket down and the index is at most \<open>MAX_BUCKET_INDEX = 159\<close>; the lemmas of section \<open>Fuel\<close> in
  \<open>Bucket\<close> show that a well-formed table never exhausts it and that more fuel changes nothing.  The
  reader of \<open>Bencode\<close> has the number of its bytes as fuel.  A walk takes at most
  \<open>2 ^ 160 + 1\<close> steps for its tasks, because a distance enters \<open>seen\<close> once; a sweep at most
  \<open>5 * 2 ^ 160 + 2751\<close> steps: an identifier enters \<open>queried\<close> once; \<open>c\<close> interleaved calls of a router with
  capacity \<open>k\<close> take at most \<open>256160 * k + 1600 * c\<close>, as each bucket is split once, and a lookup beside them at
  most \<open>2 ^ 162\<close> more, as each bucket may ask the next one twice; the whole program, with its two walks, at most
  \<open>2 ^ 161 + 6\<close>.  All are proved with progress: a step is possible until the end.

  \<^bold>\<open>Parameters.\<close>  Code that is not in the repository is an argument: \<open>crc32c\<close>; the cipher of the tokens,
  of which only \<open>stream_cipher\<close> (applying a key stream twice is the identity and keeps the length) is
  assumed; the file of the table, as its bytes; sled as \<open>tree_get\<close> and \<open>tree_update\<close> over an abstract
  database, with \<open>tree_laws\<close>; bt_bencode as \<open>bencode\<close> and \<open>bdecode\<close>, with \<open>codec_laws\<close> and \<open>format_laws\<close> (what it writes it reads back, the keys
  of a dictionary sorted), which \<open>Bencode\<close> shows to hold of a concrete format; the hex and base64
  crates; the text of socket addresses and times in the log; random draws; the clock; delivery of
  datagrams.  Witnesses instantiate all of them by concrete functions.

  \<^bold>\<open>Not modelled.\<close>  Argument parsing and the writing of the log (the crates structopt and fern), the calls of
  the log, \<open>Deref\<close> and similar trait boilerplate.  The locks of the routing table are interleaved in
  \<open>Concurrent\<close> and \<open>Readers\<close>; the other theories run its calls one at a time, and one call of \<open>handle_query\<close> is
  one step.  A walk applies the router changes of a task when the result of that task is taken, and the
  sweep leaves them out of its state, which no step of it reads.  Byte strings are read from byte strings
  only; that serde would also accept a list of small integers for some fields is left out.  The unused
  function \<open>prune\<close> of \<open>infohash_sweep\<close> and the commented-out end of \<open>main\<close> are dead code.
\<close>

end
